(* ===== verification/Prelude.thy ===== *)
theory Prelude
  imports Main "HOL-Library.Word"
begin

unbundle bit_operations_syntax

text \<open>
  Shared vocabulary of the development: the fixed-width integer types of the C and C++
  sources as words, byte strings as lists of octets, the two collections of rewrite rules
  the component theories extend (\<open>nat_of_word\<close> turns word arithmetic into arithmetic on
  natural numbers with the wrap-around written out, \<open>byte_simps\<close> holds the length and
  slicing facts of byte strings), and the generic facts on words and lists that several
  components use.
\<close>

type_synonym u8 = "8 word"
type_synonym u16 = "16 word"
type_synonym u32 = "32 word"
type_synonym u64 = "64 word"
type_synonym u128 = "128 word"
type_synonym bytes = "u8 list"

text \<open>A 32-byte digest (\<open>crypto::hash\<close>), kept as the bytes the code copies around.\<close>

type_synonym hash = bytes

named_theorems nat_of_word
named_theorems byte_simps

section \<open>Words as natural numbers\<close>

abbreviation u64_max :: nat where
  "u64_max \<equiv> 2 ^ 64 - 1"

lemma unat_u64_bound: "unat (x :: u64) < 2 ^ 64"
  using unsigned_less [of x, where ?'a = nat] by simp

lemma unat_u32_bound: "unat (x :: u32) < 2 ^ 32"
  using unsigned_less [of x, where ?'a = nat] by simp

lemma unat_u8_bound: "unat (x :: u8) < 256"
  using unsigned_less [of x, where ?'a = nat] by simp

lemma unat_u128_bound: "unat (x :: u128) < 2 ^ 128"
  using unsigned_less [of x, where ?'a = nat] by simp

lemmas unat_bounds =
  unat_u64_bound [simplified] unat_u32_bound [simplified] unat_u128_bound [simplified]

lemma unat_add_u64 [nat_of_word]: "unat (x + y :: u64) = (unat x + unat y) mod 2 ^ 64"
  by (simp add: unat_word_ariths)

lemma unat_mult_u64 [nat_of_word]: "unat (x * y :: u64) = (unat x * unat y) mod 2 ^ 64"
  by (simp add: unat_word_ariths)

lemma unat_sub_u64: "y \<le> x \<Longrightarrow> unat (x - y :: u64) = unat x - unat y"
  by (rule unat_sub)

lemma unat_div_u64 [nat_of_word]: "unat (x div y :: u64) = unat x div unat y"
  by (simp add: unat_div_distrib)

lemma unat_mod_u64 [nat_of_word]: "unat (x mod y :: u64) = unat x mod unat y"
  by (simp add: unat_mod_distrib)

lemma unat_drop_bit_u64 [nat_of_word]: "unat (drop_bit n x :: u64) = unat x div 2 ^ n"
  by (simp only: unsigned_drop_bit_eq)
     (simp add: drop_bit_eq_div take_bit_eq_mod unat_bounds)

lemma unat_push_bit_u64 [nat_of_word]: "unat (push_bit n x :: u64) = unat x * 2 ^ n mod 2 ^ 64"
  by (simp only: unsigned_push_bit_eq) (simp add: push_bit_eq_mult take_bit_eq_mod)

lemma unat_and_mask_u64: "unat (x AND mask n :: u64) = unat x mod 2 ^ n"
  by (simp only: unsigned_take_bit_eq flip: take_bit_eq_mask) (simp only: take_bit_eq_mod)

lemma u64_less_iff [nat_of_word]: "x < (y :: u64) \<longleftrightarrow> unat x < unat y"
  by (simp add: word_less_nat_alt)

lemma u64_le_iff [nat_of_word]: "x \<le> (y :: u64) \<longleftrightarrow> unat x \<le> unat y"
  by (simp add: word_le_nat_alt)

lemma u64_eq_iff [nat_of_word]: "x = (y :: u64) \<longleftrightarrow> unat x = unat y"
  by (simp add: word_unat_eq_iff)

text \<open>The carry out of a 64-bit addition, as the code detects it: the sum is below an operand.\<close>

lemma carry_u64: "x + y < (x :: u64) \<longleftrightarrow> 2 ^ 64 \<le> unat x + unat y"
proof -
  have "unat x + unat y < 2 * 2 ^ 64"
    using unat_u64_bound [of x] unat_u64_bound [of y] by simp
  then have "(unat x + unat y) mod 2 ^ 64
      = (if 2 ^ 64 \<le> unat x + unat y then unat x + unat y - 2 ^ 64 else unat x + unat y)"
    by (simp add: mod_if)
  then show ?thesis
    using unat_u64_bound [of x] unat_u64_bound [of y]
    by (simp add: u64_less_iff unat_add_u64 split: if_splits)
qed

text \<open>Joining a low part and a shifted high part with a bitwise or adds them.\<close>

lemma low_and_push_bit:
  fixes x y :: "'a :: len word"
  assumes "unat x < 2 ^ n"
  shows "x AND push_bit n y = 0"
proof (rule bit_word_eqI)
  fix k assume "k < LENGTH('a)"
  have "take_bit n x = x"
    by (simp only: word_unat_eq_iff unsigned_take_bit_eq take_bit_nat_eq_self assms)
  then have "bit x k \<Longrightarrow> k < n" by (metis bit_take_bit_iff)
  then show "bit (x AND push_bit n y) k = bit (0 :: 'a word) k"
    by (auto simp: bit_simps)
qed

lemma low_or_push_bit:
  fixes x y :: "'a :: len word"
  assumes "unat x < 2 ^ n"
  shows "x OR push_bit n y = x + push_bit n y"
  using word_plus_and_or [of x "push_bit n y"] low_and_push_bit [OF assms, of y] by simp

lemma unat_ucast_u32_u64 [nat_of_word]: "unat (ucast (x :: u32) :: u64) = unat x"
  by (simp add: unsigned_ucast_eq take_bit_nat_eq_self unat_bounds order_less_trans [OF unat_u32_bound])

lemma unat_ucast_u64_u32 [nat_of_word]: "unat (ucast (x :: u64) :: u32) = unat x mod 2 ^ 32"
  by (simp only: unsigned_ucast_eq take_bit_eq_mod) simp

lemma unat_ucast_u64_u128 [nat_of_word]: "unat (ucast (x :: u64) :: u128) = unat x"
  by (simp add: unsigned_ucast_eq take_bit_nat_eq_self order_less_trans [OF unat_u64_bound])

lemma unat_ucast_u128_u64 [nat_of_word]: "unat (ucast (x :: u128) :: u64) = unat x mod 2 ^ 64"
  by (simp only: unsigned_ucast_eq take_bit_eq_mod) simp

text \<open>The same facts at any width.\<close>

lemma unat_drop_bit_div: "unat (drop_bit n x) = unat x div 2 ^ n" for x :: "'a :: len word"
  by (simp only: unat_drop_bit_eq) (simp only: drop_bit_eq_div)

lemma unat_and_mask: "unat (x AND mask n) = unat x mod 2 ^ n" for x :: "'a :: len word"
  by (simp only: unsigned_take_bit_eq flip: take_bit_eq_mask) (simp only: take_bit_eq_mod)

lemma unat_push_bit_mod: "unat (push_bit n x) = unat x * 2 ^ n mod 2 ^ LENGTH('a)" for x :: "'a :: len word"
  by (simp only: unsigned_push_bit_eq) (simp only: push_bit_eq_mult take_bit_eq_mod)

lemma push_bit_one_minus: "push_bit n 1 - 1 = (mask n :: 'a :: len word)"
  by (simp add: mask_eq_exp_minus_1 push_bit_eq_mult)

lemma unat_of_nat_u64: "n < 2 ^ 64 \<Longrightarrow> unat (of_nat n :: u64) = n"
  by (simp only: unsigned_of_nat) (simp add: take_bit_nat_eq_self)

lemma unat_ucast_u8_u64 [nat_of_word]: "unat (ucast (x :: u8) :: u64) = unat x"
  by (simp add: unsigned_ucast_eq take_bit_nat_eq_self order_less_trans [OF unat_u8_bound])

section \<open>Words in memory\<close>

text \<open>
  The value of a byte string read as a little-endian word, and the first bytes of a word
  as they lie in memory. The model fixes the little-endian host the sources are built
  for by default; on it \<open>swap64le\<close> is the identity and \<open>SWAP64BE\<close> reverses the bytes.
\<close>

fun le_word :: "bytes \<Rightarrow> 'a :: len word" where
  "le_word [] = 0"
| "le_word (b # bs) = ucast b OR push_bit 8 (le_word bs)"

definition le_split :: "nat \<Rightarrow> 'a :: len word \<Rightarrow> bytes" where
  "le_split n x = map (\<lambda>i. ucast (drop_bit (8 * i) x)) [0..<n]"

text \<open>The value of a byte string as a number, least significant byte first.\<close>

fun le_nat :: "bytes \<Rightarrow> nat" where
  "le_nat [] = 0"
| "le_nat (b # bs) = unat b + 256 * le_nat bs"

lemma bit_le_word:
  "bit (le_word bs :: 'a :: len word) k \<longleftrightarrow>
    k < LENGTH('a) \<and> k div 8 < length bs \<and> bit (bs ! (k div 8)) (k mod 8)"
proof (induction bs arbitrary: k)
  case Nil
  then show ?case by simp
next
  case (Cons b bs)
  show ?case
  proof (cases "k < 8")
    case True
    then show ?thesis by (simp add: bit_simps)
  next
    case False
    then obtain j where j: "k = j + 8" by (metis add.commute le_add_diff_inverse not_less)
    have "k < LENGTH('a) \<Longrightarrow> j < LENGTH('a)" using j by simp
    moreover have "(j + 8) div 8 = Suc (j div 8)" by simp
    ultimately show ?thesis using Cons.IH [of j] bit_imp_le_length [of b k]
      by (auto simp: j bit_simps)
  qed
qed

lemma length_le_split [simp, byte_simps]: "length (le_split n x) = n"
  by (simp add: le_split_def)

lemma le_word_le_split: "le_word (le_split n x) = take_bit (8 * n) (x :: 'a :: len word)"
proof (rule bit_word_eqI)
  fix k assume "k < LENGTH('a)"
  moreover have "k div 8 < n \<longleftrightarrow> k < 8 * n" by auto
  ultimately show "bit (le_word (le_split n x) :: 'a word) k = bit (take_bit (8 * n) x) k"
    by (auto simp: bit_le_word le_split_def bit_simps)
qed

lemma le_split_le_word:
  assumes "8 * length bs \<le> LENGTH('a)"
  shows "le_split (length bs) (le_word bs :: 'a :: len word) = bs"
proof (rule nth_equalityI)
  fix i assume "i < length (le_split (length bs) (le_word bs :: 'a word))"
  then have i: "i < length bs" by simp
  show "le_split (length bs) (le_word bs :: 'a word) ! i = bs ! i"
  proof (rule bit_word_eqI)
    fix k :: nat assume "k < LENGTH(8)"
    then have "k < 8" by simp
    moreover have "8 * i + k < LENGTH('a)" using i \<open>k < 8\<close> assms by simp
    ultimately show "bit (le_split (length bs) (le_word bs :: 'a word) ! i) k = bit (bs ! i) k"
      using i by (simp add: le_split_def bit_simps bit_le_word)
  qed
qed simp

lemma All_less_numeral: "(\<forall>k < numeral n. P k) \<longleftrightarrow> P (pred_numeral n) \<and> (\<forall>k < pred_numeral n. P k)"
  by (simp add: numeral_eq_Suc less_Suc_eq) blast

lemma le_nat_bound: "le_nat bs < 256 ^ length bs"
proof (induction bs)
  case (Cons b bs)
  have "unat b + 256 * le_nat bs < 256 + 256 * le_nat bs" by (simp add: unat_u8_bound)
  also have "\<dots> = 256 * Suc (le_nat bs)" by simp
  also have "\<dots> \<le> 256 * 256 ^ length bs" using Cons.IH by (intro mult_left_mono) auto
  finally show ?case by simp
qed simp

lemma unat_le_word:
  assumes "8 * length bs \<le> LENGTH('a)"
  shows "unat (le_word bs :: 'a :: len word) = le_nat bs"
  using assms
proof (induction bs)
  case (Cons b bs)
  have IH: "unat (le_word bs :: 'a word) = le_nat bs" using Cons by simp
  have "(256 :: nat) = 2 ^ 8" by simp
  then have p: "256 ^ length (b # bs) = (2 :: nat) ^ (8 * length (b # bs))"
    by (simp only: power_mult)
  have "(2 :: nat) ^ (8 * length (b # bs)) \<le> 2 ^ LENGTH('a)"
    using Cons.prems by (intro power_increasing) auto
  with p le_nat_bound [of "b # bs"] have small: "le_nat (b # bs) < 2 ^ LENGTH('a)" by linarith
  have ub: "unat (ucast b :: 'a word) = unat b"
    using small by (simp add: unsigned_ucast_eq take_bit_nat_eq_self)
  have "unat (push_bit 8 (le_word bs) :: 'a word) = 256 * le_nat bs"
    using small by (simp only: unsigned_push_bit_eq IH)
      (simp add: push_bit_eq_mult take_bit_nat_eq_self mult.commute)
  with ub small have "unat (ucast b + push_bit 8 (le_word bs) :: 'a word) = le_nat (b # bs)"
    by (simp only: unat_word_ariths le_nat.simps mod_less)
  moreover have "unat (ucast b :: 'a word) < 2 ^ 8"
    using unat_u8_bound [of b] by (simp add: ub)
  ultimately show ?case by (simp only: le_word.simps low_or_push_bit)
qed simp

section \<open>Strings as buffers\<close>

text \<open>A string literal as bytes.\<close>

definition ascii :: "string \<Rightarrow> bytes" where
  "ascii s = map of_char s"

text \<open>\<open>memcpy(dst + at, src, |src|)\<close>, and \<open>resize\<close> of a string or vector.\<close>

definition memcpy_at :: "'a list \<Rightarrow> nat \<Rightarrow> 'a list \<Rightarrow> 'a list" where
  "memcpy_at dst at src = take at dst @ src @ drop (at + length src) dst"

definition resize :: "'a list \<Rightarrow> nat \<Rightarrow> 'a \<Rightarrow> 'a list" where
  "resize xs n x = take n xs @ replicate (n - length xs) x"

lemma length_memcpy_at [byte_simps]:
  "at + length src \<le> length dst \<Longrightarrow> length (memcpy_at dst at src) = length dst"
  by (simp add: memcpy_at_def)

lemma length_resize [simp, byte_simps]: "length (resize xs n x) = n"
  by (simp add: resize_def)

text \<open>The first \<open>k\<close> pieces of \<open>n\<close> elements each.\<close>

definition pieces :: "nat \<Rightarrow> nat \<Rightarrow> 'a list \<Rightarrow> 'a list list" where
  "pieces n k xs = map (\<lambda>i. take n (drop (i * n) xs)) [0..<k]"

lemma length_pieces [simp]: "length (pieces n k xs) = k"
  by (simp add: pieces_def)

lemma concat_pieces: "concat (pieces n k xs) = take (k * n) xs"
proof (induction k)
  case (Suc k)
  have "take (k * n) xs @ take n (drop (k * n) xs) = take (k * n + n) xs" by (simp add: take_add)
  with Suc show ?case by (simp add: pieces_def add.commute)
qed (simp add: pieces_def)

lemma length_concat_const: "\<forall>b\<in>set bs. length b = n \<Longrightarrow> length (concat bs) = length bs * n"
  by (induction bs) auto

lemma take_drop_concat:
  "\<forall>b\<in>set bs. length b = n \<Longrightarrow> i < length bs \<Longrightarrow> take n (drop (i * n) (concat bs @ r)) = bs ! i"
proof (induction bs arbitrary: i)
  case (Cons b bs)
  then show ?case by (cases i) (simp_all add: drop_append)
qed simp

lemma pieces_concat: "\<forall>b\<in>set bs. length b = n \<Longrightarrow> pieces n (length bs) (concat bs @ r) = bs"
proof (rule nth_equalityI)
  fix i assume "\<forall>b\<in>set bs. length b = n" "i < length (pieces n (length bs) (concat bs @ r))"
  then show "pieces n (length bs) (concat bs @ r) ! i = bs ! i"
    using take_drop_concat [of bs n i r] by (simp only: pieces_def length_map length_upt nth_map nth_upt) simp
qed simp

lemma length_piece: "b \<in> set (pieces n k xs) \<Longrightarrow> k * n \<le> length xs \<Longrightarrow> length b = n"
proof -
  assume b: "b \<in> set (pieces n k xs)" and len: "k * n \<le> length xs"
  obtain i where i: "i < k" "b = take n (drop (i * n) xs)" using b by (auto simp: pieces_def)
  have "Suc i * n \<le> k * n" using i(1) by (intro mult_right_mono) auto
  with i len show ?thesis by simp
qed

end
