(* ===== verification/Codec.thy ===== *)
theory Codec
  imports Prelude
begin

text \<open>
  The contracts of the encoders of the system, as locales. A \<open>codec\<close> decodes what it
  encoded; a \<open>canonical_codec\<close> moreover accepts nothing but its own encodings, so that a
  value has one encoding only; a \<open>stream_codec\<close> decodes a prefix of its input and hands
  the rest on, which makes encodings composable. The component theories interpret them
  on the variable-length integers, on base58 and on the address strings.
\<close>

locale codec =
  fixes enc :: "'a \<Rightarrow> 'b" and dec :: "'b \<Rightarrow> 'a option" and valid :: "'a \<Rightarrow> bool"
  assumes dec_enc: "valid x \<Longrightarrow> dec (enc x) = Some x"
begin

lemma enc_inj: "valid x \<Longrightarrow> valid y \<Longrightarrow> enc x = enc y \<longleftrightarrow> x = y"
  by (metis dec_enc option.inject)

end

locale canonical_codec = codec +
  assumes dec_valid: "dec y = Some x \<Longrightarrow> valid x"
    and enc_dec: "dec y = Some x \<Longrightarrow> enc x = y"
begin

lemma dec_iff: "dec y = Some x \<longleftrightarrow> valid x \<and> y = enc x"
  using dec_enc dec_valid enc_dec by blast

lemma dec_inj: "dec y = Some x \<Longrightarrow> dec z = Some x \<Longrightarrow> y = z"
  by (drule enc_dec)+ simp

end

locale stream_codec =
  fixes senc :: "'a \<Rightarrow> 'b list" and sdec :: "'b list \<Rightarrow> ('a \<times> 'b list) option"
    and svalid :: "'a \<Rightarrow> bool"
  assumes sdec_senc: "svalid x \<Longrightarrow> sdec (senc x @ rest) = Some (x, rest)"
begin

lemma senc_prefix_free:
  assumes "svalid x" "svalid y" "senc x @ r = senc y @ s"
  shows "x = y \<and> r = s"
proof -
  have "Some (x, r) = sdec (senc y @ s)"
    using sdec_senc [OF assms(1), of r] by (simp only: assms(3))
  also have "\<dots> = Some (y, s)" by (rule sdec_senc [OF assms(2)])
  finally show ?thesis by simp
qed

lemma senc_list_inj:
  assumes "length xs = length ys" "\<forall>x\<in>set xs. svalid x" "\<forall>y\<in>set ys. svalid y"
    and "concat (map senc xs) @ r = concat (map senc ys) @ s"
  shows "xs = ys \<and> r = s"
  using assms
proof (induction xs ys rule: list_induct2)
  case (Cons x xs y ys)
  have "senc x @ (concat (map senc xs) @ r) = senc y @ (concat (map senc ys) @ s)"
    using Cons.prems by simp
  with Cons.prems have "x = y \<and> concat (map senc xs) @ r = concat (map senc ys) @ s"
    by (intro senc_prefix_free) auto
  with Cons show ?case by simp
qed simp

end

text \<open>A stream codec whose whole input is one encoding is a codec.\<close>

sublocale stream_codec \<subseteq> whole: codec senc
  "\<lambda>bs. case sdec bs of Some (x, []) \<Rightarrow> Some x | _ \<Rightarrow> None" svalid
  using sdec_senc [where rest = "[]"] by unfold_locales simp

end
