(* ===== verification/Int_Util.thy ===== *)
theory Int_Util
  imports Prelude
begin

text \<open>
  The 64-bit and 128-bit integer helpers of \<open>contrib/epee/include/int-util.h\<close> and
  \<open>contrib/epee/src/int-util.cpp\<close>: the 64 by 64 to 128 bit product, the two long
  divisions, the clamped addition and subtraction, and the byte swaps. A pointer argument
  through which the C code returns a second result is a further component of the result.
\<close>

section \<open>Definitions\<close>

definition hi_dword :: "u64 \<Rightarrow> u64" where
  "hi_dword val = drop_bit 32 val"

definition lo_dword :: "u64 \<Rightarrow> u64" where
  "lo_dword val = val AND 0xFFFFFFFF"

text \<open>\<open>mul128\<close> returns the low word and writes the high word through \<open>product_hi\<close>.\<close>

definition mul128 :: "u64 \<Rightarrow> u64 \<Rightarrow> u64 \<times> u64" where
  "mul128 multiplier multiplicand =
    (let a = hi_dword multiplier;
         b = lo_dword multiplier;
         c = hi_dword multiplicand;
         d = lo_dword multiplicand;
         ac = a * c;
         ad = a * d;
         bc = b * c;
         bd = b * d;
         adbc = ad + bc;
         adbc_carry = (if adbc < ad then 1 else 0);
         product_lo = bd + push_bit 32 adbc;
         product_lo_carry = (if product_lo < bd then 1 else 0);
         product_hi = ac + drop_bit 32 adbc + push_bit 32 adbc_carry + product_lo_carry
     in (product_lo, product_hi))"

text \<open>
  \<open>div_with_reminder dividend divisor remainder\<close> is the quotient and the new value of
  \<open>*remainder\<close>. The divisor and the remainder are 32-bit; the quotient of a zero divisor,
  undefined in C, is ruled out by the caller below.
\<close>

definition div_with_reminder :: "u64 \<Rightarrow> u32 \<Rightarrow> u32 \<Rightarrow> u64 \<times> u32" where
  "div_with_reminder dividend divisor remainder =
    (let dividend = dividend OR push_bit 32 (ucast remainder)
     in (dividend div ucast divisor, ucast (dividend mod ucast divisor)))"

text \<open>\<open>None\<close> is the trap of a division by zero; the result is the remainder and the quotient's words.\<close>

definition div128_32 :: "u64 \<Rightarrow> u64 \<Rightarrow> u32 \<Rightarrow> (u32 \<times> u64 \<times> u64) option" where
  "div128_32 dividend_hi dividend_lo divisor =
    (if divisor = 0 then None
     else
       let (q3, r3) = div_with_reminder (hi_dword dividend_hi) divisor 0;
           (q2, r2) = div_with_reminder (lo_dword dividend_hi) divisor r3;
           (q1, r1) = div_with_reminder (hi_dword dividend_lo) divisor r2;
           (q0, r0) = div_with_reminder (lo_dword dividend_lo) divisor r1
       in Some (r0, push_bit 32 q3 OR q2, push_bit 32 q1 OR q0))"

text \<open>
  \<open>div128_64\<close> goes through \<open>boost::multiprecision::uint128_t\<close>, a 128-bit word, whose
  \<open>divide_qr\<close> throws \<open>std::overflow_error\<close> on a zero divisor (\<open>None\<close>). The result is
  the quotient's high and low word, then the remainder's.
\<close>

definition div128_64 :: "u64 \<Rightarrow> u64 \<Rightarrow> u64 \<Rightarrow> (u64 \<times> u64 \<times> u64 \<times> u64) option" where
  "div128_64 dividend_hi dividend_lo divisor =
    (if divisor = 0 then None
     else
       let dividend = push_bit 64 (ucast dividend_hi :: u128) OR ucast dividend_lo;
           q = dividend div ucast divisor;
           r = dividend mod ucast divisor
       in Some (ucast (drop_bit 64 q AND 0xffffffffffffffff), ucast (q AND 0xffffffffffffffff),
                ucast (drop_bit 64 r AND 0xffffffffffffffff), ucast (r AND 0xffffffffffffffff)))"

definition add64clamp :: "u64 \<Rightarrow> u64 \<Rightarrow> u64" where
  "add64clamp value add =
    (let maxval = - 1 in if value > maxval - add then maxval else value + add)"

definition sub64clamp :: "u64 \<Rightarrow> u64 \<Rightarrow> u64" where
  "sub64clamp value sub = (if value < sub then 0 else value - sub)"

definition swap16 :: "u16 \<Rightarrow> u16" where
  "swap16 x = push_bit 8 (x AND 0x00ff) OR drop_bit 8 (x AND 0xff00)"

definition swap32 :: "u32 \<Rightarrow> u32" where
  "swap32 x =
    (let x = push_bit 8 (x AND 0x00ff00ff) OR drop_bit 8 (x AND 0xff00ff00)
     in push_bit 16 x OR drop_bit 16 x)"

definition swap64 :: "u64 \<Rightarrow> u64" where
  "swap64 x =
    (let x = push_bit 8 (x AND 0x00ff00ff00ff00ff) OR drop_bit 8 (x AND 0xff00ff00ff00ff00);
         x = push_bit 16 (x AND 0x0000ffff0000ffff) OR drop_bit 16 (x AND 0xffff0000ffff0000)
     in push_bit 32 x OR drop_bit 32 x)"

text \<open>The \<open>SWAP64\<close> macro.\<close>

definition SWAP64 :: "u64 \<Rightarrow> u64" where
  "SWAP64 x =
    push_bit 56 (x AND 0x00000000000000ff) OR
    push_bit 40 (x AND 0x000000000000ff00) OR
    push_bit 24 (x AND 0x0000000000ff0000) OR
    push_bit 8 (x AND 0x00000000ff000000) OR
    drop_bit 8 (x AND 0x000000ff00000000) OR
    drop_bit 24 (x AND 0x0000ff0000000000) OR
    drop_bit 40 (x AND 0x00ff000000000000) OR
    drop_bit 56 (x AND 0xff00000000000000)"

definition SWAP16 :: "u16 \<Rightarrow> u16" where
  "SWAP16 x = push_bit 8 (x AND 0x00ff) OR drop_bit 8 (x AND 0xff00)"

definition SWAP32 :: "u32 \<Rightarrow> u32" where
  "SWAP32 x =
    push_bit 24 (x AND 0x000000ff) OR
    push_bit 8 (x AND 0x0000ff00) OR
    drop_bit 8 (x AND 0x00ff0000) OR
    drop_bit 24 (x AND 0xff000000)"

text \<open>The rotations; \<open>- r & 31\<close> on a two's complement \<open>int\<close> is \<open>- r\<close> modulo 32.\<close>

definition rol32 :: "u32 \<Rightarrow> int \<Rightarrow> u32" where
  "rol32 x r = push_bit (nat (r AND 31)) x OR drop_bit (nat (- r AND 31)) x"

definition rol64 :: "u64 \<Rightarrow> int \<Rightarrow> u64" where
  "rol64 x r = push_bit (nat (r AND 63)) x OR drop_bit (nat (- r AND 63)) x"

text \<open>The array forms; a memory area of \<open>n\<close> integers is the list of them.\<close>

fun mem_inplace_swap64 :: "u64 list \<Rightarrow> nat \<Rightarrow> u64 list" where
  "mem_inplace_swap64 mem 0 = mem"
| "mem_inplace_swap64 [] (Suc n) = []"
| "mem_inplace_swap64 (x # mem) (Suc n) = swap64 x # mem_inplace_swap64 mem n"

definition memcpy_swap64 :: "u64 list \<Rightarrow> u64 list \<Rightarrow> nat \<Rightarrow> u64 list" where
  "memcpy_swap64 dst src n = fold (\<lambda>i d. d[i := swap64 (src ! i)]) [0..<n] dst"

section \<open>The 128-bit product\<close>

lemma unat_hi_dword [nat_of_word]: "unat (hi_dword x) = unat x div 2 ^ 32"
  by (simp only: hi_dword_def unat_drop_bit_u64)

lemma unat_lo_dword [nat_of_word]: "unat (lo_dword x) = unat x mod 2 ^ 32"
  using unat_and_mask_u64 [of x 32] by (simp add: lo_dword_def mask_eq_exp_minus_1)

text \<open>The schoolbook identity behind \<open>mul128\<close>, over natural numbers.\<close>

lemma schoolbook_product:
  fixes a b c d w :: nat
  assumes "a < w" "b < w" "c < w" "d < w"
  defines "t \<equiv> a * d + b * c"
  defines "lo \<equiv> b * d + (t mod w) * w"
  shows "(a * c + t div w + lo div (w * w)) * (w * w) + lo mod (w * w) = (a * w + b) * (c * w + d)"
proof -
  have "lo div (w * w) * (w * w) + lo mod (w * w) = lo" by (rule div_mult_mod_eq)
  moreover have "t div w * (w * w) + (t mod w) * w = t * w"
    by (metis add_mult_distrib div_mult_mod_eq mult.assoc)
  ultimately show ?thesis
    by (simp add: lo_def t_def algebra_simps)
qed

lemma mul_dwords_exact:
  fixes a b :: u64
  assumes "unat a < 2 ^ 32" "unat b < 2 ^ 32"
  shows "unat (a * b) = unat a * unat b"
proof -
  have "unat a * unat b < 2 ^ 32 * 2 ^ 32"
    using assms by (intro mult_strict_mono) auto
  then show ?thesis by (simp add: unat_mult_u64)
qed

text \<open>The carry flag the code computes is the high word of the exact sum.\<close>

lemma unat_carry_u64:
  "unat (if x + y < (x :: u64) then 1 else 0 :: u64) = (unat x + unat y) div 2 ^ 64"
proof -
  have "unat x + unat y < 2 * 2 ^ 64"
    using unat_u64_bound [of x] unat_u64_bound [of y] by simp
  then show ?thesis by (auto simp: carry_u64 div_nat_eqI)
qed

lemma div_split_carry: "t mod (w * w) div w + t div (w * w) * w = t div (w :: nat)" if "0 < w"
proof -
  have "t = t mod (w * w) + t div (w * w) * w * w"
    by (metis mod_div_mult_eq mult.assoc)
  then have "t div w = (t mod (w * w) + t div (w * w) * w * w) div w" by simp
  then show ?thesis using that by simp
qed

lemma mod_shift_split: "(t mod (w * w)) * w mod (w * w) = (t mod w) * (w :: nat)"
  by (simp add: mod_mod_cancel)

lemma mul128_parts:
  fixes x y :: u64
  defines "a \<equiv> unat x div 2 ^ 32" and "b \<equiv> unat x mod 2 ^ 32"
    and "c \<equiv> unat y div 2 ^ 32" and "d \<equiv> unat y mod 2 ^ 32"
  defines "t \<equiv> a * d + b * c"
  defines "lo \<equiv> b * d + (t mod 2 ^ 32) * 2 ^ 32"
  shows "unat (fst (mul128 x y)) = lo mod 2 ^ 64"
    and "unat (snd (mul128 x y)) = (a * c + t div 2 ^ 32 + lo div 2 ^ 64) mod 2 ^ 64"
proof -
  define A B C D where "A = hi_dword x" and "B = lo_dword x" and "C = hi_dword y" and "D = lo_dword y"
  have small: "unat A < 2 ^ 32" "unat B < 2 ^ 32" "unat C < 2 ^ 32" "unat D < 2 ^ 32"
    using unat_u64_bound [of x] unat_u64_bound [of y]
    by (simp_all add: A_def B_def C_def D_def unat_hi_dword unat_lo_dword less_mult_imp_div_less)
  have vals: "unat A = a" "unat B = b" "unat C = c" "unat D = d"
    by (simp_all only: A_def B_def C_def D_def unat_hi_dword unat_lo_dword a_def b_def c_def d_def)
  have prods: "unat (A * C) = a * c" "unat (A * D) = a * d" "unat (B * C) = b * c" "unat (B * D) = b * d"
    by (simp_all only: mul_dwords_exact [OF small(1,3)] mul_dwords_exact [OF small(1,4)]
        mul_dwords_exact [OF small(2,3)] mul_dwords_exact [OF small(2,4)] vals)
  define S where "S = A * D + B * C"
  have S: "unat S = t mod 2 ^ 64"
    by (simp only: S_def unat_add_u64 prods t_def)
  have carry: "unat (if S < A * D then 1 else 0 :: u64) = t div 2 ^ 64"
    using unat_carry_u64 [of "A * D" "B * C"] by (simp only: S_def prods t_def)
  have push: "unat (push_bit 32 S) = (t mod 2 ^ 32) * 2 ^ 32"
    using mod_shift_split [of t "2 ^ 32"] by (simp add: unat_push_bit_u64 S)
  define P where "P = B * D + push_bit 32 S"
  have P: "unat P = lo mod 2 ^ 64"
    by (simp only: P_def unat_add_u64 prods push lo_def)
  have pcarry: "unat (if P < B * D then 1 else 0 :: u64) = lo div 2 ^ 64"
    using unat_carry_u64 [of "B * D" "push_bit 32 S"] by (simp only: P_def prods push lo_def)
  have res: "mul128 x y = (P, A * C + drop_bit 32 S + push_bit 32 (if S < A * D then 1 else 0)
      + (if P < B * D then 1 else 0))"
    by (simp only: mul128_def Let_def P_def S_def A_def B_def C_def D_def)
  from res P show "unat (fst (mul128 x y)) = lo mod 2 ^ 64" by simp
  have drop: "unat (drop_bit 32 S) = t mod 2 ^ 64 div 2 ^ 32"
    by (simp only: unat_drop_bit_u64 S)
  have "unat (push_bit 32 (if S < A * D then 1 else 0 :: u64)) = (t div 2 ^ 64) * 2 ^ 32 mod 2 ^ 64"
    by (simp only: unat_push_bit_u64 carry)
  with drop pcarry have "unat (snd (mul128 x y))
      = (a * c + t mod 2 ^ 64 div 2 ^ 32 + (t div 2 ^ 64) * 2 ^ 32 + lo div 2 ^ 64) mod 2 ^ 64"
    by (simp only: res snd_conv unat_add_u64 prods mod_add_left_eq mod_add_right_eq mod_add_eq)
  moreover have "t mod 2 ^ 64 div 2 ^ 32 + (t div 2 ^ 64) * 2 ^ 32 = t div 2 ^ 32"
    using div_split_carry [of "2 ^ 32" t] by simp
  ultimately show "unat (snd (mul128 x y)) = (a * c + t div 2 ^ 32 + lo div 2 ^ 64) mod 2 ^ 64"
    by (simp only: add.assoc)
qed

text \<open>\<open>mul128\<close> computes the exact 128-bit product, split into its two words.\<close>

lemma mul128_product:
  "unat (snd (mul128 x y)) * 2 ^ 64 + unat (fst (mul128 x y)) = unat x * unat y"
proof -
  define a b c d where "a = unat x div 2 ^ 32" and "b = unat x mod 2 ^ 32"
    and "c = unat y div 2 ^ 32" and "d = unat y mod 2 ^ 32"
  define t lo where "t = a * d + b * c" and "lo = b * d + (t mod 2 ^ 32) * 2 ^ 32"
  have xy: "a * 2 ^ 32 + b = unat x" "c * 2 ^ 32 + d = unat y"
    by (simp_all only: a_def b_def c_def d_def div_mult_mod_eq)
  have small: "a < 2 ^ 32" "b < 2 ^ 32" "c < 2 ^ 32" "d < 2 ^ 32"
    using unat_u64_bound [of x] unat_u64_bound [of y]
    by (simp_all add: a_def b_def c_def d_def less_mult_imp_div_less)
  define hi where "hi = a * c + t div 2 ^ 32 + lo div 2 ^ 64"
  have exact: "hi * 2 ^ 64 + lo mod 2 ^ 64 = unat x * unat y"
    using schoolbook_product [OF small, folded t_def, folded lo_def]
    by (simp only: hi_def xy power_add [symmetric]) simp
  have "unat x * unat y < 2 ^ 64 * 2 ^ 64"
    using unat_u64_bound by (intro mult_strict_mono) auto
  with exact have "hi * 2 ^ 64 < 2 ^ 64 * 2 ^ 64" by linarith
  then have "hi mod 2 ^ 64 = hi" by simp
  with mul128_parts [of x y, folded a_def b_def c_def d_def, folded t_def, folded lo_def, folded hi_def]
  show ?thesis using exact by (simp only:)
qed

section \<open>Long division\<close>

lemma div_with_reminder_correct:
  assumes "unat x < 2 ^ 32" and "divisor \<noteq> 0" and "r < divisor"
    and "div_with_reminder x divisor r = (q, r')"
  shows "unat q * unat divisor + unat r' = unat r * 2 ^ 32 + unat x"
    and "r' < divisor" and "unat q < 2 ^ 32"
proof -
  define n where "n = unat r * 2 ^ 32 + unat x"
  define d where "d = unat divisor"
  have d: "0 < d" "d < 2 ^ 32"
    using assms(2) unat_u32_bound [of divisor] by (auto simp: d_def unat_gt_0)
  have rd: "unat r < d" using assms(3) by (simp add: d_def word_less_nat_alt)
  have "unat r * 2 ^ 32 + unat x < unat r * 2 ^ 32 + 2 ^ 32" using assms(1) by simp
  also have "\<dots> = Suc (unat r) * 2 ^ 32" by simp
  also have "\<dots> \<le> d * 2 ^ 32" using rd by (intro mult_right_mono) auto
  finally have nd: "n < d * 2 ^ 32" by (simp only: n_def)
  also have "\<dots> \<le> 2 ^ 32 * 2 ^ 32" using d(2) by (intro mult_right_mono) auto
  finally have n64: "n < 2 ^ 64" by simp
  have rsmall: "unat r * 2 ^ 32 < 2 ^ 64" using n64 by (simp add: n_def)
  define D where "D = x OR push_bit 32 (ucast r :: u64)"
  have "unat (push_bit 32 (ucast r :: u64)) = unat r * 2 ^ 32"
    by (simp only: unat_push_bit_u64 unat_ucast_u32_u64 mod_less [OF rsmall])
  then have D: "unat D = n"
    by (simp only: D_def low_or_push_bit [OF assms(1)] unat_add_u64 add.commute [of "unat x"]
        mod_less [OF n64] flip: n_def)
  have q: "q = D div ucast divisor" and r': "r' = ucast (D mod ucast divisor)"
    using assms(4) by (simp_all add: div_with_reminder_def D_def Let_def)
  have uq: "unat q = n div d" by (simp only: q unat_div_u64 D unat_ucast_u32_u64 d_def)
  have "n mod d < 2 ^ 32" using d by (meson mod_less_divisor order_less_trans)
  then have ur: "unat r' = n mod d"
    by (simp add: r' unat_ucast_u64_u32 unat_mod_u64 D unat_ucast_u32_u64 d_def)
  show "unat q * unat divisor + unat r' = unat r * 2 ^ 32 + unat x"
    by (simp only: uq ur flip: n_def d_def) simp
  show "r' < divisor" using d by (simp add: word_less_nat_alt ur flip: d_def)
  show "unat q < 2 ^ 32" using nd d by (simp add: uq less_mult_imp_div_less mult.commute)
qed

lemma unat_join_dwords:
  assumes "unat hi < 2 ^ 32" "unat lo < 2 ^ 32"
  shows "unat (push_bit 32 hi OR lo :: u64) = unat hi * 2 ^ 32 + unat lo"
proof -
  have "unat hi * 2 ^ 32 + unat lo < 2 ^ 64" using assms by simp
  then have "unat (lo + push_bit 32 hi) = unat hi * 2 ^ 32 + unat lo"
    by (simp only: unat_add_u64 unat_push_bit_u64 mod_add_right_eq add.commute [of "unat lo"] mod_less)
  then show ?thesis
    by (simp only: low_or_push_bit [OF assms(2)] or.commute [of "push_bit 32 hi"])
qed

text \<open>\<open>div128_32\<close> divides the 128-bit dividend exactly: quotient and remainder satisfy the
  Euclidean law, and the remainder is below the divisor.\<close>

lemma div128_32_euclid:
  assumes "div128_32 hi lo divisor = Some (r, qhi, qlo)"
  shows "(unat qhi * 2 ^ 64 + unat qlo) * unat divisor + unat r = unat hi * 2 ^ 64 + unat lo
    \<and> r < divisor"
proof -
  have nz: "divisor \<noteq> 0" using assms by (auto simp: div128_32_def)
  obtain q3 r3 where s3: "div_with_reminder (hi_dword hi) divisor 0 = (q3, r3)" by fastforce
  obtain q2 r2 where s2: "div_with_reminder (lo_dword hi) divisor r3 = (q2, r2)" by fastforce
  obtain q1 r1 where s1: "div_with_reminder (hi_dword lo) divisor r2 = (q1, r1)" by fastforce
  obtain q0 r0 where s0: "div_with_reminder (lo_dword lo) divisor r1 = (q0, r0)" by fastforce
  have small: "unat (hi_dword z) < 2 ^ 32" "unat (lo_dword z) < 2 ^ 32" for z
    using unat_u64_bound [of z] by (simp_all add: unat_hi_dword unat_lo_dword less_mult_imp_div_less)
  have "(0 :: u32) < divisor" using nz by (simp add: word_neq_0_conv)
  note d3 = div_with_reminder_correct [OF small(1) nz this s3]
  note d2 = div_with_reminder_correct [OF small(2) nz d3(2) s2]
  note d1 = div_with_reminder_correct [OF small(1) nz d2(2) s1]
  note d0 = div_with_reminder_correct [OF small(2) nz d1(2) s0]
  have parts: "unat z = unat (hi_dword z) * 2 ^ 32 + unat (lo_dword z)" for z
    by (simp only: unat_hi_dword unat_lo_dword div_mult_mod_eq)
  have res: "r = r0" "qhi = push_bit 32 q3 OR q2" "qlo = push_bit 32 q1 OR q0"
    using assms nz by (simp_all add: div128_32_def s3 s2 s1 s0)
  have "(unat qhi * 2 ^ 64 + unat qlo) * unat divisor + unat r
      = (unat q3 * unat divisor) * 2 ^ 96 + (unat q2 * unat divisor) * 2 ^ 64
        + (unat q1 * unat divisor) * 2 ^ 32 + (unat q0 * unat divisor + unat r0)"
    by (simp add: res unat_join_dwords [OF d3(3) d2(3)] unat_join_dwords [OF d1(3) d0(3)]
        algebra_simps)
  also have "\<dots> = unat hi * 2 ^ 64 + unat lo"
    using d3(1) d2(1) d1(1) d0(1) parts [of hi] parts [of lo] by simp
  finally show ?thesis using d0(2) res(1) by simp
qed

lemma unat_join_u128:
  "unat (push_bit 64 (ucast hi :: u128) OR ucast lo) = unat (hi :: u64) * 2 ^ 64 + unat (lo :: u64)"
proof -
  have lo: "unat (ucast lo :: u128) < 2 ^ 64"
    using unat_u64_bound [of lo] by (simp only: unat_ucast_u64_u128)
  have "Suc (unat hi) * 2 ^ 64 \<le> 2 ^ 64 * 2 ^ 64"
    using unat_u64_bound [of hi] by (intro mult_right_mono) auto
  then have sum: "unat hi * 2 ^ 64 + unat lo < 2 ^ 128" and hi: "unat hi * 2 ^ 64 < 2 ^ 128"
    using unat_u64_bound [of lo] by simp_all
  have push: "unat (push_bit 64 (ucast hi :: u128)) = unat hi * 2 ^ 64"
    using hi by (simp only: unsigned_push_bit_eq unat_ucast_u64_u128)
      (simp add: push_bit_eq_mult take_bit_nat_eq_self)
  have "unat (ucast lo + push_bit 64 (ucast hi :: u128)) = unat hi * 2 ^ 64 + unat lo"
    using sum by (simp only: unat_word_ariths push unat_ucast_u64_u128 add.commute [of "unat lo"]) simp
  then show ?thesis
    by (simp only: low_or_push_bit [OF lo] or.commute [of "push_bit 64 (ucast hi :: u128)"])
qed

lemma unat_u128_words:
  "unat (ucast (drop_bit 64 (q :: u128) AND 0xffffffffffffffff) :: u64) = unat q div 2 ^ 64"
  "unat (ucast (q AND 0xffffffffffffffff) :: u64) = unat q mod 2 ^ 64"
proof -
  have m: "(0xffffffffffffffff :: u128) = mask 64" by (simp add: mask_eq_exp_minus_1)
  have "unat q div 2 ^ 64 < 2 ^ 64"
    using unat_u128_bound [of q] by (simp add: less_mult_imp_div_less)
  then show "unat (ucast (drop_bit 64 q AND 0xffffffffffffffff) :: u64) = unat q div 2 ^ 64"
    by (simp only: m unat_ucast_u128_u64 unsigned_take_bit_eq unsigned_drop_bit_eq
        flip: take_bit_eq_mask) (simp add: take_bit_eq_mod drop_bit_eq_div unat_bounds)
  show "unat (ucast (q AND 0xffffffffffffffff) :: u64) = unat q mod 2 ^ 64"
    by (simp only: m unat_ucast_u128_u64 unsigned_take_bit_eq flip: take_bit_eq_mask)
      (simp only: take_bit_eq_mod mod_mod_trivial)
qed

text \<open>\<open>div128_64\<close> divides exactly: its two result pairs are the words of quotient and remainder.\<close>

lemma div128_64_quotient:
  assumes "div128_64 hi lo divisor = Some (qhi, qlo, rhi, rlo)"
  shows "unat qhi * 2 ^ 64 + unat qlo = (unat hi * 2 ^ 64 + unat lo) div unat divisor
    \<and> unat rhi * 2 ^ 64 + unat rlo = (unat hi * 2 ^ 64 + unat lo) mod unat divisor"
proof -
  define D where "D = push_bit 64 (ucast hi :: u128) OR ucast lo"
  have nz: "divisor \<noteq> 0" using assms by (auto simp: div128_64_def)
  have words: "qhi = ucast (drop_bit 64 (D div ucast divisor) AND 0xffffffffffffffff)"
    "qlo = ucast ((D div ucast divisor) AND 0xffffffffffffffff)"
    "rhi = ucast (drop_bit 64 (D mod ucast divisor) AND 0xffffffffffffffff)"
    "rlo = ucast ((D mod ucast divisor) AND 0xffffffffffffffff)"
    using assms nz by (simp_all only: div128_64_def Let_def D_def if_False option.inject prod.inject)
  have D: "unat D = unat hi * 2 ^ 64 + unat lo" by (simp only: D_def unat_join_u128)
  have q: "unat (D div ucast divisor) = (unat hi * 2 ^ 64 + unat lo) div unat divisor"
    by (simp only: unat_div_distrib D unat_ucast_u64_u128)
  have r: "unat (D mod ucast divisor) = (unat hi * 2 ^ 64 + unat lo) mod unat divisor"
    by (simp only: unat_mod_distrib D unat_ucast_u64_u128)
  show ?thesis
    by (simp only: words unat_u128_words(1) unat_u128_words(2) [of "D div ucast divisor"]
        unat_u128_words(2) [of "D mod ucast divisor"] div_mult_mod_eq q r)
qed

section \<open>Clamped arithmetic and byte swaps\<close>

lemma clamp_nat:
  "unat (add64clamp a b) = min (unat a + unat b) u64_max \<and> unat (sub64clamp a b) = unat a - unat b"
proof -
  have m: "unat (- 1 :: u64) = u64_max"
    by (simp add: unsigned_minus_1_eq_mask mask_eq_exp_minus_1)
  have "b \<le> - 1" using unat_u64_bound [of b] by (simp add: u64_le_iff m)
  then have "unat (- 1 - b :: u64) = u64_max - unat b" by (simp only: unat_sub_u64 m)
  then show ?thesis
    using unat_u64_bound [of a] unat_u64_bound [of b] m
    by (auto simp: add64clamp_def sub64clamp_def Let_def u64_less_iff unat_add_u64 unat_sub_u64
        u64_le_iff not_less min_def)
qed

lemma swap64_swap64: "swap64 (swap64 x) = x"
proof (rule bit_word_eqI)
  have "\<forall>k < 64. bit (swap64 (swap64 x)) k = bit x k"
    by (simp add: All_less_numeral swap64_def Let_def bit_simps)
  then show "\<And>k. k < LENGTH(64) \<Longrightarrow> bit (swap64 (swap64 x)) k = bit x k" by simp
qed

lemma SWAP64_bytes: "SWAP64 x = le_word (rev (le_split 8 x))"
proof (rule bit_word_eqI)
  have "[0..<8] = [0,1,2,3,4,5,6,7::nat]" by (simp add: upt_rec)
  then have "\<forall>k < 64. bit (SWAP64 x) k = bit (le_word (rev (le_split 8 x)) :: u64) k"
    by (simp add: All_less_numeral SWAP64_def bit_simps le_split_def)
  then show "\<And>k. k < LENGTH(64) \<Longrightarrow> bit (SWAP64 x) k = bit (le_word (rev (le_split 8 x)) :: u64) k"
    by simp
qed

lemma swap64_eq_SWAP64: "swap64 x = SWAP64 x"
proof (rule bit_word_eqI)
  have "\<forall>k < 64. bit (swap64 x) k = bit (SWAP64 x) k"
    by (simp add: All_less_numeral SWAP64_def swap64_def Let_def bit_simps)
  then show "\<And>k. k < LENGTH(64) \<Longrightarrow> bit (swap64 x) k = bit (SWAP64 x) k" by simp
qed

lemma swap32_eq_SWAP32: "swap32 x = SWAP32 x"
proof (rule bit_word_eqI)
  have "\<forall>k < 32. bit (swap32 x) k = bit (SWAP32 x) k"
    by (simp add: All_less_numeral SWAP32_def swap32_def Let_def bit_simps)
  then show "\<And>k. k < LENGTH(32) \<Longrightarrow> bit (swap32 x) k = bit (SWAP32 x) k" by simp
qed

lemma mem_inplace_swap64_map: "n \<le> length mem \<Longrightarrow> mem_inplace_swap64 mem n = map swap64 (take n mem) @ drop n mem"
  by (induction mem n rule: mem_inplace_swap64.induct) simp_all

lemma memcpy_swap64_map:
  "n \<le> length src \<Longrightarrow> n \<le> length dst \<Longrightarrow> memcpy_swap64 dst src n = map swap64 (take n src) @ drop n dst"
  unfolding memcpy_swap64_def
proof (induction n)
  case (Suc n)
  then show ?case
    by (simp add: take_Suc_conv_app_nth list_update_append flip: Cons_nth_drop_Suc)
qed simp

section \<open>Properties\<close>

text \<open>C33: \<open>mul128\<close> computes the exact 128-bit product of two 64-bit integers: its two result
  words, put together, are the mathematical product, for all inputs and every carry.\<close>

theorem mul128_correct:
  "unat (snd (mul128 x y)) * 2 ^ 64 + unat (fst (mul128 x y)) = unat x * unat y"
  by (rule mul128_product)

text \<open>C32: \<open>div128_32\<close>, four 64-bit divisions chained through the 32-bit remainder, fails exactly on
  a zero divisor and otherwise is the Euclidean division of the 128-bit dividend.\<close>

theorem div128_32_correct:
  "(div128_32 hi lo divisor = None \<longleftrightarrow> divisor = 0)
    \<and> (case div128_32 hi lo divisor of None \<Rightarrow> True
       | Some (r, qhi, qlo) \<Rightarrow>
           (unat qhi * 2 ^ 64 + unat qlo) * unat divisor + unat r = unat hi * 2 ^ 64 + unat lo
           \<and> r < divisor)"
proof -
  have "div128_32 hi lo divisor = None \<longleftrightarrow> divisor = 0"
    by (simp add: div128_32_def case_prod_beta Let_def)
  then show ?thesis using div128_32_euclid by (auto split: option.splits)
qed

text \<open>C31: multiplying and dividing back with the two 128-bit routines is the identity: for a non-zero
  divisor, \<open>div128_64\<close> of the words of \<open>mul128 x d\<close> is exactly \<open>x\<close> with remainder zero.\<close>

theorem mul128_div128_64:
  assumes "d \<noteq> 0"
  shows "div128_64 (snd (mul128 x d)) (fst (mul128 x d)) d = Some (0, x, 0, 0)"
proof -
  obtain qhi qlo rhi rlo where q: "div128_64 (snd (mul128 x d)) (fst (mul128 x d)) d = Some (qhi, qlo, rhi, rlo)"
    using assms by (simp add: div128_64_def Let_def)
  have "0 < unat d" using assms by (simp add: unat_gt_0)
  then have "unat qhi * 2 ^ 64 + unat qlo = unat x" "unat rhi * 2 ^ 64 + unat rlo = 0"
    using div128_64_quotient [OF q] by (simp_all only: mul128_product) simp_all
  moreover have "unat qhi = 0" using calculation(1) unat_u64_bound [of x] by simp
  ultimately show ?thesis using q by (simp add: u64_eq_iff)
qed

theorem mul128_div128_64_witness:
  "(10 :: u64) \<noteq> 0 \<and> div128_64 (snd (mul128 0xffffffffffffffff 10)) (fst (mul128 0xffffffffffffffff 10)) 10
    = Some (0, 0xffffffffffffffff, 0, 0)"
  using mul128_div128_64 [of 10 "0xffffffffffffffff"] by simp

end
