(* ===== verification/Varint.thy ===== *)
theory Varint
  imports Prelude Codec
begin

text \<open>
  Variable-length unsigned integers, \<open>src/common/varint.h\<close>: seven bits per byte, least
  significant group first, the top bit set on every byte but the last. The output iterator
  of \<open>write_varint\<close> is the byte string it appends; the input iterator pair of
  \<open>read_varint\<close> is the remaining input, and the function returns the \<open>int\<close> result, the
  final value of \<open>write\<close> and the input left. The unsigned type \<open>T\<close> is a word type.
\<close>

section \<open>Definitions\<close>

definition EVARINT_OVERFLOW :: int where "EVARINT_OVERFLOW = - 1"
definition EVARINT_REPRESENT :: int where "EVARINT_REPRESENT = - 2"

function write_varint :: "'a :: len word \<Rightarrow> bytes" where
  "write_varint i =
    (if unat i \<ge> 0x80
     then ((ucast i AND 0x7f) OR 0x80) # write_varint (drop_bit 7 i)
     else [ucast i])"
  by pat_completeness auto
termination
proof (relation "measure unat")
  fix i :: "'a word"
  assume big: "0x80 \<le> unat i"
  have "unat (drop_bit 7 i) = unat i div 2 ^ 7"
    by (metis drop_bit_eq_div unat_drop_bit_eq)
  with big show "(drop_bit 7 i, i) \<in> measure unat" by simp
qed simp

declare write_varint.simps [simp del]

definition get_varint_data :: "'a :: len word \<Rightarrow> bytes" where
  "get_varint_data v = write_varint v"

text \<open>One iteration of the loop per byte; \<open>read\<close>, \<open>shift\<close> and \<open>write\<close> are its locals.\<close>

fun read_varint_loop ::
    "nat \<Rightarrow> bytes \<Rightarrow> nat \<Rightarrow> nat \<Rightarrow> 'a :: len word \<Rightarrow> int \<times> 'a word \<times> bytes" where
  "read_varint_loop bits [] read shift write = (int read, write, [])"
| "read_varint_loop bits (byte # rest) read shift write =
    (if shift + 7 \<ge> bits \<and> unat byte \<ge> 2 ^ (bits - shift) then (EVARINT_OVERFLOW, write, rest)
     else if byte = 0 \<and> shift \<noteq> 0 then (EVARINT_REPRESENT, write, rest)
     else
       let write = write OR push_bit shift (ucast (byte AND 0x7f))
       in if byte AND 0x80 = 0 then (int (read + 1), write, rest)
          else read_varint_loop bits rest (read + 1) (shift + 7) write)"

definition read_varint :: "bytes \<Rightarrow> int \<times> 'a :: len word \<times> bytes" where
  "read_varint input = read_varint_loop LENGTH('a) input 0 0 0"

section \<open>Bytes of the encoding\<close>

lemma unat_drop_bit_7: "unat (drop_bit 7 (i :: 'a :: len word)) = unat i div 128"
  by (simp only: unat_drop_bit_eq) (simp add: drop_bit_eq_div)

text \<open>The continuation byte: payload in the low seven bits, the top bit set.\<close>

lemma bit_byte_0x7f: "bit (0x7f :: int) k \<longleftrightarrow> k < 7"
proof -
  have "(0x7f :: int) = mask 7" by (simp add: mask_eq_exp_minus_1)
  then show ?thesis by (simp only: bit_mask_iff) auto
qed

lemma bit_byte_0x80: "bit (0x80 :: int) k \<longleftrightarrow> k = 7"
proof -
  have "(0x80 :: int) = 2 ^ 7" by simp
  then show ?thesis by (simp only: bit_exp_iff) auto
qed

lemma continuation_payload:
  "((b AND 0x7f) OR 0x80) AND 0x7f = b AND (0x7f :: u8)"
  by (rule bit_word_eqI) (auto simp: bit_simps bit_byte_0x7f bit_byte_0x80)

lemma continuation_flag: "((b AND 0x7f) OR 0x80) AND 0x80 \<noteq> (0 :: u8)" "((b AND 0x7f) OR 0x80) \<noteq> (0 :: u8)"
proof -
  have "bit (((b AND 0x7f) OR 0x80) AND 0x80) 7" "bit ((b AND 0x7f) OR 0x80) 7"
    by (simp_all add: bit_simps bit_byte_0x80)
  then show "((b AND 0x7f) OR 0x80) AND 0x80 \<noteq> 0" "((b AND 0x7f) OR 0x80) \<noteq> 0"
    by (metis bit_0_eq bot_apply bot_bool_def)+
qed

lemma last_byte_flag: "unat (b :: u8) < 0x80 \<Longrightarrow> b AND 0x80 = 0 \<and> b AND 0x7f = b"
proof -
  assume "unat b < 0x80"
  then have "take_bit 7 b = b"
    by (simp only: word_unat_eq_iff unsigned_take_bit_eq) (simp add: take_bit_nat_eq_self)
  then have "bit b k \<Longrightarrow> k < 7" for k by (metis bit_take_bit_iff)
  then show ?thesis
    by (intro conjI bit_word_eqI) (auto simp: bit_simps bit_byte_0x7f bit_byte_0x80)
qed

text \<open>Reassembling a group of seven bits and what lies above it.\<close>

lemma group_join:
  fixes i :: "'a :: len word"
  assumes "8 \<le> LENGTH('a)"
  shows "push_bit s (ucast (ucast i AND (0x7f :: u8))) OR push_bit (s + 7) (drop_bit 7 i) = push_bit s i"
proof (rule bit_word_eqI)
  fix n assume n: "n < LENGTH('a)"
  show "bit (push_bit s (ucast (ucast i AND (0x7f :: u8))) OR push_bit (s + 7) (drop_bit 7 i)) n
    = bit (push_bit s i) n"
  proof (cases "s + 7 \<le> n")
    case True
    then have "7 + (n - (s + 7)) = n - s" by simp
    with n True assms show ?thesis by (auto simp: bit_simps bit_byte_0x7f)
  next
    case False
    with n assms show ?thesis by (auto simp: bit_simps bit_byte_0x7f)
  qed
qed

section \<open>Reading back what was written\<close>

lemma unat_ucast_byte: "unat (ucast i :: u8) = unat i" if "unat (i :: 'a :: len word) < 256"
  using that by (simp add: unsigned_ucast_eq take_bit_nat_eq_self)

lemma unat_byte_ucast:
  assumes "8 \<le> LENGTH('a)"
  shows "unat (ucast (b :: u8) :: 'a :: len word) = unat b"
proof -
  have "(2 :: nat) ^ 8 \<le> 2 ^ LENGTH('a)" using assms by (intro power_increasing) auto
  then have "unat b < 2 ^ LENGTH('a)" using unat_u8_bound [of b] by simp
  then show ?thesis by (simp add: unsigned_ucast_eq take_bit_nat_eq_self)
qed

lemma read_write_varint_loop:
  fixes i w :: "'a :: len word"
  assumes "8 \<le> LENGTH('a)" and "s < LENGTH('a)" and "unat i < 2 ^ (LENGTH('a) - s)"
    and "s \<noteq> 0 \<Longrightarrow> i \<noteq> 0"
  shows "read_varint_loop LENGTH('a) (write_varint i @ rest) r s w
    = (int (r + length (write_varint i)), w OR push_bit s i, rest)"
  using assms
proof (induction i arbitrary: r s w rule: write_varint.induct)
  case (1 i)
  show ?case
  proof (cases "unat i \<ge> 0x80")
    case True
    define b where "b = ((ucast i AND 0x7f) OR 0x80 :: u8)"
    have enc: "write_varint i = b # write_varint (drop_bit 7 i)"
      using True by (subst write_varint.simps) (simp add: b_def)
    have "(2 :: nat) ^ 7 < 2 ^ (LENGTH('a) - s)" using True "1.prems"(3) by simp
    then have "7 < LENGTH('a) - s" by (rule power_less_imp_less_exp [rotated]) simp
    then have room: "s + 7 < LENGTH('a)" by simp
    have "unat (drop_bit 7 i) < 2 ^ (LENGTH('a) - (s + 7))"
    proof -
      have "unat i < 2 ^ (LENGTH('a) - (s + 7)) * 128"
        using "1.prems"(3) room power_add [of "2 :: nat" "LENGTH('a) - (s + 7)" 7] by simp
      then show ?thesis by (simp add: unat_drop_bit_7 less_mult_imp_div_less)
    qed
    moreover have "drop_bit 7 i \<noteq> 0"
      using True by (simp add: unat_drop_bit_7 unat_eq_zero [symmetric] div_greater_zero_iff)
    ultimately have IH: "read_varint_loop LENGTH('a) (write_varint (drop_bit 7 i) @ rest) (r + 1) (s + 7) v
      = (int (r + 1 + length (write_varint (drop_bit 7 i))), v OR push_bit (s + 7) (drop_bit 7 i), rest)" for v
      using "1.IH" [OF True "1.prems"(1) room] by blast
    have "b AND 0x7f = ucast i AND 0x7f" "b AND 0x80 \<noteq> 0" "b \<noteq> 0"
      by (simp_all only: b_def continuation_payload continuation_flag not_False_eq_True)
    then show ?thesis using room IH group_join [OF "1.prems"(1), of s i]
      by (simp add: enc Let_def or.assoc)
  next
    case False
    then have byte: "unat (ucast i :: u8) = unat i" by (simp add: unat_ucast_byte)
    have enc: "write_varint i = [ucast i]" using False by (subst write_varint.simps) simp
    have "unat (ucast i :: u8) < 0x80" using byte False by simp
    note flag = last_byte_flag [OF this]
    have "ucast (ucast i :: u8) = i"
      by (simp only: word_unat_eq_iff byte unat_byte_ucast [OF "1.prems"(1)])
    then show ?thesis using flag "1.prems" byte
      by (auto simp: enc)
  qed
qed

lemma read_write_varint:
  assumes "8 \<le> LENGTH('a)"
  shows "read_varint (write_varint (i :: 'a :: len word) @ rest) = (int (length (write_varint i)), i, rest)"
  using read_write_varint_loop [OF assms, of 0 i rest 0 0] by (simp add: read_varint_def)

section \<open>Nothing but encodings is read in full\<close>

lemma read_varint_loop_count:
  "read_varint_loop bits xs r s w = (n, v, rest) \<Longrightarrow> n < 0 \<or> int r \<le> n"
proof (induction bits xs r s w rule: read_varint_loop.induct)
  case (2 bits byte tl r s w)
  then show ?case
    by (fastforce simp: EVARINT_OVERFLOW_def EVARINT_REPRESENT_def Let_def split: if_splits)
qed simp

lemma byte_flag_iff: "(b :: u8) AND 0x80 = 0 \<longleftrightarrow> unat b < 0x80"
proof
  assume *: "b AND 0x80 = 0"
  have "\<not> bit b 7"
  proof
    assume "bit b 7"
    then have "bit (b AND 0x80) 7" by (simp add: bit_simps bit_byte_0x80)
    with * show False by simp
  qed
  then have "take_bit 7 b = b"
    by (intro bit_word_eqI) (auto simp: bit_simps less_Suc_eq numeral_eq_Suc)
  then have "unat b = take_bit 7 (unat b)" by (metis unsigned_take_bit_eq)
  with take_bit_nat_less_exp [of 7 "unat b"] show "unat b < 0x80" by simp
qed (simp add: last_byte_flag)

text \<open>Putting a payload below a word that leaves room for it.\<close>

lemma group_push:
  fixes j :: "'a :: len word" and b :: u8
  assumes L: "8 \<le> LENGTH('a)" and room: "unat j < 2 ^ (LENGTH('a) - 7)"
  defines "i \<equiv> ucast (b AND 0x7f) OR push_bit 7 j"
  shows "drop_bit 7 i = j" and "ucast i AND (0x7f :: u8) = b AND 0x7f"
    and "unat i = unat (b AND 0x7f) + 128 * unat j"
proof -
  have "take_bit (LENGTH('a) - 7) j = j"
    using room by (simp only: word_unat_eq_iff unsigned_take_bit_eq) (simp add: take_bit_nat_eq_self)
  then have top: "bit j k \<Longrightarrow> k < LENGTH('a) - 7" for k by (metis bit_take_bit_iff)
  show drop: "drop_bit 7 i = j"
  proof (rule bit_word_eqI)
    fix k assume "k < LENGTH('a)"
    then show "bit (drop_bit 7 i) k = bit j k"
      using top [of k] by (auto simp: i_def bit_simps bit_byte_0x7f)
  qed
  show low: "ucast i AND (0x7f :: u8) = b AND 0x7f"
    using L by (intro bit_word_eqI) (auto simp: i_def bit_simps bit_byte_0x7f)
  have p: "2 ^ (LENGTH('a) - 7) * 128 = (2 :: nat) ^ LENGTH('a)"
    using L power_add [of "2 :: nat" "LENGTH('a) - 7" 7] by simp
  have "(b AND 0x7f) AND 0x80 = 0"
    by (rule bit_word_eqI) (auto simp: bit_simps bit_byte_0x7f bit_byte_0x80)
  then have b: "unat (b AND 0x7f) < 128" by (simp add: byte_flag_iff)
  have "Suc (unat j) * 128 \<le> 2 ^ (LENGTH('a) - 7) * 128" using room by (intro mult_right_mono) auto
  with b p have sum: "unat (b AND 0x7f) + 128 * unat j < 2 ^ LENGTH('a)" by simp
  then have push: "unat (push_bit 7 j) = 128 * unat j"
    by (simp only: unsigned_push_bit_eq) (simp add: push_bit_eq_mult take_bit_nat_eq_self mult.commute)
  have "unat (ucast (b AND 0x7f) :: 'a word) < 2 ^ 7" using b by (simp only: unat_byte_ucast [OF L]) simp
  then show "unat i = unat (b AND 0x7f) + 128 * unat j"
    by (simp only: i_def low_or_push_bit unat_word_ariths push unat_byte_ucast [OF L] mod_less sum)
qed

lemma payload_bound: "unat (b AND 0x7f :: u8) < 128"
  using byte_flag_iff [of "b AND 0x7f"] by (simp add: and.assoc)

lemma continuation_byte:
  assumes "b AND 0x80 \<noteq> (0 :: u8)"
  shows "(b AND 0x7f) OR 0x80 = b"
proof (rule bit_word_eqI)
  fix k assume "k < LENGTH(8)"
  then have "k < 7 \<or> k = 7" by auto
  moreover have "bit b 7"
  proof (rule ccontr)
    assume "\<not> bit b 7"
    then have "b AND 0x80 = 0" by (intro bit_word_eqI) (auto simp: bit_simps bit_byte_0x80)
    with assms show False by simp
  qed
  ultimately show "bit ((b AND 0x7f) OR 0x80) k = bit b k"
    by (auto simp: bit_simps bit_byte_0x7f bit_byte_0x80)
qed

lemma write_varint_group:
  fixes j :: "'a :: len word"
  assumes "8 \<le> LENGTH('a)" and "unat j < 2 ^ (LENGTH('a) - 7)" and "j \<noteq> 0" and "b AND 0x80 \<noteq> 0"
  shows "write_varint (ucast (b AND 0x7f) OR push_bit 7 j) = b # write_varint j"
proof -
  have "0 < unat j" using assms(3) by (simp add: unat_gt_0)
  then show ?thesis
    using group_push [OF assms(1,2), of b] continuation_byte [OF assms(4)]
    by (subst write_varint.simps) simp
qed

lemma read_varint_loop_canonical:
  fixes w v :: "'a :: len word"
  assumes "8 \<le> LENGTH('a)" and "s < LENGTH('a)"
    and "read_varint_loop LENGTH('a) xs r s w = (n, v, rest)"
    and "int r < n" and "last (take (nat n - r) xs) AND 0x80 = 0"
  shows "\<exists>i. xs = write_varint i @ rest \<and> v = w OR push_bit s i
    \<and> unat i < 2 ^ (LENGTH('a) - s) \<and> (s \<noteq> 0 \<longrightarrow> i \<noteq> 0)"
  using assms
proof (induction "LENGTH('a)" xs r s w rule: read_varint_loop.induct)
  case (1 r s w)
  then show ?case by simp
next
  case (2 byte tl r s w)
  define w' where "w' = w OR push_bit s (ucast (byte AND 0x7f))"
  have ok: "\<not> (s + 7 \<ge> LENGTH('a) \<and> unat byte \<ge> 2 ^ (LENGTH('a) - s))" "\<not> (byte = 0 \<and> s \<noteq> 0)"
    using "2.prems"(3,4) by (auto simp: EVARINT_OVERFLOW_def EVARINT_REPRESENT_def split: if_splits)
  show ?case
  proof (cases "byte AND 0x80 = 0")
    case True
    then have small: "unat byte < 0x80" by (simp only: byte_flag_iff)
    have res: "v = w'" "rest = tl" using "2.prems"(3) ok True by (auto simp: w'_def)
    define i where "i = (ucast byte :: 'a word)"
    have ui: "unat i = unat byte" by (simp only: i_def unat_byte_ucast [OF "2.prems"(1)])
    have "ucast i = byte" using ui small by (simp add: word_unat_eq_iff unat_ucast_byte)
    then have "write_varint i = [byte]" using ui small by (subst write_varint.simps) simp
    moreover have "unat i < 2 ^ (LENGTH('a) - s)"
    proof (cases "s + 7 \<ge> LENGTH('a)")
      case False
      then have "(2 :: nat) ^ 7 \<le> 2 ^ (LENGTH('a) - s)" by (intro power_increasing) auto
      with small ui show ?thesis by simp
    qed (use ok ui in auto)
    moreover have "s \<noteq> 0 \<Longrightarrow> i \<noteq> 0" using ok ui by (metis unat_0 unsigned_0 word_unat_eq_iff)
    ultimately show ?thesis using res last_byte_flag [OF small]
      by (intro exI [of _ i]) (auto simp: i_def w'_def)
  next
    case False
    then have big: "unat byte \<ge> 0x80" by (simp add: byte_flag_iff)
    have room: "s + 7 < LENGTH('a)"
    proof (rule ccontr)
      assume "\<not> s + 7 < LENGTH('a)"
      then have "(2 :: nat) ^ (LENGTH('a) - s) \<le> 2 ^ 7" by (intro power_increasing) auto
      with ok big \<open>\<not> s + 7 < LENGTH('a)\<close> show False by simp
    qed
    have step: "read_varint_loop LENGTH('a) tl (r + 1) (s + 7) w' = (n, v, rest)"
      using "2.prems"(3) ok False by (simp add: w'_def Let_def split: if_splits)
    have "int (r + 1) \<noteq> n"
    proof
      assume "int (r + 1) = n"
      then have "nat n - r = 1" by simp
      then have "last (take (nat n - r) (byte # tl)) = byte" by simp
      with "2.prems"(5) False show False by simp
    qed
    with read_varint_loop_count [OF step] "2.prems"(4) have n: "int (r + 1) < n" by auto
    then have "nat n - r = Suc (nat n - (r + 1))" "0 < nat n - (r + 1)" by auto
    moreover have "tl \<noteq> []" using step n by auto
    ultimately have "last (take (nat n - (r + 1)) tl) AND 0x80 = 0"
      using "2.prems"(5) by (auto split: if_splits)
    then obtain j where j: "tl = write_varint j @ rest" "v = w' OR push_bit (s + 7) j"
      "unat j < 2 ^ (LENGTH('a) - (s + 7))" "j \<noteq> 0"
      using "2.hyps" [OF ok w'_def False "2.prems"(1) room step n] by auto
    define i where "i = ucast (byte AND 0x7f) OR push_bit 7 j"
    have "(2 :: nat) ^ (LENGTH('a) - (s + 7)) \<le> 2 ^ (LENGTH('a) - 7)" by (intro power_increasing) auto
    with j(3) have jr: "unat j < 2 ^ (LENGTH('a) - 7)" by linarith
    note g = group_push(3) [OF "2.prems"(1) jr, of byte, folded i_def]
    have "Suc (unat j) * 128 \<le> 2 ^ (LENGTH('a) - (s + 7)) * 128" using j(3) by (intro mult_right_mono) auto
    also have "\<dots> = 2 ^ (LENGTH('a) - s)"
      using room power_add [of "2 :: nat" "LENGTH('a) - (s + 7)" 7] by simp
    finally have "unat i < 2 ^ (LENGTH('a) - s)" using payload_bound [of byte] by (simp add: g)
    moreover have "v = w OR push_bit s i"
      using j(2) by (simp add: w'_def i_def push_bit_or push_bit_push_bit or.assoc add.commute)
    moreover have "i \<noteq> 0" using g j(4) by (auto simp: unat_gt_0 unat_eq_zero)
    ultimately show ?thesis
      using j(1) write_varint_group [OF "2.prems"(1) jr j(4) False, folded i_def] by (intro exI [of _ i]) simp
  qed
qed

lemma read_varint_reencode:
  assumes "8 \<le> LENGTH('a)" and "read_varint xs = (n, v :: 'a :: len word, rest)" and "0 < n"
    and "last (take (nat n) xs) AND 0x80 = 0"
  shows "xs = write_varint v @ rest"
proof -
  have loop: "read_varint_loop LENGTH('a) xs 0 0 0 = (n, v, rest)"
    using assms(2) by (simp only: read_varint_def)
  have "0 < LENGTH('a)" "int 0 < n" "last (take (nat n - 0) xs) AND 0x80 = 0"
    using assms(3,4) by simp_all
  from read_varint_loop_canonical [OF assms(1) this(1) loop this(2,3)]
  obtain i where "xs = write_varint i @ rest" "v = 0 OR push_bit 0 i" by blast
  then show ?thesis by simp
qed

text \<open>What is left of the input; when that is not empty, the varint was ended by its last byte.\<close>

lemma read_varint_loop_rest:
  "read_varint_loop bits xs r s w = (n, v, rest) \<Longrightarrow> 0 \<le> n \<Longrightarrow>
    rest = drop (nat n - r) xs \<and> (rest \<noteq> [] \<longrightarrow> r < nat n \<and> last (take (nat n - r) xs) AND 0x80 = 0)"
proof (induction bits xs r s w rule: read_varint_loop.induct)
  case (2 bits byte tl r s w)
  define w' where "w' = w OR push_bit s (ucast (byte AND 0x7f))"
  have ok: "\<not> (s + 7 \<ge> bits \<and> unat byte \<ge> 2 ^ (bits - s))" "\<not> (byte = 0 \<and> s \<noteq> 0)"
    using "2.prems" by (auto simp: EVARINT_OVERFLOW_def EVARINT_REPRESENT_def split: if_splits)
  show ?case
  proof (cases "byte AND 0x80 = 0")
    case True
    moreover have "nat (1 + int r) - r = Suc 0" by simp
    ultimately show ?thesis using "2.prems" ok by (auto simp: Let_def)
  next
    case False
    then have step: "read_varint_loop bits tl (r + 1) (s + 7) w' = (n, v, rest)"
      using "2.prems" ok by (simp add: w'_def Let_def split: if_splits)
    then have "int (r + 1) \<le> n" using read_varint_loop_count [OF step] "2.prems"(2) by simp
    then have "nat n - r = Suc (nat n - (r + 1))" by simp
    with "2.IH" [OF ok w'_def False step "2.prems"(2)] show ?thesis
      by (auto simp: take_Suc_Cons split: if_splits)
  qed
qed simp

lemma read_varint_rest:
  assumes "read_varint xs = (n, v :: 'a :: len word, rest)" "0 \<le> n"
  shows "rest = drop (nat n) xs" and "rest \<noteq> [] \<Longrightarrow> 0 < n \<and> last (take (nat n) xs) AND 0x80 = 0"
  using read_varint_loop_rest [OF assms(1) [unfolded read_varint_def] assms(2)] by auto

text \<open>A \<open>uint64_t\<close> takes at most ten bytes.\<close>

lemma length_write_varint: "unat i < 2 ^ (7 * n) \<Longrightarrow> 0 < n \<Longrightarrow> length (write_varint i) \<le> n"
proof (induction i arbitrary: n rule: write_varint.induct)
  case (1 i)
  show ?case
  proof (cases "unat i \<ge> 0x80")
    case True
    then have "n \<noteq> 1" using "1.prems"(1) by auto
    define m where "m = n - 1"
    have m: "n = Suc m" "0 < m" using \<open>n \<noteq> 1\<close> "1.prems"(2) by (simp_all add: m_def)
    have "7 * n = 7 * m + 7" using m(1) by simp
    then have "unat i < 2 ^ (7 * m) * 128"
      using "1.prems"(1) power_add [of "2 :: nat" "7 * m" 7] by simp
    then have "unat (drop_bit 7 i) < 2 ^ (7 * m)" by (simp add: unat_drop_bit_7 less_mult_imp_div_less)
    from "1.IH" [OF True this m(2)] True m(1) show ?thesis by (subst write_varint.simps) simp
  next
    case False
    with "1.prems" show ?thesis by (subst write_varint.simps) simp
  qed
qed

section \<open>The codec contract\<close>

text \<open>
  The callers of \<open>read_varint\<close> take a result above zero as success. With that reading a
  64-bit or 32-bit varint is a stream codec: encodings are self-delimiting.
\<close>

definition varint_dec :: "bytes \<Rightarrow> ('a :: len word \<times> bytes) option" where
  "varint_dec bs = (case read_varint bs of (n, v, rest) \<Rightarrow> if n \<le> 0 then None else Some (v, rest))"

lemma length_write_varint_pos: "0 < length (write_varint i)"
  by (subst write_varint.simps) simp

lemma varint_dec_write:
  "8 \<le> LENGTH('a) \<Longrightarrow> varint_dec (write_varint (i :: 'a :: len word) @ rest) = Some (i, rest)"
  using length_write_varint_pos [of i] by (simp add: varint_dec_def read_write_varint)

interpretation varint64: stream_codec "write_varint :: u64 \<Rightarrow> bytes" varint_dec "\<lambda>_. True"
  by unfold_locales (simp add: varint_dec_write)

interpretation varint32: stream_codec "write_varint :: u32 \<Rightarrow> bytes" varint_dec "\<lambda>_. True"
  by unfold_locales (simp add: varint_dec_write)

section \<open>Properties\<close>

text \<open>C18: a varint reads back: for every unsigned type of at least eight bits, \<open>read_varint\<close> on the
  bytes \<open>write_varint\<close> wrote, with anything behind them, returns their number and the value
  and stops at the first byte behind them.\<close>

theorem varint_roundtrip:
  assumes "8 \<le> LENGTH('a)"
  shows "read_varint (write_varint (i :: 'a :: len word) @ rest) = (int (length (write_varint i)), i, rest)"
  using assms by (rule read_write_varint)

theorem varint_roundtrip_witness:
  "8 \<le> LENGTH(64) \<and> read_varint (write_varint (300 :: u64) @ [7]) = (int (length (write_varint (300 :: u64))), 300 :: u64, [7])"
  using varint_roundtrip [where 'a = 64, of 300 "[7]"] by simp

text \<open>C21: the encoding is canonical: whatever \<open>read_varint\<close> accepts, and that ends in a byte without the
  continuation bit, is byte for byte what \<open>write_varint\<close> writes for the value read. So no two
  byte strings denote the same integer, over-long forms and overflowing last bytes included.\<close>

theorem varint_canonical:
  assumes "8 \<le> LENGTH('a)" and "read_varint xs = (n, v :: 'a :: len word, rest)" and "0 < n"
    and "last (take (nat n) xs) AND 0x80 = 0"
  shows "xs = write_varint v @ rest"
  using assms by (rule read_varint_reencode)

theorem varint_canonical_witness:
  "read_varint [0xac, 2, 9] = (2, 300 :: u64, [9]) \<and> [0xac, 2, 9] = write_varint (300 :: u64) @ [9]"
proof -
  have read: "read_varint [0xac, 2, 9] = (2, 300 :: u64, [9])" by code_simp
  then show ?thesis using varint_canonical [OF _ read] by simp
qed

end
