(* ===== verification/Keccak.thy ===== *)
theory Keccak
  imports Prelude
begin

text \<open>
  The hash function of the system: the Keccak permutation, the one-shot sponge and the
  streaming context of \<open>src/crypto/keccak.c\<close>, \<open>cn_fast_hash\<close> of \<open>src/crypto/hash.c\<close> and
  the keyed hash of \<open>src/crypto/hmac-keccak.c\<close>. The state is the list of its 25 words;
  an in-place assignment \<open>st[i] = e\<close> is a list update; \<open>local_abort\<close> is \<open>None\<close>.
\<close>

section \<open>The permutation\<close>

definition keccakf_rndc :: "u64 list" where
  "keccakf_rndc =
    [0x0000000000000001, 0x0000000000008082, 0x800000000000808a,
     0x8000000080008000, 0x000000000000808b, 0x0000000080000001,
     0x8000000080008081, 0x8000000000008009, 0x000000000000008a,
     0x0000000000000088, 0x0000000080008009, 0x000000008000000a,
     0x000000008000808b, 0x800000000000008b, 0x8000000000008089,
     0x8000000000008003, 0x8000000000008002, 0x8000000000000080,
     0x000000000000800a, 0x800000008000000a, 0x8000000080008081,
     0x8000000000008080, 0x0000000080000001, 0x8000000080008008]"

definition KECCAK_ROUNDS :: nat where "KECCAK_ROUNDS = 24"

definition ROTL64 :: "u64 \<Rightarrow> nat \<Rightarrow> u64" where
  "ROTL64 x y = push_bit y x OR drop_bit (64 - y) x"

definition xor_at :: "u64 list \<Rightarrow> nat \<Rightarrow> u64 \<Rightarrow> u64 list" where
  "xor_at st i v = st[i := st ! i XOR v]"

definition theta_bc :: "u64 list \<Rightarrow> u64 list" where
  "theta_bc st =
    [st ! 0 XOR st ! 5 XOR st ! 10 XOR st ! 15 XOR st ! 20,
     st ! 1 XOR st ! 6 XOR st ! 11 XOR st ! 16 XOR st ! 21,
     st ! 2 XOR st ! 7 XOR st ! 12 XOR st ! 17 XOR st ! 22,
     st ! 3 XOR st ! 8 XOR st ! 13 XOR st ! 18 XOR st ! 23,
     st ! 4 XOR st ! 9 XOR st ! 14 XOR st ! 19 XOR st ! 24]"

definition THETA :: "u64 list \<Rightarrow> nat \<Rightarrow> u64 list \<Rightarrow> u64 list" where
  "THETA bc i st =
    (let t = bc ! ((i + 4) mod 5) XOR ROTL64 (bc ! ((i + 1) mod 5)) 1
     in xor_at (xor_at (xor_at (xor_at (xor_at st i t) (i + 5) t) (i + 10) t) (i + 15) t) (i + 20) t)"

text \<open>The assignments of the rho and pi steps, in order: target, source, rotation.\<close>

definition rho_pi_moves :: "(nat \<times> nat \<times> nat) list" where
  "rho_pi_moves =
    [(1, 6, 44), (6, 9, 20), (9, 22, 61), (22, 14, 39), (14, 20, 18), (20, 2, 62),
     (2, 12, 43), (12, 13, 25), (13, 19, 8), (19, 23, 56), (23, 15, 41), (15, 4, 27),
     (4, 24, 14), (24, 21, 2), (21, 8, 55), (8, 16, 45), (16, 5, 36), (5, 3, 28),
     (3, 18, 21), (18, 17, 15), (17, 11, 10), (11, 7, 6), (7, 10, 3)]"

definition rho_pi :: "u64 list \<Rightarrow> u64 list" where
  "rho_pi st =
    (let t = st ! 1;
         st = fold (\<lambda>(dst, src, r) s. s[dst := ROTL64 (s ! src) r]) rho_pi_moves st
     in st[10 := ROTL64 t 1])"

definition CHI :: "nat \<Rightarrow> u64 list \<Rightarrow> u64 list" where
  "CHI j st =
    (let st0 = st ! j; st1 = st ! (j + 1); st2 = st ! (j + 2);
         st3 = st ! (j + 3); st4 = st ! (j + 4);
         st = xor_at st j (NOT st1 AND st2);
         st = xor_at st (j + 1) (NOT st2 AND st3);
         st = xor_at st (j + 2) (NOT st3 AND st4);
         st = xor_at st (j + 3) (NOT st4 AND st0)
     in xor_at st (j + 4) (NOT st0 AND st1))"

definition keccakf_round :: "nat \<Rightarrow> u64 list \<Rightarrow> u64 list" where
  "keccakf_round rnd st =
    (let bc = theta_bc st;
         st = fold (THETA bc) [0, 1, 2, 3, 4] st;
         st = rho_pi st;
         st = fold CHI [0, 5, 10, 15, 20] st
     in xor_at st 0 (keccakf_rndc ! rnd))"

definition keccakf :: "u64 list \<Rightarrow> nat \<Rightarrow> u64 list" where
  "keccakf st rounds = fold keccakf_round [0..<rounds] st"

section \<open>The one-shot sponge\<close>

definition HASH_SIZE :: nat where "HASH_SIZE = 32"
definition HASH_DATA_AREA :: nat where "HASH_DATA_AREA = 136"

text \<open>\<open>st[i] ^= swap64le(block[i])\<close> for the first \<open>n\<close> words of a byte block.\<close>

definition xor_block :: "nat \<Rightarrow> bytes \<Rightarrow> u64 list \<Rightarrow> u64 list" where
  "xor_block n block st =
    fold (\<lambda>i s. xor_at s i (le_word (take 8 (drop (i * 8) block)))) [0..<n] st"

text \<open>The absorption loop; with \<open>rsiz = 0\<close> the C loop does not advance, so it never returns.\<close>

function keccak_absorb :: "nat \<Rightarrow> bytes \<Rightarrow> u64 list \<Rightarrow> (bytes \<times> u64 list) option" where
  "keccak_absorb rsiz inp st =
    (if rsiz = 0 then None
     else if length inp \<ge> rsiz
     then keccak_absorb rsiz (drop rsiz inp) (keccakf (xor_block (rsiz div 8) inp st) KECCAK_ROUNDS)
     else Some (inp, st))"
  by pat_completeness auto
termination
  by (relation "measure (\<lambda>(rsiz, inp, st). length inp)") auto

declare keccak_absorb.simps [simp del]

text \<open>The last block: the rest of the input, a one, zeros up to the rate, the top bit of the last byte.\<close>

definition keccak_pad :: "nat \<Rightarrow> bytes \<Rightarrow> bytes" where
  "keccak_pad rsiz inp =
    (let temp = inp @ [1] @ replicate (rsiz - (length inp + 1)) 0
     in temp[rsiz - 1 := temp ! (rsiz - 1) OR 0x80])"

definition keccak :: "bytes \<Rightarrow> nat \<Rightarrow> bytes option" where
  "keccak inp mdlen =
    (if mdlen = 0 \<or> (mdlen > 100 \<and> mdlen \<noteq> 200) then None
     else
       let rsiz = (if mdlen = 200 then HASH_DATA_AREA else 200 - 2 * mdlen);
           rsizw = rsiz div 8
       in case keccak_absorb rsiz inp (replicate 25 0) of
            None \<Rightarrow> None
          | Some (inp, st) \<Rightarrow>
              if length inp + 1 \<ge> 144 \<or> length inp > rsiz \<or> rsiz - length inp + length inp + 1 \<ge> 144
                \<or> rsiz = 0 \<or> rsiz - 1 \<ge> 144 \<or> rsizw * 8 > 144
              then None
              else
                let st = keccakf (xor_block rsizw (keccak_pad rsiz inp) st) KECCAK_ROUNDS
                in if mdlen mod 8 \<noteq> 0 then None
                   else Some (concat (map (le_split 8) (take (mdlen div 8) st))))"

definition keccak1600 :: "bytes \<Rightarrow> bytes option" where
  "keccak1600 inp = keccak inp 200"

text \<open>\<open>hash_state\<close> is a union of the bytes and the words of the state.\<close>

definition hash_permutation :: "u64 list \<Rightarrow> u64 list" where
  "hash_permutation state = keccakf state 24"

definition hash_process :: "bytes \<Rightarrow> bytes option" where
  "hash_process buf = keccak1600 buf"

definition cn_fast_hash :: "bytes \<Rightarrow> hash" where
  "cn_fast_hash data = take HASH_SIZE (the (hash_process data))"

section \<open>The streaming context\<close>

definition KECCAK_FINALIZED :: nat where "KECCAK_FINALIZED = 0x80000000"
definition KECCAK_BLOCKLEN :: nat where "KECCAK_BLOCKLEN = 136"
definition KECCAK_WORDS :: nat where "KECCAK_WORDS = 17"
definition KECCAK_DIGESTSIZE :: nat where "KECCAK_DIGESTSIZE = 32"

record keccak_ctx =
  ctx_hash :: "u64 list"
  ctx_message :: bytes
  ctx_rest :: nat

definition KECCAK_PROCESS_BLOCK :: "u64 list \<Rightarrow> bytes \<Rightarrow> u64 list" where
  "KECCAK_PROCESS_BLOCK st block = keccakf (xor_block KECCAK_WORDS block st) KECCAK_ROUNDS"

definition keccak_init :: keccak_ctx where
  "keccak_init = \<lparr>ctx_hash = replicate 25 0, ctx_message = replicate 136 0, ctx_rest = 0\<rparr>"

text \<open>The loop over whole blocks; an unaligned input goes through \<open>ctx->message\<close>.\<close>

function keccak_update_blocks :: "bool \<Rightarrow> bytes \<Rightarrow> keccak_ctx \<Rightarrow> bytes \<times> keccak_ctx" where
  "keccak_update_blocks is_aligned inp ctx =
    (if length inp \<ge> KECCAK_BLOCKLEN
     then
       let ctx = (if is_aligned then ctx
                  else ctx\<lparr>ctx_message := memcpy_at (ctx_message ctx) 0 (take KECCAK_BLOCKLEN inp)\<rparr>);
           block = (if is_aligned then inp else ctx_message ctx)
       in keccak_update_blocks is_aligned (drop KECCAK_BLOCKLEN inp)
            (ctx\<lparr>ctx_hash := KECCAK_PROCESS_BLOCK (ctx_hash ctx) block\<rparr>)
     else (inp, ctx))"
  by pat_completeness auto
termination
  by (relation "measure (\<lambda>(is_aligned, inp, ctx). length inp)") (auto simp: KECCAK_BLOCKLEN_def)

declare keccak_update_blocks.simps [simp del]

text \<open>
  \<open>is_aligned\<close> is the alignment of the input pointer after the partial block, which the C
  code reads off the address.
\<close>

definition keccak_update :: "bool \<Rightarrow> bytes \<Rightarrow> keccak_ctx \<Rightarrow> keccak_ctx option" where
  "keccak_update is_aligned inp ctx =
    (if ctx_rest ctx AND KECCAK_FINALIZED \<noteq> 0 then None
     else
       let idx = ctx_rest ctx;
           ctx = ctx\<lparr>ctx_rest := (ctx_rest ctx + length inp) mod KECCAK_BLOCKLEN\<rparr>;
           left = KECCAK_BLOCKLEN - idx;
           partial = (if idx \<noteq> 0
                      then ctx\<lparr>ctx_message := memcpy_at (ctx_message ctx) idx (take left inp)\<rparr>
                      else ctx)
       in if idx \<noteq> 0 \<and> length inp < left then Some partial
          else
            let (inp, ctx) =
                  (if idx \<noteq> 0
                   then (drop left inp,
                         partial\<lparr>ctx_hash := KECCAK_PROCESS_BLOCK (ctx_hash partial) (ctx_message partial)\<rparr>)
                   else (inp, ctx));
                (inp, ctx) = keccak_update_blocks is_aligned inp ctx
            in Some (if inp \<noteq> [] then ctx\<lparr>ctx_message := memcpy_at (ctx_message ctx) 0 inp\<rparr> else ctx))"

definition keccak_finish :: "keccak_ctx \<Rightarrow> keccak_ctx \<times> bytes" where
  "keccak_finish ctx =
    (let ctx =
       (if ctx_rest ctx AND KECCAK_FINALIZED = 0
        then
          let r = ctx_rest ctx;
              m = memcpy_at (ctx_message ctx) r (replicate (KECCAK_BLOCKLEN - r) 0);
              m = m[r := m ! r OR 0x01];
              m = m[KECCAK_BLOCKLEN - 1 := m ! (KECCAK_BLOCKLEN - 1) OR 0x80]
          in ctx\<lparr>ctx_message := m, ctx_hash := KECCAK_PROCESS_BLOCK (ctx_hash ctx) m,
                 ctx_rest := KECCAK_FINALIZED\<rparr>
        else ctx)
     in (ctx, concat (map (le_split 8) (take (KECCAK_DIGESTSIZE div 8) (ctx_hash ctx)))))"

section \<open>Keyed hashing\<close>

record hmac_keccak_state =
  hmac_inner :: keccak_ctx
  hmac_outer :: keccak_ctx

text \<open>\<open>memset(pad, c, KECCAK_BLOCKLEN); for (i < keylen) pad[i] ^= key[i]\<close>.\<close>

definition hmac_pad :: "u8 \<Rightarrow> bytes \<Rightarrow> bytes" where
  "hmac_pad c key = fold (\<lambda>i pad. pad[i := pad ! i XOR key ! i]) [0..<length key] (replicate KECCAK_BLOCKLEN c)"

text \<open>The alignment of the stack buffers is left open (\<open>al\<close>).\<close>

definition hmac_keccak_init :: "bool \<Rightarrow> bytes \<Rightarrow> hmac_keccak_state option" where
  "hmac_keccak_init al key =
    (case (if length key > KECCAK_BLOCKLEN then keccak key HASH_SIZE else Some key) of
       None \<Rightarrow> None
     | Some key \<Rightarrow>
         (case keccak_update al (hmac_pad 0x36 key) keccak_init of
            None \<Rightarrow> None
          | Some inner \<Rightarrow>
              (case keccak_update al (hmac_pad 0x5c key) keccak_init of
                 None \<Rightarrow> None
               | Some outer \<Rightarrow> Some \<lparr>hmac_inner = inner, hmac_outer = outer\<rparr>)))"

definition hmac_keccak_update :: "bool \<Rightarrow> bytes \<Rightarrow> hmac_keccak_state \<Rightarrow> hmac_keccak_state option" where
  "hmac_keccak_update al data S =
    map_option (\<lambda>inner. S\<lparr>hmac_inner := inner\<rparr>) (keccak_update al data (hmac_inner S))"

definition hmac_keccak_finish :: "bool \<Rightarrow> hmac_keccak_state \<Rightarrow> (hmac_keccak_state \<times> bytes) option" where
  "hmac_keccak_finish al S =
    (let (inner, ihash) = keccak_finish (hmac_inner S)
     in case keccak_update al ihash (hmac_outer S) of
          None \<Rightarrow> None
        | Some outer \<Rightarrow>
            let (outer, digest) = keccak_finish outer
            in Some (S\<lparr>hmac_inner := inner, hmac_outer := outer\<rparr>, digest))"

definition hmac_keccak_hash :: "bool \<Rightarrow> bytes \<Rightarrow> bytes \<Rightarrow> bytes option" where
  "hmac_keccak_hash al key inp =
    Option.bind (hmac_keccak_init al key) (\<lambda>S.
      Option.bind (hmac_keccak_update al inp S) (\<lambda>S.
        map_option snd (hmac_keccak_finish al S)))"

section \<open>Lengths\<close>

lemma length_xor_at [simp]: "length (xor_at st i v) = length st"
  by (simp add: xor_at_def)

lemma length_fold_update:
  assumes "\<And>x s. length (f x s) = length s"
  shows "length (fold f xs s) = length s"
  by (induction xs arbitrary: s) (simp_all add: assms)

lemma length_round_steps:
  "length (THETA bc k st) = length st" "length (rho_pi st) = length st" "length (CHI k st) = length st"
  by (simp_all add: THETA_def Let_def CHI_def rho_pi_def length_fold_update case_prod_beta)

lemma length_keccakf [simp]: "length (keccakf st n) = length st"
proof -
  have "length (keccakf_round r s) = length s" for r s
    by (simp only: keccakf_round_def Let_def length_xor_at length_fold_update length_round_steps)
  then show ?thesis by (simp add: keccakf_def length_fold_update)
qed

lemma length_xor_block [simp]: "length (xor_block n b st) = length st"
  by (simp add: xor_block_def length_fold_update)

lemma length_process_block [simp]: "length (KECCAK_PROCESS_BLOCK st b) = length st"
  by (simp add: KECCAK_PROCESS_BLOCK_def)

lemma length_words: "length (concat (map (le_split 8) ws)) = 8 * length ws"
  by (induction ws) simp_all

section \<open>The sponge\<close>

lemma xor_block_take: "xor_block n (take (8 * n) b) st = xor_block n b st"
proof -
  have "take 8 (drop (i * 8) (take (8 * n) b)) = take 8 (drop (i * 8) b)" if "i < n" for i
  proof -
    have "8 \<le> 8 * n - i * 8" using that by simp
    then show ?thesis by (simp add: drop_take min_absorb1)
  qed
  then show ?thesis unfolding xor_block_def by (intro fold_cong) auto
qed

lemma absorb_block:
  assumes "length b \<ge> 136"
  shows "keccak_absorb 136 b st = keccak_absorb 136 (drop 136 b) (KECCAK_PROCESS_BLOCK st (take 136 b))"
  using assms xor_block_take [of 17 b st]
  by (subst keccak_absorb.simps) (simp add: KECCAK_PROCESS_BLOCK_def KECCAK_WORDS_def)

lemma absorb_short: "length b < 136 \<Longrightarrow> keccak_absorb 136 b st = Some (b, st)"
  by (subst keccak_absorb.simps) simp

lemma absorb_total:
  "\<exists>r st'. keccak_absorb 136 b st = Some (r, st') \<and> length r = length b mod 136 \<and> length st' = length st"
proof (induction "length b" arbitrary: b st rule: less_induct)
  case less
  show ?case
  proof (cases "length b \<ge> 136")
    case True
    then show ?thesis
      using less [of "drop 136 b" "KECCAK_PROCESS_BLOCK st (take 136 b)"] absorb_block [OF True, of st]
      by (auto simp: le_mod_geq)
  next
    case False
    then show ?thesis by (simp add: absorb_short)
  qed
qed

text \<open>Absorbing is compositional: what is left of a first part is put before the second.\<close>

lemma absorb_append:
  "keccak_absorb 136 a st = Some (r, st') \<Longrightarrow> keccak_absorb 136 (a @ b) st = keccak_absorb 136 (r @ b) st'"
proof (induction "length a" arbitrary: a st rule: less_induct)
  case less
  show ?case
  proof (cases "length a \<ge> 136")
    case True
    with less.prems have "keccak_absorb 136 (drop 136 a) (KECCAK_PROCESS_BLOCK st (take 136 a)) = Some (r, st')"
      by (simp add: absorb_block)
    with less.hyps [of "drop 136 a"] True show ?thesis
      by (simp add: absorb_block [of "a @ b"])
  next
    case False
    with less.prems show ?thesis by (simp add: absorb_short)
  qed
qed

definition sponge :: "bytes \<Rightarrow> u64 list" where
  "sponge inp =
    (case keccak_absorb 136 inp (replicate 25 0) of
       Some (r, st) \<Rightarrow> KECCAK_PROCESS_BLOCK st (keccak_pad 136 r) | None \<Rightarrow> [])"

lemma length_sponge [simp]: "length (sponge inp) = 25"
  using absorb_total [of inp "replicate 25 0"] by (auto simp: sponge_def)

lemma keccak_sponge:
  assumes "mdlen = 200 \<or> mdlen = 32"
  shows "keccak inp mdlen = Some (concat (map (le_split 8) (take (mdlen div 8) (sponge inp))))"
proof -
  obtain r st where r: "keccak_absorb 136 inp (replicate 25 0) = Some (r, st)" "length r < 136"
    using absorb_total [of inp "replicate 25 0"] by auto
  then show ?thesis
    using assms
    by (auto simp: keccak_def HASH_DATA_AREA_def Let_def sponge_def KECCAK_PROCESS_BLOCK_def KECCAK_WORDS_def)
qed

lemma take_words: "take (8 * n) (concat (map (le_split 8) ws)) = concat (map (le_split 8) (take n ws))"
proof (induction ws arbitrary: n)
  case (Cons w ws)
  then show ?case by (cases n) (simp_all add: le_split_def)
qed simp

lemma cn_fast_hash_sponge: "cn_fast_hash inp = concat (map (le_split 8) (take 4 (sponge inp)))"
  using take_words [of 4 "sponge inp"]
  by (simp add: cn_fast_hash_def hash_process_def keccak1600_def keccak_sponge HASH_SIZE_def)

lemma length_cn_fast_hash [simp]: "length (cn_fast_hash inp) = 32"
  by (simp add: cn_fast_hash_sponge length_words)

lemma keccak_cn_fast_hash: "keccak inp HASH_SIZE = Some (cn_fast_hash inp)"
  by (simp add: cn_fast_hash_sponge HASH_SIZE_def keccak_sponge)

section \<open>Streaming equals one-shot hashing\<close>

text \<open>The context holds the state and the unprocessed tail of the bytes \<open>M\<close> fed so far.\<close>

definition ctx_absorbed :: "keccak_ctx \<Rightarrow> bytes \<Rightarrow> bool" where
  "ctx_absorbed ctx M \<longleftrightarrow>
    length (ctx_message ctx) = 136 \<and> ctx_rest ctx = length M mod 136 \<and>
    keccak_absorb 136 M (replicate 25 0) = Some (take (ctx_rest ctx) (ctx_message ctx), ctx_hash ctx)"

lemma ctx_absorbed_init: "ctx_absorbed keccak_init []"
  by (simp add: ctx_absorbed_def keccak_init_def absorb_short)

lemma not_finalized: "n < 136 \<Longrightarrow> n AND KECCAK_FINALIZED = 0"
proof -
  assume "n < 136"
  have "take_bit 31 n = n" using \<open>n < 136\<close> by (simp add: take_bit_nat_eq_self)
  moreover have "take_bit 31 n AND 2 ^ 31 = 0"
    by (rule bit_eqI, simp only: bit_and_iff bit_take_bit_iff bit_exp_iff) auto
  ultimately show ?thesis by (simp add: KECCAK_FINALIZED_def)
qed

lemma process_block_take: "KECCAK_PROCESS_BLOCK st (take 136 b) = KECCAK_PROCESS_BLOCK st b"
  using xor_block_take [of 17 b st] by (simp add: KECCAK_PROCESS_BLOCK_def KECCAK_WORDS_def)

lemma update_blocks_absorb:
  assumes "keccak_update_blocks al inp ctx = (inp', ctx')" and "length (ctx_message ctx) = 136"
  shows "keccak_absorb 136 inp (ctx_hash ctx) = Some (inp', ctx_hash ctx')
    \<and> length (ctx_message ctx') = 136 \<and> ctx_rest ctx' = ctx_rest ctx"
  using assms
proof (induction al inp ctx rule: keccak_update_blocks.induct)
  case (1 al inp ctx)
  show ?case
  proof (cases "length inp \<ge> 136")
    case True
    have "memcpy_at (ctx_message ctx) 0 (take 136 inp) = take 136 inp"
      using True "1.prems"(2) by (simp add: memcpy_at_def)
    with 1 True show ?thesis
      by (auto simp: keccak_update_blocks.simps [of al inp ctx] absorb_block Let_def
          KECCAK_BLOCKLEN_def process_block_take split: if_splits)
  next
    case False
    with "1.prems" show ?thesis
      by (auto simp: keccak_update_blocks.simps [of al inp ctx] absorb_short KECCAK_BLOCKLEN_def)
  qed
qed

text \<open>The tail of \<open>keccak_update\<close>, once the partial block is out of the way.\<close>

lemma update_tail_absorbed:
  assumes "keccak_absorb 136 N (replicate 25 0) = keccak_absorb 136 inp (ctx_hash ctx)"
    and "length (ctx_message ctx) = 136" and "ctx_rest ctx = length N mod 136"
    and "keccak_update_blocks al inp ctx = (inp', ctx')"
  shows "ctx_absorbed (if inp' \<noteq> [] then ctx'\<lparr>ctx_message := memcpy_at (ctx_message ctx') 0 inp'\<rparr> else ctx') N"
proof -
  note blocks = update_blocks_absorb [OF assms(4,2)]
  have "length inp' = length N mod 136"
    using absorb_total [of N "replicate 25 0"] assms(1) blocks by auto
  moreover have "length N mod 136 < 136" by simp
  ultimately show ?thesis
    using assms blocks by (auto simp: ctx_absorbed_def length_memcpy_at memcpy_at_def)
qed

lemma keccak_update_absorbed:
  assumes "ctx_absorbed ctx M"
  shows "\<exists>ctx'. keccak_update al inp ctx = Some ctx' \<and> ctx_absorbed ctx' (M @ inp)"
proof -
  define idx where "idx = ctx_rest ctx"
  define ctx1 where "ctx1 = ctx\<lparr>ctx_rest := length (M @ inp) mod 136\<rparr>"
  have idx: "idx = length M mod 136" "idx < 136"
    and msg: "length (ctx_message ctx) = 136"
    and abs: "keccak_absorb 136 M (replicate 25 0) = Some (take idx (ctx_message ctx), ctx_hash ctx)"
    using assms by (auto simp: ctx_absorbed_def idx_def)
  have nf: "ctx_rest ctx AND KECCAK_FINALIZED = 0" using not_finalized idx(2) by (simp add: idx_def)
  have rest: "(idx + length inp) mod 136 = length (M @ inp) mod 136"
    by (simp add: idx(1) mod_add_left_eq)
  note abs' = absorb_append [OF abs, of inp]
  consider (short) "idx \<noteq> 0" "length inp < 136 - idx" | (fill) "idx \<noteq> 0" "136 - idx \<le> length inp" | (whole) "idx = 0"
    by linarith
  then show ?thesis
  proof cases
    case short
    then have "idx + length inp < 136" by simp
    with short msg have "take ((idx + length inp) mod 136) (memcpy_at (ctx_message ctx) idx inp)
        = take idx (ctx_message ctx) @ inp"
      by (simp add: memcpy_at_def)
    with short show ?thesis
      using nf rest msg abs' idx
      by (auto simp: keccak_update_def ctx_absorbed_def KECCAK_BLOCKLEN_def length_memcpy_at
          absorb_short simp flip: idx_def)
  next
    case fill
    define block where "block = take idx (ctx_message ctx) @ take (136 - idx) inp"
    define ctx2 where "ctx2 = ctx1\<lparr>ctx_message := block, ctx_hash := KECCAK_PROCESS_BLOCK (ctx_hash ctx) block\<rparr>"
    have len: "length block = 136" using fill idx(2) msg by (simp add: block_def)
    have "memcpy_at (ctx_message ctx) idx (take (136 - idx) inp) = block"
      using fill idx(2) msg by (simp add: memcpy_at_def block_def)
    then have upd: "keccak_update al inp ctx =
        (case keccak_update_blocks al (drop (136 - idx) inp) ctx2 of (inp', ctx') \<Rightarrow>
          Some (if inp' \<noteq> [] then ctx'\<lparr>ctx_message := memcpy_at (ctx_message ctx') 0 inp'\<rparr> else ctx'))"
      using fill nf rest
      by (simp add: keccak_update_def KECCAK_BLOCKLEN_def ctx2_def ctx1_def flip: idx_def)
    have "take idx (ctx_message ctx) @ inp = block @ drop (136 - idx) inp" by (simp add: block_def)
    then have "keccak_absorb 136 (M @ inp) (replicate 25 0)
        = keccak_absorb 136 (drop (136 - idx) inp) (ctx_hash ctx2)"
      using abs' len by (simp add: absorb_block ctx2_def)
    moreover have "length (ctx_message ctx2) = 136" "ctx_rest ctx2 = length (M @ inp) mod 136"
      by (simp_all add: ctx2_def ctx1_def len)
    ultimately show ?thesis
      using update_tail_absorbed upd by (auto split: prod.splits)
  next
    case whole
    then have upd: "keccak_update al inp ctx =
        (case keccak_update_blocks al inp ctx1 of (inp', ctx') \<Rightarrow>
          Some (if inp' \<noteq> [] then ctx'\<lparr>ctx_message := memcpy_at (ctx_message ctx') 0 inp'\<rparr> else ctx'))"
      using nf rest by (simp add: keccak_update_def KECCAK_BLOCKLEN_def ctx1_def flip: idx_def)
    have "keccak_absorb 136 (M @ inp) (replicate 25 0) = keccak_absorb 136 inp (ctx_hash ctx1)"
      using abs' whole by (simp add: ctx1_def)
    moreover have "length (ctx_message ctx1) = 136" "ctx_rest ctx1 = length (M @ inp) mod 136"
      by (simp_all add: ctx1_def msg)
    ultimately show ?thesis
      using update_tail_absorbed upd by (auto split: prod.splits)
  qed
qed

text \<open>\<open>keccak_finish\<close> builds the very block the one-shot sponge pads.\<close>

lemma keccak_finish_pad:
  assumes "length m = 136" "r < 136"
  shows "(let m = memcpy_at m r (replicate (136 - r) 0); m = m[r := m ! r OR 0x01]
          in m[135 := m ! 135 OR 0x80]) = keccak_pad 136 (take r m)"
proof -
  have "memcpy_at m r (replicate (136 - r) 0) = take r m @ 0 # replicate (135 - r) 0"
    using assms by (simp add: memcpy_at_def flip: replicate_Suc add: Suc_diff_le)
  moreover have "(take r m @ 0 # replicate (135 - r) (0 :: u8))[r := 0 OR 1]
      = take r m @ 1 # replicate (135 - r) 0"
    using assms by (simp add: list_update_append)
  ultimately show ?thesis using assms by (simp add: keccak_pad_def nth_append)
qed

lemma keccak_finish_absorbed:
  assumes "ctx_absorbed ctx M"
  shows "snd (keccak_finish ctx) = cn_fast_hash M" and "ctx_rest (fst (keccak_finish ctx)) = KECCAK_FINALIZED"
proof -
  have ctx: "length (ctx_message ctx) = 136" "ctx_rest ctx < 136"
    "keccak_absorb 136 M (replicate 25 0) = Some (take (ctx_rest ctx) (ctx_message ctx), ctx_hash ctx)"
    using assms by (simp_all add: ctx_absorbed_def)
  show "snd (keccak_finish ctx) = cn_fast_hash M"
    using keccak_finish_pad [OF ctx(1,2)] ctx(3)
    by (simp add: keccak_finish_def not_finalized [OF ctx(2)] KECCAK_BLOCKLEN_def KECCAK_DIGESTSIZE_def
        cn_fast_hash_sponge sponge_def Let_def)
  show "ctx_rest (fst (keccak_finish ctx)) = KECCAK_FINALIZED"
    by (simp add: keccak_finish_def not_finalized [OF ctx(2)] Let_def)
qed

text \<open>Feeding a list of chunks, each with the alignment its pointer happens to have.\<close>

fun keccak_update_all :: "(bool \<times> bytes) list \<Rightarrow> keccak_ctx \<Rightarrow> keccak_ctx option" where
  "keccak_update_all [] ctx = Some ctx"
| "keccak_update_all ((al, inp) # chunks) ctx = Option.bind (keccak_update al inp ctx) (keccak_update_all chunks)"

lemma keccak_update_all_absorbed:
  "ctx_absorbed ctx M \<Longrightarrow>
    \<exists>ctx'. keccak_update_all chunks ctx = Some ctx' \<and> ctx_absorbed ctx' (M @ concat (map snd chunks))"
proof (induction chunks arbitrary: ctx M)
  case (Cons c chunks)
  obtain al inp where c: "c = (al, inp)" by (cases c)
  obtain ctx1 where "keccak_update al inp ctx = Some ctx1" "ctx_absorbed ctx1 (M @ inp)"
    using keccak_update_absorbed [OF Cons.prems] by blast
  with Cons.IH [of ctx1 "M @ inp"] c show ?case by simp
qed simp

lemma update_finalized: "ctx_rest ctx = KECCAK_FINALIZED \<Longrightarrow> keccak_update al inp ctx = None"
  by (simp add: keccak_update_def KECCAK_FINALIZED_def)

section \<open>The keyed hash is HMAC over \<open>cn_fast_hash\<close>\<close>

lemma fold_xor_prefix:
  "n \<le> length pad \<Longrightarrow> n \<le> length key \<Longrightarrow>
    fold (\<lambda>i pad. pad[i := pad ! i XOR key ! i]) [0..<n] pad = map2 (XOR) (take n pad) (take n key) @ drop n pad"
proof (induction n)
  case (Suc n)
  then show ?case
    by (simp add: list_update_append nth_append take_Suc_conv_app_nth Cons_nth_drop_Suc [symmetric])
qed simp

lemma hmac_pad_map2:
  "length key \<le> 136 \<Longrightarrow> hmac_pad c key = map ((XOR) c) key @ replicate (136 - length key) c"
  by (simp add: hmac_pad_def KECCAK_BLOCKLEN_def fold_xor_prefix map2_map_map zip_replicate1 comp_def)

definition hmac_key :: "bytes \<Rightarrow> bytes" where
  "hmac_key key = (if length key > 136 then cn_fast_hash key else key)"

text \<open>The reference: the HMAC construction for a hash \<open>H\<close> with blocks of \<open>B\<close> bytes.\<close>

definition hmac_spec :: "(bytes \<Rightarrow> bytes) \<Rightarrow> nat \<Rightarrow> bytes \<Rightarrow> bytes \<Rightarrow> bytes" where
  "hmac_spec H B key msg =
    (let k = (if length key > B then H key else key);
         k0 = k @ replicate (B - length k) 0
     in H (map ((XOR) 0x5c) k0 @ H (map ((XOR) 0x36) k0 @ msg)))"

lemma hmac_pad_zero_extended:
  "length key \<le> 136 \<Longrightarrow> hmac_pad c key = map ((XOR) c) (key @ replicate (136 - length key) 0)"
  by (simp add: hmac_pad_map2)

lemma length_hmac_key: "length (hmac_key key) \<le> 136"
  by (simp add: hmac_key_def)

lemma hmac_keccak_hash_pads:
  "hmac_keccak_hash al key inp =
    Some (cn_fast_hash (hmac_pad 0x5c (hmac_key key) @ cn_fast_hash (hmac_pad 0x36 (hmac_key key) @ inp)))"
proof -
  let ?k = "hmac_key key"
  obtain inner where inner: "keccak_update al (hmac_pad 0x36 ?k) keccak_init = Some inner"
      "ctx_absorbed inner (hmac_pad 0x36 ?k)"
    using keccak_update_absorbed [OF ctx_absorbed_init] by force
  obtain outer where outer: "keccak_update al (hmac_pad 0x5c ?k) keccak_init = Some outer"
      "ctx_absorbed outer (hmac_pad 0x5c ?k)"
    using keccak_update_absorbed [OF ctx_absorbed_init] by force
  obtain inner' where inner': "keccak_update al inp inner = Some inner'"
      "ctx_absorbed inner' (hmac_pad 0x36 ?k @ inp)"
    using keccak_update_absorbed [OF inner(2)] by blast
  let ?ihash = "cn_fast_hash (hmac_pad 0x36 ?k @ inp)"
  obtain outer' where outer': "keccak_update al ?ihash outer = Some outer'"
      "ctx_absorbed outer' (hmac_pad 0x5c ?k @ ?ihash)"
    using keccak_update_absorbed [OF outer(2)] by blast
  have "hmac_keccak_init al key = Some \<lparr>hmac_inner = inner, hmac_outer = outer\<rparr>"
    using inner outer keccak_cn_fast_hash [of key]
    by (cases "length key > 136") (simp_all add: hmac_keccak_init_def hmac_key_def KECCAK_BLOCKLEN_def)
  then show ?thesis
    using inner' outer' keccak_finish_absorbed(1) [OF inner'(2)] keccak_finish_absorbed(1) [OF outer'(2)]
    by (simp add: hmac_keccak_hash_def hmac_keccak_update_def hmac_keccak_finish_def case_prod_beta)
qed

section \<open>Properties\<close>

text \<open>C17: the streaming interface agrees with the one-shot hash. Whatever way a message is cut
  into chunks and however each chunk is aligned, \<open>keccak_update\<close> never aborts on a context
  that is not finished, \<open>keccak_finish\<close> returns \<open>cn_fast_hash\<close> of the whole message, and every
  \<open>keccak_update\<close> after that aborts.\<close>

theorem keccak_streaming:
  "\<exists>ctx. keccak_update_all chunks keccak_init = Some ctx
    \<and> snd (keccak_finish ctx) = cn_fast_hash (concat (map snd chunks))
    \<and> (\<forall>al inp. keccak_update al inp (fst (keccak_finish ctx)) = None)"
  using keccak_update_all_absorbed [OF ctx_absorbed_init, of chunks] keccak_finish_absorbed update_finalized
  by fastforce

text \<open>C30: \<open>hmac_keccak_hash\<close> never aborts and computes the HMAC construction over
  \<open>cn_fast_hash\<close> with its 136-byte blocks, for keys shorter and longer than a block.\<close>

theorem hmac_keccak_hash_correct: "hmac_keccak_hash al key inp = Some (hmac_spec cn_fast_hash 136 key inp)"
  by (simp only: hmac_keccak_hash_pads hmac_pad_zero_extended [OF length_hmac_key])
    (simp add: hmac_spec_def hmac_key_def Let_def)

text \<open>\<open>keccak\<close> with a 32-byte digest and \<open>cn_fast_hash\<close>, which squeezes the whole state and
  keeps its first 32 bytes, agree; no guard of \<open>keccak\<close> fires and the digest has 32 bytes.\<close>

theorem cn_fast_hash_total: "keccak inp HASH_SIZE = Some (cn_fast_hash inp) \<and> length (cn_fast_hash inp) = 32"
  by (simp add: keccak_cn_fast_hash)

end
