(* ===== verification/Base58.thy ===== *)
theory Base58
  imports Prelude Codec Int_Util Varint Keccak
begin

text \<open>
  The block-wise base 58 encoding of \<open>src/common/base58.cpp\<close> and the checksummed
  address strings built on it. Characters are octets, as in the \<open>std::string\<close> the code
  works on. Pointers into a buffer are a buffer and an offset; a write before the start of
  a block, which the C++ code would do out of bounds, is \<open>None\<close>, and the functions
  returning \<open>bool\<close> with an output parameter return an option.
\<close>

section \<open>Definitions\<close>

definition alphabet :: bytes where
  "alphabet = map of_char ''123456789ABCDEFGHJKLMNPQRSTUVWXYZabcdefghijkmnopqrstuvwxyz''"

definition alphabet_size :: nat where "alphabet_size = length alphabet"
definition encoded_block_sizes :: "nat list" where "encoded_block_sizes = [0, 2, 3, 5, 6, 7, 9, 10, 11]"
definition full_block_size :: nat where "full_block_size = length encoded_block_sizes - 1"
definition full_encoded_block_size :: nat where
  "full_encoded_block_size = encoded_block_sizes ! full_block_size"
definition addr_checksum_size :: nat where "addr_checksum_size = 4"

text \<open>The table of the constructor of \<open>reverse_alphabet\<close>, and its call operator on a signed \<open>char\<close>.\<close>

definition reverse_alphabet_data :: "int list" where
  "reverse_alphabet_data =
    fold (\<lambda>i m. m[unat (alphabet ! i) - unat (alphabet ! 0) := int i]) [0..<alphabet_size]
      (replicate (unat (alphabet ! (alphabet_size - 1)) - unat (alphabet ! 0) + 1) (- 1))"

definition reverse_alphabet :: "u8 \<Rightarrow> int" where
  "reverse_alphabet letter =
    (let idx = sint letter - sint (alphabet ! 0)
     in if 0 \<le> idx \<and> nat idx < length reverse_alphabet_data then reverse_alphabet_data ! nat idx else - 1)"

definition decoded_block_sizes_data :: "int list" where
  "decoded_block_sizes_data =
    fold (\<lambda>i m. m[encoded_block_sizes ! i := int i]) [0..<full_block_size + 1]
      (replicate (encoded_block_sizes ! full_block_size + 1) (- 1))"

definition decoded_block_sizes :: "nat \<Rightarrow> int" where
  "decoded_block_sizes encoded_block_size = decoded_block_sizes_data ! encoded_block_size"

text \<open>The bytes are copied to the end of the memory of \<open>res\<close>, resp. from the end of that of \<open>num_be\<close>.\<close>

definition uint_8be_to_64 :: "bytes \<Rightarrow> nat \<Rightarrow> u64" where
  "uint_8be_to_64 data sz = SWAP64 (le_word (replicate (8 - sz) 0 @ take sz data))"

definition uint_64_to_8be :: "u64 \<Rightarrow> nat \<Rightarrow> bytes" where
  "uint_64_to_8be num sz = take sz (drop (8 - sz) (le_split 8 (SWAP64 num)))"

text \<open>The loop of \<open>encode_block\<close> writes \<open>res[i]\<close>, where \<open>res\<close> points at offset \<open>off\<close>.\<close>

function encode_block_loop :: "u64 \<Rightarrow> int \<Rightarrow> nat \<Rightarrow> bytes \<Rightarrow> bytes option" where
  "encode_block_loop num i off res =
    (if 0 < num then
       if i < 0 then None
       else encode_block_loop (num div of_nat alphabet_size) (i - 1) off
              (res[off + nat i := alphabet ! unat (num mod of_nat alphabet_size)])
     else Some res)"
  by pat_completeness auto
termination
proof (relation "measure (\<lambda>(num, i, off, res). unat num)")
  fix num :: u64 and i off res
  assume "0 < num"
  then have "0 < unat num" by (simp add: unat_gt_0)
  moreover have "unat (of_nat alphabet_size :: u64) = 58" by code_simp
  ultimately show "((num div of_nat alphabet_size, i - 1, off,
      res[off + nat i := alphabet ! unat (num mod of_nat alphabet_size)]), num, i, off, res)
    \<in> measure (\<lambda>(num, i, off, res). unat num)"
    by (simp only: in_measure prod.case unat_div_u64)
qed simp

declare encode_block_loop.simps [simp del]

definition encode_block :: "bytes \<Rightarrow> nat \<Rightarrow> nat \<Rightarrow> bytes \<Rightarrow> bytes option" where
  "encode_block block sz off res =
    (let num = uint_8be_to_64 block sz;
         i = int (encoded_block_sizes ! sz) - 1
     in encode_block_loop num i off res)"

text \<open>The loop of \<open>decode_block\<close>, over the letters from the last to the first.\<close>

fun decode_block_loop :: "bytes \<Rightarrow> u64 \<Rightarrow> u64 \<Rightarrow> u64 option" where
  "decode_block_loop [] res_num order = Some res_num"
| "decode_block_loop (letter # letters) res_num order =
    (let digit = reverse_alphabet letter
     in if digit < 0 then None
        else
          let (product_lo, product_hi) = mul128 order (of_int digit);
              tmp = res_num + product_lo
          in if tmp < res_num \<or> 0 \<noteq> product_hi then None
             else decode_block_loop letters tmp (order * of_nat alphabet_size))"

definition decode_block :: "bytes \<Rightarrow> nat \<Rightarrow> nat \<Rightarrow> bytes \<Rightarrow> bytes option" where
  "decode_block block sz off res =
    (let res_size = decoded_block_sizes sz
     in if res_size \<le> 0 then None
        else case decode_block_loop (rev (take sz block)) 0 1 of
               None \<Rightarrow> None
             | Some res_num \<Rightarrow>
                 if nat res_size < full_block_size \<and> push_bit (8 * nat res_size) 1 \<le> res_num then None
                 else Some (memcpy_at res off (uint_64_to_8be res_num (nat res_size))))"

fun encode_blocks :: "nat list \<Rightarrow> bytes \<Rightarrow> bytes \<Rightarrow> bytes option" where
  "encode_blocks [] data res = Some res"
| "encode_blocks (i # is) data res =
    Option.bind (encode_block (drop (i * full_block_size) data) full_block_size (i * full_encoded_block_size) res)
      (encode_blocks is data)"

definition encode :: "bytes \<Rightarrow> bytes option" where
  "encode data =
    (if data = [] then Some []
     else
       let full_block_count = length data div full_block_size;
           last_block_size = length data mod full_block_size;
           res_size = full_block_count * full_encoded_block_size + encoded_block_sizes ! last_block_size;
           res = replicate res_size (alphabet ! 0)
       in case encode_blocks [0..<full_block_count] data res of
            None \<Rightarrow> None
          | Some res \<Rightarrow>
              if 0 < last_block_size
              then encode_block (drop (full_block_count * full_block_size) data) last_block_size
                     (full_block_count * full_encoded_block_size) res
              else Some res)"

fun decode_blocks :: "nat list \<Rightarrow> bytes \<Rightarrow> bytes \<Rightarrow> bytes option" where
  "decode_blocks [] enc data = Some data"
| "decode_blocks (i # is) enc data =
    Option.bind (decode_block (drop (i * full_encoded_block_size) enc) full_encoded_block_size
                   (i * full_block_size) data)
      (decode_blocks is enc)"

text \<open>\<open>data\<close> is the string the caller passes by reference; \<open>resize\<close> keeps what it can of it.\<close>

definition decode :: "bytes \<Rightarrow> bytes \<Rightarrow> bytes option" where
  "decode enc data =
    (if enc = [] then Some []
     else
       let full_block_count = length enc div full_encoded_block_size;
           last_block_size = length enc mod full_encoded_block_size;
           last_block_decoded_size = decoded_block_sizes last_block_size
       in if last_block_decoded_size < 0 then None
          else
            let data_size = full_block_count * full_block_size + nat last_block_decoded_size
            in case decode_blocks [0..<full_block_count] enc (resize data data_size 0) of
                 None \<Rightarrow> None
               | Some data \<Rightarrow>
                   if 0 < last_block_size
                   then decode_block (drop (full_block_count * full_encoded_block_size) enc) last_block_size
                          (full_block_count * full_block_size) data
                   else Some data)"

definition encode_addr :: "u64 \<Rightarrow> bytes \<Rightarrow> bytes option" where
  "encode_addr tag data =
    (let buf = get_varint_data tag @ data;
         hash = cn_fast_hash buf;
         buf = buf @ take addr_checksum_size hash
     in encode buf)"

definition decode_addr :: "bytes \<Rightarrow> (u64 \<times> bytes) option" where
  "decode_addr addr =
    (case decode addr [] of
       None \<Rightarrow> None
     | Some addr_data \<Rightarrow>
         if length addr_data \<le> addr_checksum_size then None
         else
           let checksum = drop (length addr_data - addr_checksum_size) addr_data;
               addr_data = take (length addr_data - addr_checksum_size) addr_data;
               expected_checksum = take addr_checksum_size (cn_fast_hash addr_data)
           in if expected_checksum \<noteq> checksum then None
              else case read_varint addr_data of (read, tag, _) \<Rightarrow>
                if read \<le> 0 then None else Some (tag, drop (nat read) addr_data))"

section \<open>Tables\<close>

lemma block_sizes [simp]: "full_block_size = 8" "full_encoded_block_size = 11" "addr_checksum_size = 4"
  by (simp_all add: full_block_size_def full_encoded_block_size_def encoded_block_sizes_def
      addr_checksum_size_def)

lemma alphabet_size_58 [simp]: "alphabet_size = 58" by code_simp

lemma alphabet_table:
  "alphabet =
    [49, 50, 51, 52, 53, 54, 55, 56, 57, 65, 66, 67, 68, 69, 70, 71, 72, 74, 75, 76, 77, 78, 80, 81,
     82, 83, 84, 85, 86, 87, 88, 89, 90, 97, 98, 99, 100, 101, 102, 103, 104, 105, 106, 107, 109,
     110, 111, 112, 113, 114, 115, 116, 117, 118, 119, 120, 121, 122]"
  by code_simp

lemma reverse_alphabet_data_table:
  "reverse_alphabet_data =
    [0, 1, 2, 3, 4, 5, 6, 7, 8, -1, -1, -1, -1, -1, -1, -1, 9, 10, 11, 12, 13, 14, 15, 16, -1, 17, 18,
     19, 20, 21, -1, 22, 23, 24, 25, 26, 27, 28, 29, 30, 31, 32, -1, -1, -1, -1, -1, -1, 33, 34, 35, 36,
     37, 38, 39, 40, 41, 42, 43, -1, 44, 45, 46, 47, 48, 49, 50, 51, 52, 53, 54, 55, 56, 57]"
  by code_simp

lemma reverse_alphabet_nth: "d < 58 \<Longrightarrow> reverse_alphabet (alphabet ! d) = int d"
proof -
  have "list_all (\<lambda>d. reverse_alphabet (alphabet ! d) = int d) [0..<58]"
    unfolding reverse_alphabet_def reverse_alphabet_data_table by code_simp
  then show "d < 58 \<Longrightarrow> reverse_alphabet (alphabet ! d) = int d" by (simp add: list_all_iff)
qed

lemma reverse_alphabet_inverse:
  assumes "0 \<le> reverse_alphabet c"
  shows "reverse_alphabet c < 58" and "alphabet ! nat (reverse_alphabet c) = c"
proof -
  define j where "j = nat (sint c - sint (alphabet ! 0))"
  have "sint (alphabet ! 0) = 49" by code_simp
  then have r: "0 \<le> sint c - 49" "j < 74" "reverse_alphabet c = reverse_alphabet_data ! j"
    using assms by (auto simp: reverse_alphabet_def j_def Let_def reverse_alphabet_data_table split: if_splits)
  then have "sint c = int j + 49" using \<open>sint (alphabet ! 0) = 49\<close> by (simp add: j_def)
  then have c: "c = word_of_int (int j + 49)" by (metis scast_eq scast_id)
  have "list_all (\<lambda>(j, d). d < 0 \<or> (d < 58 \<and> alphabet ! nat d = word_of_int (int j + 49)))
      (zip [0..<74] reverse_alphabet_data)"
    unfolding reverse_alphabet_data_table alphabet_table by (simp add: upt_rec)
  then have "reverse_alphabet_data ! j < 0 \<or> (reverse_alphabet_data ! j < 58
      \<and> alphabet ! nat (reverse_alphabet_data ! j) = word_of_int (int j + 49))"
    using r(2) by (auto simp: list_all_length reverse_alphabet_data_table)
  with assms r(3) c show "reverse_alphabet c < 58" "alphabet ! nat (reverse_alphabet c) = c" by auto
qed

lemma decoded_block_sizes_iff:
  assumes "n \<le> 11"
  shows "decoded_block_sizes n = int k \<longleftrightarrow> k \<le> 8 \<and> encoded_block_sizes ! k = n"
proof -
  have "list_all (\<lambda>n. list_all (\<lambda>k. (decoded_block_sizes n = int k) = (encoded_block_sizes ! k = n)) [0..<9]) [0..<12]"
    by code_simp
  moreover have "list_all (\<lambda>n. decoded_block_sizes n \<le> 8) [0..<12]" by code_simp
  ultimately have "k \<le> 8 \<Longrightarrow> decoded_block_sizes n = int k \<longleftrightarrow> encoded_block_sizes ! k = n"
    "decoded_block_sizes n \<le> 8"
    using assms by (simp_all add: list_all_iff)
  then show ?thesis by auto
qed

lemma encoded_block_sizes_bounds:
  assumes "k \<le> 8"
  shows "256 ^ k \<le> (58 :: nat) ^ (encoded_block_sizes ! k)" and "encoded_block_sizes ! k \<le> 11"
    and "k < 8 \<Longrightarrow> encoded_block_sizes ! k < 11" and "0 < k \<Longrightarrow> 0 < encoded_block_sizes ! k"
proof -
  have "k = 0 \<or> k = 1 \<or> k = 2 \<or> k = 3 \<or> k = 4 \<or> k = 5 \<or> k = 6 \<or> k = 7 \<or> k = 8"
    using assms by arith
  then show "256 ^ k \<le> (58 :: nat) ^ (encoded_block_sizes ! k)" "encoded_block_sizes ! k \<le> 11"
    "k < 8 \<Longrightarrow> encoded_block_sizes ! k < 11" "0 < k \<Longrightarrow> 0 < encoded_block_sizes ! k"
    by (auto simp: encoded_block_sizes_def)
qed

section \<open>Big-endian numbers\<close>

lemma le_nat_append_zeros: "le_nat (bs @ replicate n 0) = le_nat bs"
proof (induction bs)
  case Nil
  show ?case by (induction n) simp_all
qed simp

lemma le_split_SWAP64: "le_split 8 (SWAP64 x) = rev (le_split 8 x)"
  using le_split_le_word [of "rev (le_split 8 x)", where 'a = 64] by (simp add: SWAP64_bytes)

lemma unat_uint_8be_to_64:
  assumes "sz \<le> 8" "sz \<le> length data"
  shows "unat (uint_8be_to_64 data sz) = le_nat (rev (take sz data))"
proof -
  let ?m = "replicate (8 - sz) 0 @ take sz data"
  have len: "length ?m = 8" using assms by simp
  have "le_split 8 (le_word ?m :: u64) = ?m"
    using le_split_le_word [of ?m, where 'a = 64] len by simp
  then have "uint_8be_to_64 data sz = le_word (rev (take sz data) @ replicate (8 - sz) 0)"
    by (simp add: uint_8be_to_64_def SWAP64_bytes)
  then show ?thesis using assms by (simp add: unat_le_word le_nat_append_zeros)
qed

lemma uint_64_to_8be_rev: "n \<le> 8 \<Longrightarrow> uint_64_to_8be num n = rev (le_split n num)"
proof -
  assume n: "n \<le> 8"
  then have "take n (le_split 8 num) = le_split n num" by (simp add: le_split_def take_map)
  with n show ?thesis by (simp add: uint_64_to_8be_def le_split_SWAP64 drop_rev)
qed

lemma length_uint_64_to_8be: "n \<le> 8 \<Longrightarrow> length (uint_64_to_8be num n) = n"
  by (simp add: uint_64_to_8be_rev)

text \<open>The two conversions are inverse on the numbers that fit.\<close>

lemma uint_8be_roundtrip:
  assumes "length b \<le> 8" and "unat num = le_nat (rev b)"
  shows "uint_64_to_8be num (length b) = b"
proof -
  have "num = le_word (rev b)"
    using assms unat_le_word [of "rev b", where 'a = 64] by (simp add: word_unat_eq_iff)
  then show ?thesis
    using assms le_split_le_word [of "rev b", where 'a = 64] by (simp add: uint_64_to_8be_rev)
qed

lemma uint_64_to_8be_nat:
  assumes "n \<le> 8" and "unat num < 256 ^ n"
  shows "le_nat (rev (uint_64_to_8be num n)) = unat num"
proof -
  have "(256 :: nat) = 2 ^ 8" by simp
  then have "(256 :: nat) ^ n = 2 ^ (8 * n)" by (simp only: power_mult)
  with assms have "take_bit (8 * n) (unat num) = unat num" by (simp add: take_bit_nat_eq_self)
  then have "unat (le_word (le_split n num) :: u64) = unat num"
    by (simp only: le_word_le_split unsigned_take_bit_eq)
  then show ?thesis
    using assms(1) unat_le_word [of "le_split n num", where 'a = 64] by (simp add: uint_64_to_8be_rev)
qed

section \<open>Digits\<close>

text \<open>The \<open>k\<close> base 58 digits of a number, most significant first, and the value of a digit
  string, least significant first.\<close>

fun digits58 :: "nat \<Rightarrow> nat \<Rightarrow> nat list" where
  "digits58 0 m = []"
| "digits58 (Suc k) m = digits58 k (m div 58) @ [m mod 58]"

fun value58 :: "nat list \<Rightarrow> nat" where
  "value58 [] = 0"
| "value58 (d # ds) = d + 58 * value58 ds"

lemma length_digits58 [simp]: "length (digits58 k m) = k"
  by (induction k arbitrary: m) simp_all

lemma digits58_less: "d \<in> set (digits58 k m) \<Longrightarrow> d < 58"
  by (induction k arbitrary: m) auto

lemma digits58_zero: "digits58 k 0 = replicate k 0"
  by (induction k) (simp_all add: replicate_append_same)

lemma value58_digits58: "m < 58 ^ k \<Longrightarrow> value58 (rev (digits58 k m)) = m"
  by (induction k arbitrary: m) (simp_all add: less_mult_imp_div_less)

lemma digits58_value58: "\<forall>d\<in>set ds. d < 58 \<Longrightarrow> digits58 (length ds) (value58 ds) = rev ds"
  by (induction ds) simp_all

definition letters58 :: "nat \<Rightarrow> nat \<Rightarrow> bytes" where
  "letters58 k m = map ((!) alphabet) (digits58 k m)"

lemma length_letters58 [simp]: "length (letters58 k m) = k"
  by (simp add: letters58_def)

section \<open>Encoding a block\<close>

lemma memcpy_same: "take (length s) (drop at dst) = s \<Longrightarrow> memcpy_at dst at s = dst"
  by (metis append_take_drop_id drop_drop memcpy_at_def add.commute)

lemma memcpy_snoc:
  assumes "at + length s < length dst"
  shows "memcpy_at (dst[at + length s := a]) at s = memcpy_at dst at (s @ [a])"
proof -
  have "drop (at + length s) (dst[at + length s := a]) = a # drop (Suc (at + length s)) dst"
    using assms by (simp add: drop_update_swap Cons_nth_drop_Suc [symmetric])
  then show ?thesis by (simp add: memcpy_at_def take_update_cancel)
qed

lemma encode_block_loop_letters:
  "unat num < 58 ^ k \<Longrightarrow> off + k \<le> length res \<Longrightarrow> take k (drop off res) = replicate k (alphabet ! 0) \<Longrightarrow>
    encode_block_loop num (int k - 1) off res = Some (memcpy_at res off (letters58 k (unat num)))"
proof (induction k arbitrary: num res)
  case 0
  then have "num = 0" by (simp add: unat_eq_zero)
  then show ?case by (subst encode_block_loop.simps) (simp add: letters58_def memcpy_at_def)
next
  case (Suc k)
  show ?case
  proof (cases "num = 0")
    case True
    with Suc.prems(3) have "memcpy_at res off (letters58 (Suc k) (unat num)) = res"
      by (intro memcpy_same) (simp add: letters58_def digits58_zero del: digits58.simps)
    with True show ?thesis by (subst encode_block_loop.simps) simp
  next
    case False
    define a where "a = alphabet ! (unat num mod 58)"
    let ?res = "res[off + k := a]"
    have "take k (drop off ?res) = replicate k (alphabet ! 0)"
      using arg_cong [OF Suc.prems(3), of "take k"] by (simp add: drop_update_swap del: replicate_Suc)
    moreover have "unat (num div 58) < 58 ^ k"
      using Suc.prems(1) by (simp add: unat_div_u64 less_mult_imp_div_less)
    ultimately have "encode_block_loop (num div 58) (int k - 1) off ?res
        = Some (memcpy_at ?res off (letters58 k (unat num div 58)))"
      using Suc.prems(2) by (subst Suc.IH) (simp_all add: unat_div_u64)
    moreover have "memcpy_at ?res off (letters58 k (unat num div 58)) = memcpy_at res off (letters58 (Suc k) (unat num))"
      using memcpy_snoc [of off "letters58 k (unat num div 58)" res a] Suc.prems(2)
      by (simp add: letters58_def a_def)
    ultimately show ?thesis
      using False by (subst encode_block_loop.simps) (simp add: a_def unat_mod_u64 word_neq_0_conv)
  qed
qed

section \<open>Decoding a block\<close>

definition valid58 :: "bytes \<Rightarrow> bool" where
  "valid58 cs \<longleftrightarrow> (\<forall>c\<in>set cs. 0 \<le> reverse_alphabet c)"

definition number58 :: "bytes \<Rightarrow> nat" where
  "number58 cs = value58 (map (nat \<circ> reverse_alphabet) (rev cs))"

lemma letters58_number58: "valid58 cs \<Longrightarrow> letters58 (length cs) (number58 cs) = cs"
proof -
  assume v: "valid58 cs"
  let ?ds = "map (nat \<circ> reverse_alphabet) (rev cs)"
  have "\<forall>d\<in>set ?ds. d < 58"
    using v reverse_alphabet_inverse(1) by (auto simp: valid58_def nat_less_iff)
  from digits58_value58 [OF this]
  have "letters58 (length cs) (number58 cs) = map (\<lambda>c. alphabet ! nat (reverse_alphabet c)) cs"
    by (simp add: letters58_def number58_def rev_map)
  also have "\<dots> = cs" using v reverse_alphabet_inverse(2) by (intro map_idI) (auto simp: valid58_def)
  finally show ?thesis .
qed

lemma valid58_letters58: "valid58 (letters58 k m)"
  using digits58_less by (fastforce simp: valid58_def letters58_def reverse_alphabet_nth)

lemma number58_letters58: "m < 58 ^ k \<Longrightarrow> number58 (letters58 k m) = m"
proof -
  assume "m < 58 ^ k"
  moreover have "map (nat \<circ> reverse_alphabet) (letters58 k m) = digits58 k m"
    unfolding letters58_def map_map using digits58_less
    by (intro map_idI) (fastforce simp: reverse_alphabet_nth)
  ultimately show ?thesis by (simp add: number58_def rev_map value58_digits58 flip: rev_map)
qed

text \<open>One step: the checked multiply-and-add succeeds exactly when the sum fits.\<close>

lemma mul_add_checked:
  fixes r order d :: u64
  defines "p \<equiv> mul128 order d"
  shows "r + fst p < r \<or> 0 \<noteq> snd p \<longleftrightarrow> 2 ^ 64 \<le> unat r + unat order * unat d"
    and "unat r + unat order * unat d < 2 ^ 64 \<Longrightarrow> unat (r + fst p) = unat r + unat order * unat d"
proof -
  have prod: "unat (snd p) * 2 ^ 64 + unat (fst p) = unat order * unat d"
    unfolding p_def by (rule mul128_product)
  show "r + fst p < r \<or> 0 \<noteq> snd p \<longleftrightarrow> 2 ^ 64 \<le> unat r + unat order * unat d"
  proof (cases "snd p = 0")
    case True
    then show ?thesis using prod by (simp add: carry_u64)
  next
    case False
    then have "0 < unat (snd p)" by (simp add: unat_gt_0)
    then have "1 * 2 ^ 64 \<le> unat (snd p) * 2 ^ 64" by (intro mult_right_mono) auto
    with prod False show ?thesis by simp
  qed
  assume small: "unat r + unat order * unat d < 2 ^ 64"
  have "unat (snd p) = 0"
  proof (rule ccontr)
    assume "unat (snd p) \<noteq> 0"
    then have "1 * 2 ^ 64 \<le> unat (snd p) * 2 ^ 64" by (intro mult_right_mono) auto
    with prod small show False by simp
  qed
  with prod small show "unat (r + fst p) = unat r + unat order * unat d" by (simp add: unat_add_u64)
qed

lemma decode_block_loop_number:
  assumes "i + length cs \<le> 11" and "cs \<noteq> [] \<Longrightarrow> unat order = 58 ^ i"
  shows "decode_block_loop cs r order =
    (if valid58 cs \<and> unat r + 58 ^ i * number58 (rev cs) < 2 ^ 64
     then Some (of_nat (unat r + 58 ^ i * number58 (rev cs))) else None)"
  using assms
proof (induction cs arbitrary: i r order)
  case Nil
  then show ?case using unat_u64_bound [of r] by (simp add: valid58_def number58_def)
next
  case (Cons c cs)
  define d where "d = reverse_alphabet c"
  show ?case
  proof (cases "d < 0")
    case True
    then show ?thesis by (simp add: d_def valid58_def Let_def)
  next
    case False
    then have "(of_int d :: u64) = of_nat (nat d)" by (simp add: of_nat_nat)
    moreover have "nat d < 58" using False reverse_alphabet_inverse(1) [of c] by (simp add: d_def nat_less_iff)
    ultimately have d: "unat (of_int d :: u64) = nat d"
      by (simp only: unsigned_of_nat) (simp add: take_bit_nat_eq_self)
    have order: "unat order = 58 ^ i" using Cons.prems(2) by simp
    note step = mul_add_checked [of r order "of_int d", unfolded d order]
    have val: "58 ^ i * number58 (rev (c # cs)) = 58 ^ i * nat d + 58 ^ Suc i * number58 (rev cs)"
      by (simp add: number58_def d_def algebra_simps)
    show ?thesis
    proof (cases "2 ^ 64 \<le> unat r + 58 ^ i * nat d")
      case True
      then have "decode_block_loop (c # cs) r order = None"
        using False step(1) by (simp add: Let_def case_prod_beta flip: d_def)
      with True val show ?thesis by simp
    next
      case fits: False
      define t where "t = r + fst (mul128 order (of_int d))"
      have t: "unat t = unat r + 58 ^ i * nat d" using step(2) fits by (simp add: t_def)
      have "decode_block_loop (c # cs) r order = decode_block_loop cs t (order * 58)"
        using False fits step(1) by (simp add: Let_def case_prod_beta t_def flip: d_def)
      moreover have "cs \<noteq> [] \<Longrightarrow> unat (order * 58) = 58 ^ Suc i"
      proof -
        assume "cs \<noteq> []"
        then have "Suc i \<le> 10" using Cons.prems(1) by (cases cs) auto
        then have "(58 :: nat) ^ Suc i \<le> 58 ^ 10" by (intro power_increasing) auto
        then show ?thesis by (simp add: unat_mult_u64 order)
      qed
      ultimately have "decode_block_loop (c # cs) r order =
        (if valid58 cs \<and> unat t + 58 ^ Suc i * number58 (rev cs) < 2 ^ 64
         then Some (of_nat (unat t + 58 ^ Suc i * number58 (rev cs))) else None)"
        using Cons.IH [of "Suc i" "order * 58" t] Cons.prems(1) by simp
      moreover have "valid58 (c # cs) \<longleftrightarrow> valid58 cs" using False by (simp add: valid58_def d_def)
      ultimately show ?thesis by (simp only: t val add.assoc)
    qed
  qed
qed

section \<open>Blocks as a canonical code\<close>

definition block58 :: "bytes \<Rightarrow> bytes" where
  "block58 b = letters58 (encoded_block_sizes ! length b) (le_nat (rev b))"

definition unblock58 :: "bytes \<Rightarrow> bytes option" where
  "unblock58 c =
    (if length c > 11 \<or> decoded_block_sizes (length c) \<le> 0 \<or> \<not> valid58 c
       \<or> 256 ^ nat (decoded_block_sizes (length c)) \<le> number58 c then None
     else Some (uint_64_to_8be (of_nat (number58 c)) (nat (decoded_block_sizes (length c)))))"

lemma length_block58: "length (block58 b) = encoded_block_sizes ! length b"
  by (simp add: block58_def)

lemma block58_Nil [simp]: "block58 [] = []"
  by (simp add: block58_def letters58_def encoded_block_sizes_def)

lemma length_block58_8: "length b = 8 \<Longrightarrow> length (block58 b) = 11"
  by (simp add: length_block58 encoded_block_sizes_def)

lemma number58_block58: "length b \<le> 8 \<Longrightarrow> number58 (block58 b) = le_nat (rev b)"
  unfolding block58_def
  using le_nat_bound [of "rev b"] encoded_block_sizes_bounds(1) [of "length b"]
  by (intro number58_letters58) simp

lemma pow256_le: "k \<le> 8 \<Longrightarrow> (256 :: nat) ^ k \<le> 2 ^ 64"
  using power_increasing [of k 8 "256 :: nat"] by simp

lemma unblock58_block58:
  assumes "0 < length b" "length b \<le> 8"
  shows "unblock58 (block58 b) = Some b"
proof -
  have size: "decoded_block_sizes (length (block58 b)) = int (length b)"
    using assms encoded_block_sizes_bounds(2) [of "length b"]
    by (subst decoded_block_sizes_iff) (simp_all add: length_block58)
  have small: "le_nat (rev b) < 256 ^ length b" using le_nat_bound [of "rev b"] by simp
  then have "unat (of_nat (le_nat (rev b)) :: u64) = le_nat (rev b)"
    using pow256_le [OF assms(2)] by (intro unat_of_nat_u64) linarith
  then have "uint_64_to_8be (of_nat (le_nat (rev b))) (length b) = b"
    by (rule uint_8be_roundtrip [OF assms(2)])
  then show ?thesis
    using assms size small encoded_block_sizes_bounds(2) [of "length b"] valid58_letters58
    by (simp add: unblock58_def number58_block58 length_block58) (simp add: block58_def)
qed

lemma block58_unblock58:
  assumes "unblock58 c = Some b"
  shows "0 < length b" "length b \<le> 8" "length c = encoded_block_sizes ! length b" "block58 b = c"
proof -
  define k where "k = nat (decoded_block_sizes (length c))"
  have c: "length c \<le> 11" "0 < k" "valid58 c" "number58 c < 256 ^ k" "b = uint_64_to_8be (of_nat (number58 c)) k"
    using assms by (auto simp: unblock58_def k_def split: if_splits)
  then have "decoded_block_sizes (length c) = int k" by (simp add: k_def)
  then have k: "k \<le> 8" "encoded_block_sizes ! k = length c"
    using decoded_block_sizes_iff [OF c(1)] by blast+
  then have len: "length b = k" by (simp add: c(5) length_uint_64_to_8be)
  with c k show "0 < length b" "length b \<le> 8" "length c = encoded_block_sizes ! length b" by simp_all
  have "unat (of_nat (number58 c) :: u64) = number58 c"
    using c(4) pow256_le [OF k(1)] by (intro unat_of_nat_u64) linarith
  then have "le_nat (rev b) = number58 c"
    using uint_64_to_8be_nat [OF k(1), of "of_nat (number58 c)"] c(4,5) by simp
  with letters58_number58 [OF c(3)] show "block58 b = c" by (simp add: block58_def len k(2))
qed

interpretation block58: canonical_codec block58 unblock58 "\<lambda>b. 0 < length b \<and> length b \<le> 8"
  by unfold_locales (auto dest: block58_unblock58 simp: unblock58_block58)

lemma encode_block_block58:
  assumes "sz \<le> 8" "sz \<le> length b" "off + encoded_block_sizes ! sz \<le> length res"
    and "take (encoded_block_sizes ! sz) (drop off res) = replicate (encoded_block_sizes ! sz) (alphabet ! 0)"
  shows "encode_block b sz off res = Some (memcpy_at res off (block58 (take sz b)))"
proof -
  have n: "unat (uint_8be_to_64 b sz) = le_nat (rev (take sz b))"
    using assms by (intro unat_uint_8be_to_64)
  have "unat (uint_8be_to_64 b sz) < 58 ^ (encoded_block_sizes ! sz)"
    using le_nat_bound [of "rev (take sz b)"] encoded_block_sizes_bounds(1) [OF assms(1)] assms(2)
    by (simp add: n min_absorb2)
  from encode_block_loop_letters [OF this assms(3,4)]
  show ?thesis using assms(2) by (simp add: encode_block_def n block58_def min_absorb2)
qed

lemma push_bit_one_u64: "k < 64 \<Longrightarrow> unat (push_bit k 1 :: u64) = 2 ^ k"
proof -
  assume "k < 64"
  then have "(2 :: nat) ^ k < 2 ^ 64" by (intro power_strict_increasing) auto
  then show ?thesis by (simp only: unat_push_bit_u64) simp
qed

lemma decode_block_unblock58:
  assumes "n \<le> 11" "n \<le> length c"
  shows "decode_block c n off res = map_option (memcpy_at res off) (unblock58 (take n c))"
proof -
  have c: "min (length c) n = n" using assms by simp
  show ?thesis
  proof (cases "decoded_block_sizes n \<le> 0")
    case True
    then show ?thesis by (simp add: decode_block_def unblock58_def c)
  next
    case False
    define k where "k = nat (decoded_block_sizes n)"
    have k: "decoded_block_sizes n = int k" "0 < k" "k \<le> 8"
      using False decoded_block_sizes_iff [OF assms(1), of k] by (auto simp: k_def)
    have num: "decode_block_loop (rev (take n c)) 0 1 =
        (if valid58 (take n c) \<and> number58 (take n c) < 2 ^ 64 then Some (of_nat (number58 (take n c))) else None)"
      using decode_block_loop_number [of 0 "rev (take n c)" 1 0] assms c by (simp add: valid58_def)
    have guard: "k < 8 \<Longrightarrow> m < 2 ^ 64 \<Longrightarrow> push_bit (8 * k) (1 :: u64) \<le> of_nat m \<longleftrightarrow> 256 ^ k \<le> m" for m
    proof -
      assume "k < 8" "m < 2 ^ 64"
      moreover have "(256 :: nat) ^ k = 2 ^ (8 * k)" by (simp add: power_mult)
      ultimately show ?thesis by (simp only: u64_le_iff unat_of_nat_u64 push_bit_one_u64)
    qed
    show ?thesis
    proof (cases "valid58 (take n c) \<and> number58 (take n c) < 2 ^ 64")
      case True
      moreover have "k < 8 \<or> 2 ^ 64 = (256 :: nat) ^ k" using k(3) by (cases "k = 8") auto
      ultimately show ?thesis using guard [of "number58 (take n c)"] k assms(1)
        by (auto simp: decode_block_def unblock58_def c num Let_def)
    next
      case False
      then show ?thesis using k assms(1) pow256_le [OF k(3)]
        by (auto simp: decode_block_def unblock58_def c num Let_def)
    qed
  qed
qed

section \<open>Whole strings\<close>

text \<open>The reference: blocks of eight bytes, then what is left.\<close>

definition b58_encode :: "bytes \<Rightarrow> bytes" where
  "b58_encode data =
    concat (map block58 (pieces 8 (length data div 8) data)) @ block58 (drop (length data div 8 * 8) data)"

definition b58_decode :: "bytes \<Rightarrow> bytes option" where
  "b58_decode enc =
    (let k = length enc div 11; r = drop (k * 11) enc
     in case those (map unblock58 (pieces 11 k enc)) of
          None \<Rightarrow> None
        | Some bs \<Rightarrow> if r = [] then Some (concat bs) else map_option ((@) (concat bs)) (unblock58 r))"

lemma those_eq_Some: "those xs = Some ys \<longleftrightarrow> xs = map Some ys"
proof (induction xs arbitrary: ys)
  case (Cons x xs)
  then show ?case by (cases ys) (auto split: option.splits)
qed auto

lemma those_snoc: "those (xs @ [x]) = (case those xs of None \<Rightarrow> None | Some ys \<Rightarrow> map_option (\<lambda>y. ys @ [y]) x)"
  by (induction xs) (auto split: option.splits simp: option.map_comp comp_def)

lemma encode_blocks_append:
  "encode_blocks (is @ js) data res = Option.bind (encode_blocks is data res) (encode_blocks js data)"
proof (induction "is" arbitrary: res)
  case (Cons i "is")
  then show ?case by (cases "encode_block (drop (i * 8) data) 8 (i * 11) res") simp_all
qed simp

lemma decode_blocks_append:
  "decode_blocks (is @ js) enc data = Option.bind (decode_blocks is enc data) (decode_blocks js enc)"
proof (induction "is" arbitrary: data)
  case (Cons i "is")
  then show ?case by (cases "decode_block (drop (i * 11) enc) 11 (i * 8) data") simp_all
qed simp

lemma memcpy_replicate:
  "length s \<le> m \<Longrightarrow> memcpy_at (a @ replicate m x) (length a) s = (a @ s) @ replicate (m - length s) x"
  by (simp add: memcpy_at_def)

lemma length_concat_block58:
  "k * 8 \<le> length data \<Longrightarrow> length (concat (map block58 (pieces 8 k data))) = k * 11"
  using length_concat_const [of "map block58 (pieces 8 k data)" 11]
  by (auto simp: length_piece length_block58_8)

lemma encode_blocks_pieces:
  assumes "k * 8 \<le> length data" "k * 11 \<le> n"
  shows "encode_blocks [0..<k] data (replicate n (alphabet ! 0))
    = Some (concat (map block58 (pieces 8 k data)) @ replicate (n - k * 11) (alphabet ! 0))"
  using assms
proof (induction k)
  case (Suc k)
  let ?a = "concat (map block58 (pieces 8 k data))" and ?b = "take 8 (drop (k * 8) data)"
  have len: "length ?a = k * 11" using Suc.prems by (intro length_concat_block58) simp
  have b: "length (block58 ?b) = 11" using Suc.prems by (intro length_block58_8) simp
  have "encode_block (drop (k * 8) data) 8 (k * 11) (?a @ replicate (n - k * 11) (alphabet ! 0))
      = Some (memcpy_at (?a @ replicate (n - k * 11) (alphabet ! 0)) (length ?a) (block58 ?b))"
    using Suc.prems len by (subst encode_block_block58) (simp_all add: encoded_block_sizes_def)
  also have "\<dots> = Some ((?a @ block58 ?b) @ replicate (n - k * 11 - 11) (alphabet ! 0))"
    using Suc.prems b by (subst memcpy_replicate) simp_all
  finally show ?case
    using Suc by (simp add: encode_blocks_append pieces_def)
qed (simp add: pieces_def)

lemma encode_b58: "encode data = Some (b58_encode data)"
proof (cases "data = []")
  case True
  then show ?thesis by (simp add: encode_def b58_encode_def pieces_def)
next
  case False
  define k l where "k = length data div 8" and "l = length data mod 8"
  have l: "l < 8" "length (drop (k * 8) data) = l" "k * 8 \<le> length data"
    by (simp_all add: k_def l_def modulo_nat_def mult.commute)
  let ?a = "concat (map block58 (pieces 8 k data))" and ?n = "encoded_block_sizes ! l"
  have "encode_blocks [0..<k] data (replicate (k * 11 + ?n) (alphabet ! 0)) = Some (?a @ replicate ?n (alphabet ! 0))"
    using l by (subst encode_blocks_pieces) simp_all
  moreover have "encode_block (drop (k * 8) data) l (k * 11) (?a @ replicate ?n (alphabet ! 0))
      = Some (?a @ block58 (drop (k * 8) data))"
    using l length_concat_block58 [OF l(3)] memcpy_replicate [of "block58 (drop (k * 8) data)" ?n ?a]
    by (subst encode_block_block58) (simp_all add: length_block58)
  moreover have "l = 0 \<Longrightarrow> block58 (drop (k * 8) data) = [] \<and> ?n = 0" using l(2) by (simp add: encoded_block_sizes_def)
  ultimately show ?thesis
    using False by (auto simp: encode_def b58_encode_def Let_def simp flip: k_def l_def)
qed

lemma length_unblock58_11: "unblock58 c = Some b \<Longrightarrow> length c = 11 \<Longrightarrow> length b = 8"
  using block58_unblock58(2,3) [of c b] encoded_block_sizes_bounds(3) [of "length b"] by force

lemma unblock58_pieces_length:
  assumes "map Some bs = map unblock58 (pieces 11 k enc)" "k * 11 \<le> length enc"
  shows "length bs = k" "\<forall>b\<in>set bs. length b = 8" "length (concat bs) = k * 8"
proof -
  have len: "length bs = k" using arg_cong [OF assms(1), of length] by simp
  moreover have b: "\<forall>b\<in>set bs. length b = 8"
  proof
    fix b assume "b \<in> set bs"
    then have "Some b \<in> set (map unblock58 (pieces 11 k enc))" by (simp flip: assms(1))
    then obtain c where "c \<in> set (pieces 11 k enc)" "unblock58 c = Some b" by auto
    with assms(2) show "length b = 8" using length_unblock58_11 length_piece by blast
  qed
  ultimately show "length bs = k" "\<forall>b\<in>set bs. length b = 8" "length (concat bs) = k * 8"
    using length_concat_const [OF b] by simp_all
qed

lemma decode_blocks_pieces:
  assumes "k * 11 \<le> length enc" "k * 8 \<le> length buf"
  shows "decode_blocks [0..<k] enc buf = map_option (\<lambda>bs. memcpy_at buf 0 (concat bs)) (those (map unblock58 (pieces 11 k enc)))"
  using assms
proof (induction k)
  case (Suc k)
  have IH: "decode_blocks [0..<k] enc buf
      = map_option (\<lambda>bs. memcpy_at buf 0 (concat bs)) (those (map unblock58 (pieces 11 k enc)))"
    using Suc by simp
  have block: "decode_block (drop (k * 11) enc) 11 (k * 8) b
      = map_option (memcpy_at b (k * 8)) (unblock58 (take 11 (drop (k * 11) enc)))" for b
    using Suc.prems by (intro decode_block_unblock58) simp_all
  have "memcpy_at (memcpy_at buf 0 (concat bs)) (k * 8) b = memcpy_at buf 0 (concat bs @ b)"
    if "those (map unblock58 (pieces 11 k enc)) = Some bs" for bs b
  proof -
    have "map Some bs = map unblock58 (pieces 11 k enc)" using that by (simp add: those_eq_Some)
    from unblock58_pieces_length(3) [OF this] have "length (concat bs) = k * 8" using Suc.prems(1) by simp
    then show ?thesis by (simp add: memcpy_at_def add.commute)
  qed
  with IH block show ?case
    by (cases "those (map unblock58 (pieces 11 k enc))"; cases "unblock58 (take 11 (drop (k * 11) enc))")
      (auto simp: decode_blocks_append pieces_def those_snoc option.map_comp comp_def)
qed (simp add: pieces_def memcpy_at_def)

lemma decode_b58: "decode enc buf = b58_decode enc"
proof (cases "enc = []")
  case True
  then show ?thesis by (simp add: decode_def b58_decode_def pieces_def)
next
  case False
  define k l where "k = length enc div 11" and "l = length enc mod 11"
  define z where "z = decoded_block_sizes l"
  let ?r = "drop (k * 11) enc" and ?buf = "resize buf (k * 8 + nat z) 0"
  have l: "l < 11" "length ?r = l" "k * 11 \<le> length enc"
    by (simp_all add: k_def l_def modulo_nat_def mult.commute)
  have z0: "z = 0 \<longleftrightarrow> l = 0"
    using decoded_block_sizes_iff [of l 0] l(1) by (auto simp: z_def encoded_block_sizes_def)
  have loop: "decode_blocks [0..<k] enc ?buf
      = map_option (\<lambda>bs. memcpy_at ?buf 0 (concat bs)) (those (map unblock58 (pieces 11 k enc)))"
    using l(3) by (intro decode_blocks_pieces) simp_all
  have last: "decode_block ?r l (k * 8) b = map_option (memcpy_at b (k * 8)) (unblock58 ?r)" for b
    using l decode_block_unblock58 [of l ?r] by simp
  have dec: "decode enc buf = (if z < 0 then None else case decode_blocks [0..<k] enc ?buf of
      None \<Rightarrow> None | Some d \<Rightarrow> if 0 < l then decode_block ?r l (k * 8) d else Some d)"
    unfolding decode_def Let_def block_sizes k_def l_def z_def using False by simp
  show ?thesis
  proof (cases "those (map unblock58 (pieces 11 k enc))")
    case None
    then show ?thesis using loop dec by (simp add: b58_decode_def Let_def flip: k_def)
  next
    case (Some bs)
    then have len: "length (concat bs) = k * 8"
      using unblock58_pieces_length(3) [of bs k enc] l(3) by (simp add: those_eq_Some)
    have "memcpy_at (memcpy_at ?buf 0 (concat bs)) (k * 8) b = concat bs @ b" if "unblock58 ?r = Some b" for b
    proof -
      note b = block58_unblock58(1,2,3) [OF that, unfolded l(2)]
      then have "z = int (length b)" using l(1) decoded_block_sizes_iff [of l "length b"] by (simp add: z_def)
      with len show ?thesis by (simp add: memcpy_at_def)
    qed
    moreover have "z < 0 \<Longrightarrow> unblock58 ?r = None" using l by (simp add: unblock58_def z_def)
    moreover have "l = 0 \<Longrightarrow> memcpy_at ?buf 0 (concat bs) = concat bs"
      using len z0 by (simp add: memcpy_at_def)
    moreover have "?r = [] \<longleftrightarrow> l = 0" using l(2) by auto
    moreover have "b58_decode enc = (if ?r = [] then Some (concat bs) else map_option ((@) (concat bs)) (unblock58 ?r))"
      using Some by (simp add: b58_decode_def Let_def flip: k_def)
    ultimately show ?thesis
      using loop last Some z0 dec by (cases "unblock58 ?r"; cases "l = 0") auto
  qed
qed

lemma b58_decode_encode: "b58_decode (b58_encode data) = Some data"
proof -
  define k where "k = length data div 8"
  define bs r where "bs = pieces 8 k data" and "r = drop (k * 8) data"
  have k: "k * 8 \<le> length data" and r: "length r < 8"
    by (simp_all add: k_def r_def minus_div_mult_eq_mod [symmetric, of _ 8])
  have data: "concat bs @ r = data" by (simp add: bs_def r_def concat_pieces)
  have bs: "\<forall>b\<in>set bs. length b = 8" "length bs = k" using length_piece k by (auto simp: bs_def)
  have enc: "b58_encode data = concat (map block58 bs) @ block58 r"
    by (simp add: b58_encode_def bs_def r_def k_def)
  have c: "\<forall>c\<in>set (map block58 bs). length c = 11" using bs(1) length_block58_8 by auto
  have clen: "length (concat (map block58 bs)) = k * 11" using length_concat_const [OF c] bs(2) by simp
  have rlen: "length (block58 r) < 11" using r encoded_block_sizes_bounds(3) [of "length r"] by (simp add: length_block58)
  have "length (b58_encode data) div 11 = k" using clen rlen by (simp add: enc)
  moreover have "pieces 11 k (b58_encode data) = map block58 bs"
    using pieces_concat [OF c, of "block58 r"] bs(2) by (simp add: enc)
  moreover have "those (map unblock58 (map block58 bs)) = Some bs"
    using bs(1) by (subst those_eq_Some) (auto simp: unblock58_block58)
  moreover have "drop (k * 11) (b58_encode data) = block58 r" using clen by (simp add: enc)
  moreover have "block58 r = [] \<longleftrightarrow> r = []"
    using r encoded_block_sizes_bounds(4) [of "length r"] by (metis block58_Nil length_block58 length_greater_0_conv less_imp_le)
  ultimately have "b58_decode (b58_encode data)
      = (if r = [] then Some (concat bs) else map_option ((@) (concat bs)) (unblock58 (block58 r)))"
    by (simp only: b58_decode_def Let_def option.case)
  then show ?thesis using data r by (auto simp: unblock58_block58)
qed

lemma b58_encode_decode:
  assumes "b58_decode enc = Some data"
  shows "b58_encode data = enc"
proof -
  define k where "k = length enc div 11"
  define r where "r = drop (k * 11) enc"
  have k: "k * 11 \<le> length enc" by (simp add: k_def)
  obtain bs where bs: "map unblock58 (pieces 11 k enc) = map Some bs"
    and data: "data = concat bs \<and> r = [] \<or> (\<exists>b. r \<noteq> [] \<and> unblock58 r = Some b \<and> data = concat bs @ b)"
    using assms by (auto simp: b58_decode_def Let_def those_eq_Some simp flip: k_def r_def split: option.splits if_splits)
  note len = unblock58_pieces_length [OF bs [symmetric] k]
  have "map block58 bs = pieces 11 k enc"
  proof (rule nth_equalityI)
    fix i assume "i < length (map block58 bs)"
    then show "map block58 bs ! i = pieces 11 k enc ! i"
      using arg_cong [OF bs, of "\<lambda>xs. xs ! i"] len(1) block58_unblock58(4) by simp
  qed (simp add: len(1))
  then have pieces: "concat (map block58 bs) = take (k * 11) enc" by (simp add: concat_pieces)
  define b where "b = drop (k * 8) data"
  have b: "block58 b = r" "length b < 8" "data = concat bs @ b"
  proof -
    have "length r < 11" by (simp add: r_def k_def minus_div_mult_eq_mod [symmetric, of _ 11])
    then have "unblock58 r = Some b' \<Longrightarrow> length b' < 8" for b'
      using block58_unblock58(2,3) [of r b'] by (cases "length b' = 8") (auto simp: encoded_block_sizes_def)
    with data len(3) block58_unblock58(4) show "block58 b = r" "length b < 8" "data = concat bs @ b"
      by (auto simp: b_def)
  qed
  have "length data div 8 = k" using b(2,3) len(3) by simp
  moreover have "pieces 8 k data = bs" using pieces_concat [OF len(2), of b] len(1) b(3) by simp
  ultimately show ?thesis using pieces b(1) by (simp add: b58_encode_def r_def flip: b_def)
qed

interpretation base58: canonical_codec b58_encode "\<lambda>enc. decode enc buf" "\<lambda>_. True"
  by unfold_locales (simp_all add: decode_b58 b58_decode_encode b58_encode_decode)

section \<open>Addresses\<close>

definition addr_buffer :: "bytes \<Rightarrow> bytes" where
  "addr_buffer buf = buf @ take 4 (cn_fast_hash buf)"

lemma encode_addr_b58: "encode_addr tag data = Some (b58_encode (addr_buffer (write_varint tag @ data)))"
  by (simp add: encode_addr_def encode_b58 addr_buffer_def get_varint_data_def Let_def)

text \<open>What \<open>decode_addr\<close> accepts: a checksummed buffer that starts with a varint.\<close>

lemma decode_addr_iff:
  "decode_addr addr = Some (tag, data) \<longleftrightarrow>
    (\<exists>buf read rest. addr = b58_encode (addr_buffer buf) \<and> buf \<noteq> [] \<and> read_varint buf = (read, tag, rest)
      \<and> 0 < read \<and> data = drop (nat read) buf)"
proof -
  have split: "length ad > 4 \<and> take 4 (cn_fast_hash (take (length ad - 4) ad)) = drop (length ad - 4) ad
      \<and> buf = take (length ad - 4) ad \<longleftrightarrow> buf \<noteq> [] \<and> ad = addr_buffer buf" for ad buf
    by (auto simp: addr_buffer_def)
  have "decode_addr addr = Some (tag, data) \<longleftrightarrow> (\<exists>ad buf read rest. decode addr [] = Some ad
      \<and> (length ad > 4 \<and> take 4 (cn_fast_hash (take (length ad - 4) ad)) = drop (length ad - 4) ad
         \<and> buf = take (length ad - 4) ad)
      \<and> read_varint buf = (read, tag, rest) \<and> 0 < read \<and> data = drop (nat read) buf)"
    by (auto simp: decode_addr_def Let_def not_le split: option.splits prod.splits if_splits)
  also have "\<dots> \<longleftrightarrow> (\<exists>buf read rest. addr = b58_encode (addr_buffer buf) \<and> buf \<noteq> [] \<and> read_varint buf = (read, tag, rest)
      \<and> 0 < read \<and> data = drop (nat read) buf)"
    unfolding split base58.dec_iff by auto
  finally show ?thesis .
qed

lemma decode_encode_addr: "decode_addr (b58_encode (addr_buffer (write_varint tag @ data))) = Some (tag, data)"
  unfolding decode_addr_iff
  using read_write_varint [of tag data] length_write_varint_pos [of tag]
  by (intro exI [of _ "write_varint tag @ data"]) simp

lemma encode_decode_addr:
  assumes "decode_addr addr = Some (tag, data)" "data \<noteq> []"
  shows "addr = b58_encode (addr_buffer (write_varint tag @ data))"
proof -
  obtain buf read rest where buf: "addr = b58_encode (addr_buffer buf)" "read_varint buf = (read, tag, rest)"
    "0 < read" "data = drop (nat read) buf"
    using assms(1) by (auto simp: decode_addr_iff)
  have rest: "rest = data" using read_varint_rest(1) [OF buf(2)] buf(3,4) by simp
  then have "last (take (nat read) buf) AND 0x80 = 0"
    using read_varint_rest(2) [OF buf(2)] buf(3) assms(2) by simp
  then have "buf = write_varint tag @ data"
    using read_varint_reencode [OF _ buf(2,3)] rest by simp
  with buf(1) show ?thesis by simp
qed

section \<open>Properties\<close>

text \<open>C20: base 58 is a bijective code. \<open>encode\<close> never writes outside its buffer and is total, and
  \<open>decode\<close>, whatever the output string held before, returns \<open>data\<close> for exactly one string, the one
  \<open>encode\<close> makes of \<open>data\<close>: every other string (bad length, bad letter, a block whose number
  overflows) is refused.\<close>

theorem base58_codec:
  "encode data \<noteq> None \<and> (decode enc buf = Some data \<longleftrightarrow> encode data = Some enc)"
  by (auto simp: encode_b58 base58.dec_iff)

text \<open>C19: address strings are a bijective code on tags with non-empty payloads: \<open>decode_addr\<close> returns
  a tag and a payload exactly for the string \<open>encode_addr\<close> makes of them, so a checked address has
  one spelling.\<close>

theorem address_codec:
  assumes "data \<noteq> []"
  shows "decode_addr addr = Some (tag, data) \<longleftrightarrow> encode_addr tag data = Some addr"
  using assms decode_encode_addr encode_decode_addr by (auto simp: encode_addr_b58)

theorem address_codec_witness:
  "\<exists>addr. [1, 2, 3 :: u8] \<noteq> [] \<and> decode_addr addr = Some (0x3800, [1, 2, 3]) \<and> encode_addr 0x3800 [1, 2, 3] = Some addr"
  using address_codec [of "[1, 2, 3]" "the (encode_addr 0x3800 [1, 2, 3])" "0x3800"]
  by (auto simp: encode_addr_b58)


end
