(* ===== verification/Tree_Hash.thy ===== *)
theory Tree_Hash
  imports Keccak
begin

text \<open>
  The hash tree over the transaction hashes of a block, \<open>src/crypto/tree-hash.c\<close>. The
  array of hashes is a list of 32-byte strings; \<open>ints\<close>, the working array in which the
  levels of the tree are folded in place, is another. A failing \<open>assert\<close> is \<open>None\<close>.
\<close>

section \<open>Definitions\<close>

text \<open>The doubling loop, started with \<open>pow = 2\<close>; \<open>count\<close> is at most \<open>2 ^ 28\<close>, so \<open>pow\<close> never
  leaves \<open>size_t\<close>.\<close>

function tree_hash_pow :: "nat \<Rightarrow> nat \<Rightarrow> nat" where
  "tree_hash_pow count pow = (if 0 < pow \<and> pow < count then tree_hash_pow count (pow * 2) else pow)"
  by pat_completeness auto
termination
  by (relation "measure (\<lambda>(count, pow). count - pow)") auto

declare tree_hash_pow.simps [simp del]

definition tree_hash_cnt :: "nat \<Rightarrow> nat option" where
  "tree_hash_cnt count =
    (if count < 3 \<or> count > 0x10000000 then None else Some (tree_hash_pow count 2 div 2))"

text \<open>The loop that hashes the pairs of the lowest level from \<open>hashes\<close> into \<open>ints\<close>.\<close>

function tree_hash_leaves :: "hash list \<Rightarrow> nat \<Rightarrow> nat \<Rightarrow> nat \<Rightarrow> hash list \<Rightarrow> nat \<times> hash list" where
  "tree_hash_leaves hashes cnt i j ints =
    (if j < cnt
     then tree_hash_leaves hashes cnt (i + 2) (j + 1) (ints[j := cn_fast_hash (hashes ! i @ hashes ! (i + 1))])
     else (i, ints))"
  by pat_completeness auto
termination
  by (relation "measure (\<lambda>(hashes, cnt, i, j, ints). cnt - j)") auto

declare tree_hash_leaves.simps [simp del]

text \<open>One level, in place: \<open>ints[j] = H(ints[2 j], ints[2 j + 1])\<close> for ascending \<open>j\<close>.\<close>

definition tree_hash_level :: "nat \<Rightarrow> hash list \<Rightarrow> hash list" where
  "tree_hash_level cnt ints =
    fold (\<lambda>j ints. ints[j := cn_fast_hash (ints ! (2 * j) @ ints ! (2 * j + 1))]) [0..<cnt] ints"

function tree_hash_levels :: "nat \<Rightarrow> hash list \<Rightarrow> hash list" where
  "tree_hash_levels cnt ints =
    (if cnt > 2 then tree_hash_levels (cnt div 2) (tree_hash_level (cnt div 2) ints) else ints)"
  by pat_completeness auto
termination
  by (relation "measure fst") auto

declare tree_hash_levels.simps [simp del]

definition tree_hash :: "hash list \<Rightarrow> hash option" where
  "tree_hash hashes =
    (let count = length hashes
     in if count = 0 then None
        else if count = 1 then Some (hashes ! 0)
        else if count = 2 then Some (cn_fast_hash (hashes ! 0 @ hashes ! 1))
        else case tree_hash_cnt count of
               None \<Rightarrow> None
             | Some cnt \<Rightarrow>
                 let ints = memcpy_at (replicate cnt (replicate HASH_SIZE 0)) 0 (take (2 * cnt - count) hashes);
                     (i, ints) = tree_hash_leaves hashes cnt (2 * cnt - count) (2 * cnt - count) ints
                 in if i \<noteq> count then None
                    else let ints = tree_hash_levels cnt ints
                         in Some (cn_fast_hash (ints ! 0 @ ints ! 1)))"

section \<open>The number of nodes of the level below the leaves\<close>

lemma tree_hash_pow_power:
  "0 < m \<Longrightarrow> 2 ^ (m - 1) < count \<Longrightarrow> \<exists>k > 0. tree_hash_pow count (2 ^ m) = 2 ^ k \<and> 2 ^ (k - 1) < count \<and> count \<le> 2 ^ k"
proof (induction "count - 2 ^ m" arbitrary: m rule: less_induct)
  case less
  show ?case
  proof (cases "2 ^ m < count")
    case True
    then have "count - 2 ^ Suc m < count - 2 ^ m" by (intro diff_less_mono2) simp_all
    from less.hyps [OF this] True show ?thesis by (subst tree_hash_pow.simps) (simp add: mult.commute)
  next
    case False
    with less.prems show ?thesis by (subst tree_hash_pow.simps) auto
  qed
qed

lemma tree_hash_cnt_power:
  assumes "3 \<le> count" "count \<le> 0x10000000"
  obtains k where "0 < k" "tree_hash_cnt count = Some (2 ^ k)" "2 ^ k < count" "count \<le> 2 * 2 ^ k"
proof -
  obtain k where k: "0 < k" "tree_hash_pow count 2 = 2 ^ k" "2 ^ (k - 1) < count" "count \<le> 2 ^ k"
    using tree_hash_pow_power [of 1 count] assms(1) by auto
  have "k \<noteq> 1" using k(4) assms(1) by auto
  with k(1) obtain j where j: "k = Suc j" "0 < j" by (cases k) auto
  with k assms show ?thesis by (intro that [of j]) (auto simp: tree_hash_cnt_def)
qed

section \<open>The levels\<close>

text \<open>The reference: pair the nodes of a level until one is left.\<close>

fun pair_up :: "hash list \<Rightarrow> hash list" where
  "pair_up (a # b # hs) = cn_fast_hash (a @ b) # pair_up hs"
| "pair_up hs = hs"

fun merkle :: "nat \<Rightarrow> hash list \<Rightarrow> hash" where
  "merkle 0 hs = hd hs"
| "merkle (Suc k) hs = merkle k (pair_up hs)"

lemma pair_up_map:
  "length hs = 2 * n \<Longrightarrow> pair_up hs = map (\<lambda>j. cn_fast_hash (hs ! (2 * j) @ hs ! (2 * j + 1))) [0..<n]"
proof (induction hs arbitrary: n rule: pair_up.induct)
  case (1 a b hs)
  then obtain m where m: "n = Suc m" "length hs = 2 * m" by (cases n) auto
  have "[0..<Suc m] = 0 # map Suc [0..<m]" by (simp add: map_Suc_upt upt_conv_Cons del: upt_Suc)
  with 1 m show ?case by (simp add: comp_def)
qed auto

lemma length_pair_up: "length hs = 2 * n \<Longrightarrow> length (pair_up hs) = n"
  by (simp add: pair_up_map)

text \<open>Folding in place is safe: a slot is overwritten only after both nodes that need it were read.\<close>

lemma tree_hash_level_prefix:
  assumes "2 * n \<le> length ints" "m \<le> n"
  shows "fold (\<lambda>j ints. ints[j := cn_fast_hash (ints ! (2 * j) @ ints ! (2 * j + 1))]) [0..<m] ints
    = map (\<lambda>j. cn_fast_hash (ints ! (2 * j) @ ints ! (2 * j + 1))) [0..<m] @ drop m ints"
  using assms(2)
proof (induction m)
  case (Suc m)
  let ?f = "\<lambda>j. cn_fast_hash (ints ! (2 * j) @ ints ! (2 * j + 1))"
  let ?s = "map ?f [0..<m] @ drop m ints"
  have at: "?s ! i = ints ! i" if "m \<le> i" "i < length ints" for i
    using that by (simp add: nth_append)
  have len: "2 * m + 1 < length ints" using Suc.prems assms(1) by simp
  have "?s[m := cn_fast_hash (?s ! (2 * m) @ ?s ! (2 * m + 1))] = ?s[m := ?f m]"
    using at [of "2 * m"] at [of "2 * m + 1"] len by simp
  also have "\<dots> = map ?f [0..<Suc m] @ drop (Suc m) ints"
    using len by (simp add: list_update_append Cons_nth_drop_Suc [symmetric])
  finally show ?case using Suc by simp
qed simp

lemma tree_hash_level_pair_up:
  assumes "2 * n \<le> length ints"
  shows "take n (tree_hash_level n ints) = pair_up (take (2 * n) ints)" "length (tree_hash_level n ints) = length ints"
proof -
  have "take n (tree_hash_level n ints) = map (\<lambda>j. cn_fast_hash (ints ! (2 * j) @ ints ! (2 * j + 1))) [0..<n]"
    unfolding tree_hash_level_def using tree_hash_level_prefix [OF assms, of n] by simp
  also have "\<dots> = pair_up (take (2 * n) ints)" using assms by (simp add: pair_up_map [of _ n])
  finally show "take n (tree_hash_level n ints) = pair_up (take (2 * n) ints)" .
  show "length (tree_hash_level n ints) = length ints"
    unfolding tree_hash_level_def using tree_hash_level_prefix [OF assms, of n] assms by simp
qed

lemma tree_hash_levels_merkle:
  assumes "0 < k" "2 ^ k \<le> length ints"
  shows "let r = tree_hash_levels (2 ^ k) ints in cn_fast_hash (r ! 0 @ r ! 1) = merkle k (take (2 ^ k) ints)"
  using assms
proof (induction k arbitrary: ints)
  case (Suc k)
  show ?case
  proof (cases "k = 0")
    case True
    then obtain a b r where "ints = a # b # r"
      using Suc.prems(2) by (cases ints; cases "tl ints") auto
    with True show ?thesis by (subst tree_hash_levels.simps) simp
  next
    case False
    let ?n = "2 ^ k :: nat" and ?ints = "tree_hash_level (2 ^ k) ints"
    have len: "2 * ?n \<le> length ints" using Suc.prems(2) by simp
    note level = tree_hash_level_pair_up [OF len]
    have "tree_hash_levels (2 ^ Suc k) ints = tree_hash_levels ?n ?ints"
      using False one_less_power [of "2 :: nat" k] by (subst tree_hash_levels.simps) simp
    moreover have "?n \<le> length ?ints" using level(2) len by simp
    ultimately show ?thesis using Suc.IH [of ?ints] False level(1) by simp
  qed
qed simp

text \<open>The leaves: the first \<open>2 cnt - count\<close> hashes stay, the others are paired.\<close>

lemma tree_hash_leaves_map:
  "i + 2 * (cnt - j) = length hashes \<Longrightarrow> length ints = cnt \<Longrightarrow> j \<le> cnt \<Longrightarrow>
    tree_hash_leaves hashes cnt i j ints = (length hashes, take j ints @ pair_up (drop i hashes))"
proof (induction hashes cnt i j ints rule: tree_hash_leaves.induct)
  case (1 hashes cnt i j ints)
  show ?case
  proof (cases "j < cnt")
    case True
    then have len: "i + 1 < length hashes" using "1.prems" by simp
    then have "drop i hashes = hashes ! i # hashes ! (i + 1) # drop (i + 2) hashes"
      by (simp add: Cons_nth_drop_Suc)
    with 1 True show ?thesis
      by (subst tree_hash_leaves.simps) (simp add: take_Suc_conv_app_nth)
  next
    case False
    with "1.prems" show ?thesis by (subst tree_hash_leaves.simps) simp
  qed
qed

text \<open>The whole function as a hash tree: the level of \<open>cnt\<close> nodes, then \<open>k\<close> rounds of pairing.\<close>

definition tree_level :: "nat \<Rightarrow> hash list \<Rightarrow> hash list" where
  "tree_level cnt hashes =
    take (2 * cnt - length hashes) hashes @ pair_up (drop (2 * cnt - length hashes) hashes)"

lemma tree_level_facts:
  assumes "cnt < length hashes" "length hashes \<le> 2 * cnt"
  shows "length (tree_level cnt hashes) = cnt"
    and "tree_hash_leaves hashes cnt (2 * cnt - length hashes) (2 * cnt - length hashes)
      (memcpy_at (replicate cnt z) 0 (take (2 * cnt - length hashes) hashes)) = (length hashes, tree_level cnt hashes)"
proof -
  let ?m = "2 * cnt - length hashes"
  have m: "?m + 2 * (cnt - ?m) = length hashes" "?m \<le> cnt" "?m \<le> length hashes" using assms by auto
  then have "length (drop ?m hashes) = 2 * (cnt - ?m)" by simp
  then show "length (tree_level cnt hashes) = cnt"
    using m by (simp add: tree_level_def length_pair_up min_absorb2)
  have "tree_hash_leaves hashes cnt ?m ?m (memcpy_at (replicate cnt z) 0 (take ?m hashes))
      = (length hashes, take ?m (memcpy_at (replicate cnt z) 0 (take ?m hashes)) @ pair_up (drop ?m hashes))"
    using m by (intro tree_hash_leaves_map) (simp_all add: length_memcpy_at)
  then show "tree_hash_leaves hashes cnt ?m ?m (memcpy_at (replicate cnt z) 0 (take ?m hashes))
      = (length hashes, tree_level cnt hashes)"
    using m by (simp add: tree_level_def memcpy_at_def)
qed

lemma tree_hash_merkle:
  assumes "3 \<le> length hashes" "length hashes \<le> 0x10000000"
  obtains k where "2 ^ k < length hashes" "length hashes \<le> 2 * 2 ^ k"
    "tree_hash hashes = Some (merkle k (tree_level (2 ^ k) hashes))"
proof -
  obtain k where k: "0 < k" "tree_hash_cnt (length hashes) = Some (2 ^ k)" "2 ^ k < length hashes"
    "length hashes \<le> 2 * 2 ^ k"
    using tree_hash_cnt_power [OF assms] by blast
  note facts = tree_level_facts [OF k(3,4)]
  have "tree_hash hashes = Some (merkle k (tree_level (2 ^ k) hashes))"
    using assms(1) k(2) facts tree_hash_levels_merkle [OF k(1), of "tree_level (2 ^ k) hashes"]
    by (auto simp: tree_hash_def Let_def)
  with k that show thesis by blast
qed

section \<open>Binding\<close>

text \<open>The strings that are hashed on the way to the root.\<close>

fun pair_inputs :: "hash list \<Rightarrow> bytes set" where
  "pair_inputs (a # b # hs) = insert (a @ b) (pair_inputs hs)"
| "pair_inputs hs = {}"

fun merkle_inputs :: "nat \<Rightarrow> hash list \<Rightarrow> bytes set" where
  "merkle_inputs 0 hs = {}"
| "merkle_inputs (Suc k) hs = pair_inputs hs \<union> merkle_inputs k (pair_up hs)"

definition tree_inputs :: "hash list \<Rightarrow> bytes set" where
  "tree_inputs hs =
    (if length hs = 2 then pair_inputs hs
     else let cnt = tree_hash_pow (length hs) 2 div 2
          in pair_inputs (drop (2 * cnt - length hs) hs) \<union> (\<Union>k\<in>{k. 2 ^ k = cnt}. merkle_inputs k (tree_level cnt hs)))"

definition hashes32 :: "hash list \<Rightarrow> bool" where
  "hashes32 hs \<longleftrightarrow> (\<forall>h\<in>set hs. length h = 32)"

lemma hashes32_pair_up: "hashes32 hs \<Longrightarrow> hashes32 (pair_up hs)"
  by (induction hs rule: pair_up.induct) (simp_all add: hashes32_def)

lemma hash_pair_binding:
  assumes "cn_fast_hash (a @ b) = cn_fast_hash (c @ d)" "inj_on cn_fast_hash S" "a @ b \<in> S" "c @ d \<in> S"
    and "length a = 32" "length c = 32"
  shows "a = c" "b = d"
proof -
  have "a @ b = c @ d" using assms(1-4) by (auto dest: inj_onD)
  with assms(5,6) show "a = c" "b = d" by simp_all
qed

lemma pair_up_binding:
  assumes "inj_on cn_fast_hash S"
  shows "length xs = length ys \<Longrightarrow> hashes32 xs \<Longrightarrow> hashes32 ys \<Longrightarrow> pair_inputs xs \<union> pair_inputs ys \<subseteq> S \<Longrightarrow> pair_up xs = pair_up ys \<Longrightarrow> xs = ys"
proof (induction xs arbitrary: ys rule: induct_list012)
  case (2 v)
  then show ?case by (cases ys; cases "tl ys") auto
next
  case (3 a b xs)
  then obtain c d zs where ys: "ys = c # d # zs" by (cases ys; cases "tl ys") auto
  with 3(3-7) have "a = c" "b = d" using hash_pair_binding [OF _ assms, of a b c d] by (simp_all add: hashes32_def)
  with 3(1) 3(3-7) ys show ?case by (simp add: hashes32_def)
qed simp

lemma merkle_binding:
  assumes "inj_on cn_fast_hash S"
  shows "length xs = 2 ^ k \<Longrightarrow> length ys = 2 ^ k \<Longrightarrow> hashes32 xs \<Longrightarrow> hashes32 ys \<Longrightarrow>
    merkle_inputs k xs \<union> merkle_inputs k ys \<subseteq> S \<Longrightarrow> merkle k xs = merkle k ys \<Longrightarrow> xs = ys"
proof (induction k arbitrary: xs ys)
  case 0
  then show ?case by (cases xs; cases ys) auto
next
  case (Suc k)
  then have "pair_up xs = pair_up ys" by (intro Suc.IH) (simp_all add: length_pair_up hashes32_pair_up)
  moreover have "length xs = length ys" using Suc.prems(1,2) by simp
  ultimately show ?case using pair_up_binding [OF assms] Suc.prems(3,4,5) by simp
qed

lemma hashes32_append: "hashes32 (xs @ ys) \<longleftrightarrow> hashes32 xs \<and> hashes32 ys"
  by (auto simp: hashes32_def)

lemma hashes32_take_drop: "hashes32 hs \<Longrightarrow> hashes32 (take n hs)" "hashes32 hs \<Longrightarrow> hashes32 (drop n hs)"
  by (auto simp: hashes32_def dest: in_set_takeD in_set_dropD)

lemma hashes32_tree_level: "hashes32 hs \<Longrightarrow> hashes32 (tree_level cnt hs)"
  by (simp add: tree_level_def hashes32_append hashes32_take_drop hashes32_pair_up)

lemma tree_level_binding:
  assumes "inj_on cn_fast_hash S" "length xs = length ys" "hashes32 xs" "hashes32 ys"
    and inputs: "pair_inputs (drop (2 * cnt - length xs) xs) \<union> pair_inputs (drop (2 * cnt - length ys) ys) \<subseteq> S"
    and "tree_level cnt xs = tree_level cnt ys"
  shows "xs = ys"
proof -
  let ?m = "2 * cnt - length ys"
  have split: "hashes32 (drop ?m xs)" "hashes32 (drop ?m ys)"
    using assms(3,4) by (simp_all add: hashes32_take_drop)
  have "take ?m xs = take ?m ys" "pair_up (drop ?m xs) = pair_up (drop ?m ys)"
    using assms(2,6) by (simp_all add: tree_level_def)
  moreover from this(2) have "drop ?m xs = drop ?m ys"
    using pair_up_binding [OF assms(1), of "drop ?m xs" "drop ?m ys"] assms(2) split inputs by simp
  ultimately show ?thesis by (metis append_take_drop_id)
qed

lemma tree_hash_None: "tree_hash hashes = None \<longleftrightarrow> hashes = [] \<or> 0x10000000 < length hashes"
proof (cases "3 \<le> length hashes \<and> length hashes \<le> 0x10000000")
  case True
  then show ?thesis by (rule conjE) (rule tree_hash_merkle, auto)
next
  case False
  then have "length hashes = 0 \<or> length hashes = 1 \<or> length hashes = 2 \<or> 0x10000000 < length hashes"
    by arith
  then show ?thesis by (auto simp: tree_hash_def tree_hash_cnt_def Let_def)
qed

text \<open>The tree read from the root: a node is the hash of its two subtrees.\<close>

fun tree_root :: "nat \<Rightarrow> hash list \<Rightarrow> hash" where
  "tree_root 0 hs = hd hs"
| "tree_root (Suc k) hs = cn_fast_hash (tree_root k (take (2 ^ k) hs) @ tree_root k (drop (2 ^ k) hs))"

lemma pair_up_append: "even (length xs) \<Longrightarrow> pair_up (xs @ ys) = pair_up xs @ pair_up ys"
  by (induction xs rule: pair_up.induct) simp_all

lemma merkle_halves:
  assumes "length xs = 2 ^ k" "length ys = 2 ^ k"
  shows "merkle (Suc k) (xs @ ys) = cn_fast_hash (merkle k xs @ merkle k ys)"
  using assms
proof (induction k arbitrary: xs ys)
  case 0
  then show ?case by (cases xs; cases ys) auto
next
  case (Suc k)
  then have "merkle (Suc k) (pair_up xs @ pair_up ys) = cn_fast_hash (merkle k (pair_up xs) @ merkle k (pair_up ys))"
    by (intro Suc.IH) (simp_all add: length_pair_up)
  moreover have "pair_up (xs @ ys) = pair_up xs @ pair_up ys" using Suc.prems by (intro pair_up_append) simp
  ultimately show ?case by simp
qed

lemma merkle_tree_root: "length hs = 2 ^ k \<Longrightarrow> merkle k hs = tree_root k hs"
proof (induction k arbitrary: hs)
  case (Suc k)
  then show ?case using merkle_halves [of "take (2 ^ k) hs" k "drop (2 ^ k) hs"] by simp
qed simp

lemma tree_hash_inputs:
  assumes "3 \<le> length xs" "length xs \<le> 0x10000000"
  obtains k where "2 ^ k < length xs" "length xs \<le> 2 * 2 ^ k"
    "\<And>ys. length ys = length xs \<Longrightarrow> tree_hash ys = Some (merkle k (tree_level (2 ^ k) ys))"
    "\<And>ys. length ys = length xs \<Longrightarrow> tree_inputs ys
      = pair_inputs (drop (2 * 2 ^ k - length ys) ys) \<union> merkle_inputs k (tree_level (2 ^ k) ys)"
proof -
  obtain k where k: "0 < k" "tree_hash_cnt (length xs) = Some (2 ^ k)" "2 ^ k < length xs" "length xs \<le> 2 * 2 ^ k"
    using tree_hash_cnt_power [OF assms] by blast
  have "tree_hash_pow (length xs) 2 div 2 = 2 ^ k" using k(2) by (simp add: tree_hash_cnt_def split: if_splits)
  then have inputs: "length ys = length xs \<Longrightarrow> tree_inputs ys
      = pair_inputs (drop (2 * 2 ^ k - length ys) ys) \<union> merkle_inputs k (tree_level (2 ^ k) ys)" for ys
    using assms(1) by (simp add: tree_inputs_def Let_def)
  have root: "tree_hash ys = Some (merkle k (tree_level (2 ^ k) ys))" if "length ys = length xs" for ys
    using assms(1) k(2) tree_level_facts [OF k(3,4) [folded that]] that
      tree_hash_levels_merkle [OF k(1), of "tree_level (2 ^ k) ys"]
    by (auto simp: tree_hash_def Let_def)
  from that [OF k(3,4) root inputs] show thesis .
qed

section \<open>Properties\<close>

text \<open>C16: \<open>tree_hash\<close> computes the root of a binary hash tree. It fails only for no hash or more than
  \<open>2 ^ 28\<close>; from three hashes on there is a level of \<open>2 ^ k\<close> nodes, \<open>2 ^ k < count \<le> 2 ^ (k + 1)\<close>,
  made of the leading hashes and the hashed pairs of the others, and the in-place folding of \<open>ints\<close>
  gives the recursively defined root over that level.\<close>

theorem tree_hash_correct:
  "(tree_hash hashes = None \<longleftrightarrow> hashes = [] \<or> 0x10000000 < length hashes)
    \<and> (length hashes < 3 \<or> 0x10000000 < length hashes
       \<or> (\<exists>k. 2 ^ k < length hashes \<and> length hashes \<le> 2 * 2 ^ k \<and> length (tree_level (2 ^ k) hashes) = 2 ^ k
            \<and> tree_hash hashes = Some (tree_root k (tree_level (2 ^ k) hashes))))"
proof (cases "3 \<le> length hashes \<and> length hashes \<le> 0x10000000")
  case True
  then obtain k where "2 ^ k < length hashes" "length hashes \<le> 2 * 2 ^ k"
      "tree_hash hashes = Some (merkle k (tree_level (2 ^ k) hashes))"
    by (blast elim: tree_hash_merkle)
  then show ?thesis
    using tree_hash_None [of hashes] tree_level_facts(1) [of "2 ^ k" hashes] merkle_tree_root by metis
qed (use tree_hash_None [of hashes] in auto)

text \<open>C15: the root binds the transaction hashes: two lists of equally many 32-byte hashes with the same
  root are equal, as long as \<open>cn_fast_hash\<close> does not collide on the finitely many strings that were
  hashed on the way to the two roots.\<close>

theorem tree_hash_binding:
  assumes "tree_hash xs = Some r" "tree_hash ys = Some r" "length xs = length ys" "hashes32 xs" "hashes32 ys"
    and free: "inj_on cn_fast_hash (tree_inputs xs \<union> tree_inputs ys)"
  shows "xs = ys"
proof -
  have "length xs \<noteq> 0" "length xs \<le> 0x10000000" using assms(1) tree_hash_None [of xs] by auto
  then consider "length xs = 1" | "length xs = 2" | (tree) "3 \<le> length xs" by linarith
  then show ?thesis
  proof cases
    case tree
    obtain k where k: "2 ^ k < length xs" "length xs \<le> 2 * 2 ^ k"
      and root: "\<And>hs. length hs = length xs \<Longrightarrow> tree_hash hs = Some (merkle k (tree_level (2 ^ k) hs))"
      and inputs: "\<And>hs. length hs = length xs \<Longrightarrow> tree_inputs hs
        = pair_inputs (drop (2 * 2 ^ k - length hs) hs) \<union> merkle_inputs k (tree_level (2 ^ k) hs)"
      using tree_hash_inputs [OF tree \<open>length xs \<le> 0x10000000\<close>] by metis
    note inputs = inputs [OF refl] inputs [OF assms(3) [symmetric]]
    have "merkle k (tree_level (2 ^ k) xs) = merkle k (tree_level (2 ^ k) ys)"
      using assms(1,2) root [OF refl] root [OF assms(3) [symmetric]] by simp
    then have "tree_level (2 ^ k) xs = tree_level (2 ^ k) ys"
      using tree_level_facts(1) [OF k(1,2)] tree_level_facts(1) [OF k(1,2) [unfolded assms(3)]] assms(4,5)
      by (intro merkle_binding [OF free, of _ k]) (auto simp: hashes32_tree_level inputs)
    then show ?thesis by (intro tree_level_binding [OF free assms(3,4,5)]) (auto simp: inputs)
  next
    case 1
    then obtain a b where "xs = [a]" "ys = [b]" using assms(3) by (auto simp: length_Suc_conv)
    then show ?thesis using assms(1,2) by (simp add: tree_hash_def)
  next
    case 2
    then obtain a b c d where hs: "xs = [a, b]" "ys = [c, d]"
      using assms(3) by (auto simp: numeral_2_eq_2 length_Suc_conv)
    have "cn_fast_hash (a @ b) = r" "cn_fast_hash (c @ d) = r" using assms(1,2) by (simp_all add: hs tree_hash_def)
    then have eq: "cn_fast_hash (a @ b) = cn_fast_hash (c @ d)" by simp
    have "a @ b \<in> tree_inputs xs \<union> tree_inputs ys" "c @ d \<in> tree_inputs xs \<union> tree_inputs ys"
      by (simp_all add: hs tree_inputs_def)
    moreover have "length a = 32" "length c = 32" using assms(4,5) by (simp_all add: hs hashes32_def)
    ultimately show ?thesis using hash_pair_binding [OF eq free] hs by blast
  qed
qed

theorem tree_hash_binding_witness:
  "\<exists>r. tree_hash [replicate 32 1, replicate 32 2] = Some r
    \<and> inj_on cn_fast_hash (tree_inputs [replicate 32 1, replicate 32 2])
    \<and> hd [replicate 32 1, replicate 32 (2 :: u8)] = hd [replicate 32 1, replicate 32 2]"
proof -
  let ?hs = "[replicate 32 1, replicate 32 2] :: hash list"
  have "tree_hash ?hs = Some (cn_fast_hash (replicate 32 1 @ replicate 32 2))" "hashes32 ?hs"
    "inj_on cn_fast_hash (tree_inputs ?hs)"
    by (simp_all add: tree_hash_def hashes32_def tree_inputs_def)
  with tree_hash_binding [of ?hs _ ?hs] show ?thesis by (metis Un_absorb)
qed

end
