(* ===== verification/Pruning.thy ===== *)
theory Pruning
  imports Prelude
begin

text \<open>
  Which blocks a pruned node keeps: \<open>src/common/pruning.h\<close> and \<open>pruning.cpp\<close>. Heights are
  64-bit, stripes and seeds 32-bit words. A thrown \<open>CHECK_AND_ASSERT_THROW_MES\<close> is
  \<open>None\<close>; the two overloads of \<open>get_pruning_stripe\<close> carry different names.
\<close>

section \<open>Definitions\<close>

definition CRYPTONOTE_MAX_BLOCK_NUMBER :: u64 where "CRYPTONOTE_MAX_BLOCK_NUMBER = 500000000"
definition CRYPTONOTE_PRUNING_STRIPE_SIZE :: nat where "CRYPTONOTE_PRUNING_STRIPE_SIZE = 4096"
definition CRYPTONOTE_PRUNING_LOG_STRIPES :: nat where "CRYPTONOTE_PRUNING_LOG_STRIPES = 3"
definition CRYPTONOTE_PRUNING_TIP_BLOCKS :: u64 where "CRYPTONOTE_PRUNING_TIP_BLOCKS = 5500"

definition PRUNING_SEED_LOG_STRIPES_SHIFT :: nat where "PRUNING_SEED_LOG_STRIPES_SHIFT = 7"
definition PRUNING_SEED_LOG_STRIPES_MASK :: u32 where "PRUNING_SEED_LOG_STRIPES_MASK = 0x7"
definition PRUNING_SEED_STRIPE_SHIFT :: nat where "PRUNING_SEED_STRIPE_SHIFT = 0"
definition PRUNING_SEED_STRIPE_MASK :: u32 where "PRUNING_SEED_STRIPE_MASK = 0x7f"

definition get_pruning_log_stripes :: "u32 \<Rightarrow> u32" where
  "get_pruning_log_stripes pruning_seed =
    drop_bit PRUNING_SEED_LOG_STRIPES_SHIFT pruning_seed AND PRUNING_SEED_LOG_STRIPES_MASK"

definition get_pruning_stripe_of_seed :: "u32 \<Rightarrow> u32" where
  "get_pruning_stripe_of_seed pruning_seed =
    (if pruning_seed = 0 then 0
     else 1 + (drop_bit PRUNING_SEED_STRIPE_SHIFT pruning_seed AND PRUNING_SEED_STRIPE_MASK))"

definition make_pruning_seed :: "u32 \<Rightarrow> u32 \<Rightarrow> u32 option" where
  "make_pruning_seed stripe log_stripes =
    (if \<not> log_stripes \<le> PRUNING_SEED_LOG_STRIPES_MASK then None
     else if \<not> (stripe > 0 \<and> ucast stripe \<le> (push_bit (unat log_stripes) 1 :: u64)) then None
     else Some (push_bit PRUNING_SEED_LOG_STRIPES_SHIFT log_stripes OR push_bit PRUNING_SEED_STRIPE_SHIFT (stripe - 1)))"

definition get_pruning_stripe :: "u64 \<Rightarrow> u64 \<Rightarrow> u32 \<Rightarrow> u32" where
  "get_pruning_stripe block_height blockchain_height log_stripes =
    (if block_height + CRYPTONOTE_PRUNING_TIP_BLOCKS \<ge> blockchain_height then 0
     else ucast ((block_height div of_nat CRYPTONOTE_PRUNING_STRIPE_SIZE
                    AND (push_bit (unat log_stripes) 1 - 1)) + 1))"

definition has_unpruned_block :: "u64 \<Rightarrow> u64 \<Rightarrow> u32 \<Rightarrow> bool" where
  "has_unpruned_block block_height blockchain_height pruning_seed =
    (let stripe = get_pruning_stripe_of_seed pruning_seed
     in if stripe = 0 then True
        else
          let log_stripes = get_pruning_log_stripes pruning_seed;
              block_stripe = get_pruning_stripe block_height blockchain_height log_stripes
          in block_stripe = 0 \<or> block_stripe = stripe)"

definition get_pruning_seed :: "u64 \<Rightarrow> u64 \<Rightarrow> u32 \<Rightarrow> u32 option" where
  "get_pruning_seed block_height blockchain_height log_stripes =
    (let stripe = get_pruning_stripe block_height blockchain_height log_stripes
     in if stripe = 0 then Some 0 else make_pruning_seed stripe log_stripes)"

definition get_next_unpruned_block_height :: "u64 \<Rightarrow> u64 \<Rightarrow> u32 \<Rightarrow> u64" where
  "get_next_unpruned_block_height block_height blockchain_height pruning_seed =
    (if \<not> block_height \<le> CRYPTONOTE_MAX_BLOCK_NUMBER + 1 then block_height
     else if \<not> blockchain_height \<le> CRYPTONOTE_MAX_BLOCK_NUMBER + 1 then block_height
     else
       let stripe = get_pruning_stripe_of_seed pruning_seed
       in if stripe = 0 then block_height
          else if block_height + CRYPTONOTE_PRUNING_TIP_BLOCKS \<ge> blockchain_height then block_height
          else
            let seed_log_stripes = get_pruning_log_stripes pruning_seed;
                log_stripes = (if seed_log_stripes \<noteq> 0 then unat seed_log_stripes else CRYPTONOTE_PRUNING_LOG_STRIPES);
                mask = push_bit log_stripes (1 :: u64) - 1;
                sz = of_nat CRYPTONOTE_PRUNING_STRIPE_SIZE;
                block_pruning_stripe = (ucast ((block_height div sz AND mask) + 1) :: u32)
            in if block_pruning_stripe = stripe then block_height
               else
                 let cycles = drop_bit log_stripes (block_height div sz);
                     cycle_start = cycles + (if stripe > block_pruning_stripe then 0 else 1);
                     h = cycle_start * ucast (push_bit log_stripes (of_nat CRYPTONOTE_PRUNING_STRIPE_SIZE :: u32))
                         + ucast ((stripe - 1) * of_nat CRYPTONOTE_PRUNING_STRIPE_SIZE)
                 in if h + CRYPTONOTE_PRUNING_TIP_BLOCKS > blockchain_height
                    then if blockchain_height < CRYPTONOTE_PRUNING_TIP_BLOCKS then 0
                         else blockchain_height - CRYPTONOTE_PRUNING_TIP_BLOCKS
                    else if \<not> h \<ge> block_height then block_height
                    else h)"

definition get_next_pruned_block_height :: "u64 \<Rightarrow> u64 \<Rightarrow> u32 \<Rightarrow> u64 option" where
  "get_next_pruned_block_height block_height blockchain_height pruning_seed =
    (let stripe = get_pruning_stripe_of_seed pruning_seed
     in if stripe = 0 then Some blockchain_height
        else if block_height + CRYPTONOTE_PRUNING_TIP_BLOCKS \<ge> blockchain_height then Some blockchain_height
        else
          let seed_log_stripes = get_pruning_log_stripes pruning_seed;
              log_stripes = (if seed_log_stripes \<noteq> 0 then unat seed_log_stripes else CRYPTONOTE_PRUNING_LOG_STRIPES);
              mask = push_bit log_stripes (1 :: u64) - 1;
              block_pruning_seed =
                (ucast ((block_height div of_nat CRYPTONOTE_PRUNING_STRIPE_SIZE AND mask) + 1) :: u32)
          in if block_pruning_seed \<noteq> stripe then Some block_height
             else
               let next_stripe = ucast (1 + (ucast block_pruning_seed AND mask))
               in map_option (get_next_unpruned_block_height block_height blockchain_height)
                    (make_pruning_seed next_stripe (of_nat log_stripes)))"

text \<open>\<open>crypto::rand<uint8_t>()\<close> is the parameter \<open>r\<close>.\<close>

definition get_random_stripe :: "u8 \<Rightarrow> u32" where
  "get_random_stripe r = 1 + ucast (ucast r mod (push_bit CRYPTONOTE_PRUNING_LOG_STRIPES 1 :: u64))"

section \<open>Seeds\<close>

lemmas pruning_constants = CRYPTONOTE_MAX_BLOCK_NUMBER_def CRYPTONOTE_PRUNING_STRIPE_SIZE_def
  CRYPTONOTE_PRUNING_LOG_STRIPES_def CRYPTONOTE_PRUNING_TIP_BLOCKS_def
  PRUNING_SEED_LOG_STRIPES_SHIFT_def PRUNING_SEED_LOG_STRIPES_MASK_def
  PRUNING_SEED_STRIPE_SHIFT_def PRUNING_SEED_STRIPE_MASK_def

text \<open>The seeds of nodes that do prune: at least two stripes.\<close>

definition pruning_seed_of :: "u32 \<Rightarrow> u32 \<Rightarrow> u32 \<Rightarrow> bool" where
  "pruning_seed_of seed stripe log_stripes \<longleftrightarrow> make_pruning_seed stripe log_stripes = Some seed \<and> log_stripes \<noteq> 0"

lemma unat_push_bit_one: "n < 64 \<Longrightarrow> unat (push_bit n 1 :: u64) = 2 ^ n"
proof -
  assume "n < 64"
  then have "(2 :: nat) ^ n < 2 ^ 64" by (intro power_strict_increasing) auto
  then show ?thesis by (simp only: unat_push_bit_u64) simp
qed

lemma pow2_le_128: "n \<le> 7 \<Longrightarrow> (2 :: nat) ^ n \<le> 128"
  using power_increasing [of n 7 "2 :: nat"] by simp

lemma pruning_seed_facts:
  assumes "pruning_seed_of seed stripe lg"
  shows "1 \<le> unat lg" "unat lg \<le> 7" "1 \<le> unat stripe" "unat stripe \<le> 2 ^ unat lg"
    and "get_pruning_log_stripes seed = lg" "get_pruning_stripe_of_seed seed = stripe"
proof -
  have lg: "lg \<noteq> 0" "lg \<le> 7" and st: "0 < stripe" "ucast stripe \<le> (push_bit (unat lg) 1 :: u64)"
    and seed: "seed = (stripe - 1) OR push_bit 7 lg"
    using assms by (auto simp: pruning_seed_of_def make_pruning_seed_def pruning_constants or.commute split: if_splits)
  show lg': "1 \<le> unat lg" "unat lg \<le> 7"
    using lg unat_gt_0 [of lg] by (auto simp: word_le_nat_alt Suc_le_eq)
  have lt: "unat lg < 64" using lg'(2) by simp
  show st': "1 \<le> unat stripe" "unat stripe \<le> 2 ^ unat lg"
    using st by (simp_all only: u64_le_iff unat_ucast_u32_u64 unat_push_bit_one [OF lt])
      (simp_all add: word_less_nat_alt)
  have "unat (stripe - 1) = unat stripe - 1" using st'(1) by (subst unat_sub) (auto simp: word_le_nat_alt)
  then have low: "unat (stripe - 1) < 2 ^ 7" using st' pow2_le_128 [OF lg'(2)] by simp
  have push: "unat (push_bit 7 lg) = unat lg * 128"
    using lg'(2) by (simp only: unsigned_push_bit_eq) (simp add: push_bit_eq_mult take_bit_nat_eq_self)
  have useed: "unat seed = unat (stripe - 1) + unat lg * 128"
    using low lg'(2) push by (simp only: seed low_or_push_bit unat_word_ariths) simp
  have "unat (get_pruning_log_stripes seed) = unat seed div 128 mod 8"
    using unat_and_mask [of "drop_bit 7 seed" 3] unat_drop_bit_div [of 7 seed]
    by (simp add: get_pruning_log_stripes_def pruning_constants mask_eq_exp_minus_1)
  also have "\<dots> = unat lg" using low lg'(2) by (simp add: useed)
  finally show "get_pruning_log_stripes seed = lg" by (simp add: word_unat_eq_iff)
  have "unat (seed AND 0x7f) = unat seed mod 128"
    using unat_and_mask [of seed 7] by (simp add: mask_eq_exp_minus_1)
  also have "\<dots> = unat (stripe - 1)" using low by (simp add: useed)
  finally have "seed AND 0x7f = stripe - 1" by (simp add: word_unat_eq_iff)
  moreover have "seed \<noteq> 0" using useed lg'(1) by (metis add_is_0 mult_is_0 not_one_le_zero unat_0 zero_neq_numeral)
  ultimately show "get_pruning_stripe_of_seed seed = stripe"
    by (simp add: get_pruning_stripe_of_seed_def pruning_constants)
qed

section \<open>Stripes as arithmetic\<close>

lemma unat_stripe:
  assumes "n \<le> 7"
  shows "unat (ucast ((b div of_nat CRYPTONOTE_PRUNING_STRIPE_SIZE AND (push_bit n 1 - 1)) + 1 :: u64) :: u32)
    = unat b div 4096 mod 2 ^ n + 1"
proof -
  have "unat b div 4096 mod 2 ^ n < 2 ^ n" by simp
  with pow2_le_128 [OF assms] have m: "unat b div 4096 mod 2 ^ n + 1 \<le> 128" by linarith
  have "unat (b div of_nat CRYPTONOTE_PRUNING_STRIPE_SIZE AND (push_bit n 1 - 1)) = unat b div 4096 mod 2 ^ n"
    by (simp only: push_bit_one_minus unat_and_mask unat_div_u64 pruning_constants) simp
  with m show ?thesis by (simp add: unat_ucast_u64_u32 unat_add_u64)
qed

text \<open>What a node with stripe \<open>s\<close> of \<open>2 ^ n\<close> keeps of a chain of \<open>bh\<close> blocks.\<close>

definition keeps :: "nat \<Rightarrow> nat \<Rightarrow> nat \<Rightarrow> nat \<Rightarrow> bool" where
  "keeps n s bh b \<longleftrightarrow> bh \<le> b + 5500 \<or> b div 4096 mod 2 ^ n + 1 = s"

lemma unat_tip: "unat b + 5500 < 2 ^ 64 \<Longrightarrow> unat (b + CRYPTONOTE_PRUNING_TIP_BLOCKS) = unat b + 5500"
  by (simp add: unat_add_u64 pruning_constants)

lemma has_unpruned_block_keeps:
  assumes "pruning_seed_of seed stripe lg" "unat b + 5500 < 2 ^ 64"
  shows "has_unpruned_block b bh seed \<longleftrightarrow> keeps (unat lg) (unat stripe) (unat bh) (unat b)"
proof -
  note seed = pruning_seed_facts [OF assms(1)]
  have "stripe \<noteq> 0" using seed(3) by auto
  have "get_pruning_stripe b bh lg = 0 \<longleftrightarrow> unat bh \<le> unat b + 5500"
    "get_pruning_stripe b bh lg = stripe \<longleftrightarrow> \<not> unat bh \<le> unat b + 5500 \<and> unat b div 4096 mod 2 ^ unat lg + 1 = unat stripe"
    using unat_stripe [OF seed(2), of b] \<open>stripe \<noteq> 0\<close>
    by (auto simp: get_pruning_stripe_def u64_le_iff unat_tip [OF assms(2)] word_unat_eq_iff)
  then show ?thesis
    using \<open>stripe \<noteq> 0\<close> by (auto simp: has_unpruned_block_def Let_def seed(5,6) keeps_def)
qed

text \<open>The first stripe-sized run of the right residue.\<close>

definition next_run :: "nat \<Rightarrow> nat \<Rightarrow> nat \<Rightarrow> nat" where
  "next_run m r q = (q div m + (if q mod m < r then 0 else 1)) * m + r"

lemma next_run_least:
  assumes "r < m" "q mod m \<noteq> r"
  shows "q < next_run m r q" and "next_run m r q mod m = r" and "next_run m r q \<le> q + m"
    and "q \<le> p \<Longrightarrow> p < next_run m r q \<Longrightarrow> p mod m \<noteq> r"
proof -
  have q: "q = q div m * m + q mod m" by simp
  have qm: "q mod m < m" using assms(1) by simp
  define D where "D = q div m * m"
  have "q = D + q mod m" "q mod m < r \<Longrightarrow> next_run m r q = D + r" "\<not> q mod m < r \<Longrightarrow> next_run m r q = D + m + r"
    by (simp_all add: D_def next_run_def)
  with qm assms have "q < next_run m r q \<and> next_run m r q \<le> q + m"
    by (cases "q mod m < r") linarith+
  then show "q < next_run m r q" "next_run m r q \<le> q + m" by simp_all
  show "next_run m r q mod m = r" using assms by (simp add: next_run_def)
  assume p: "q \<le> p" "p < next_run m r q"
  show "p mod m \<noteq> r"
  proof
    assume "p mod m = r"
    then have pm: "p = p div m * m + r" by (metis div_mult_mod_eq)
    have ge: "q div m \<le> p div m" using p(1) by (rule div_le_mono)
    have "p div m * m < (q div m + (if q mod m < r then 0 else 1)) * m"
      using p(2) pm unfolding next_run_def by linarith
    then have "p div m < q div m + (if q mod m < r then 0 else 1)" using assms(1) by simp
    with ge have "p div m = q div m" "\<not> q mod m < r" by (auto split: if_splits)
    then have "p div m * m = q div m * m" by simp
    with p(1) pm q assms(2) \<open>\<not> q mod m < r\<close> show False by linarith
  qed
qed

section \<open>The next kept height\<close>

text \<open>The least kept height from \<open>b\<close> on, over natural numbers.\<close>

definition next_kept :: "nat \<Rightarrow> nat \<Rightarrow> nat \<Rightarrow> nat \<Rightarrow> nat" where
  "next_kept n s bh b =
    (if keeps n s bh b then b
     else let h = next_run (2 ^ n) (s - 1) (b div 4096) * 4096
          in if bh < h + 5500 then bh - 5500 else h)"

lemma next_kept_least:
  assumes "1 \<le> s" "s \<le> 2 ^ n"
  shows "b \<le> next_kept n s bh b" and "keeps n s bh (next_kept n s bh b)"
    and "b \<le> c \<Longrightarrow> c < next_kept n s bh b \<Longrightarrow> \<not> keeps n s bh c"
proof -
  let ?q = "b div 4096" and ?run = "next_run (2 ^ n) (s - 1) (b div 4096)"
  show "b \<le> next_kept n s bh b" "keeps n s bh (next_kept n s bh b)"
    "b \<le> c \<Longrightarrow> c < next_kept n s bh b \<Longrightarrow> \<not> keeps n s bh c"
  proof (atomize(full), cases "keeps n s bh b")
    case True
    then show "b \<le> next_kept n s bh b \<and> keeps n s bh (next_kept n s bh b) \<and>
      (b \<le> c \<longrightarrow> c < next_kept n s bh b \<longrightarrow> \<not> keeps n s bh c)" by (simp add: next_kept_def)
  next
    case False
    then have tip: "b + 5500 < bh" and res: "?q mod 2 ^ n \<noteq> s - 1"
      using assms by (auto simp: keeps_def)
    have r: "s - 1 < 2 ^ n" using assms by linarith
    note run = next_run_least [OF r res]
    have "b < ?run * 4096" using run(1) by (simp add: div_less_iff_less_mult)
    moreover have other: "c div 4096 mod 2 ^ n + 1 \<noteq> s" if "b \<le> c" "c < ?run * 4096"
    proof -
      have "?q \<le> c div 4096" "c div 4096 < ?run"
        using that by (simp_all add: div_le_mono less_mult_imp_div_less)
      from run(4) [OF this] assms(1) show ?thesis by simp
    qed
    moreover have "\<not> keeps n s bh c" if "b \<le> c" "c < next_kept n s bh b"
    proof -
      have "c < ?run * 4096" "c < bh - 5500" using that False by (auto simp: next_kept_def Let_def split: if_splits)
      with other that(1) show ?thesis by (simp add: keeps_def)
    qed
    moreover have "keeps n s bh (next_kept n s bh b)"
    proof (cases "bh < ?run * 4096 + 5500")
      case True
      then have "next_kept n s bh b = bh - 5500" using False by (simp add: next_kept_def)
      then show ?thesis using tip by (simp add: keeps_def)
    next
      case far: False
      then have "next_kept n s bh b = ?run * 4096" using False by (simp add: next_kept_def)
      then show ?thesis using run(2) assms(1) by (simp add: keeps_def)
    qed
    moreover have "b \<le> next_kept n s bh b"
    proof -
      have "b \<le> bh - 5500" using tip by linarith
      with calculation(1) False show ?thesis by (simp add: next_kept_def Let_def)
    qed
    ultimately show "b \<le> next_kept n s bh b \<and> keeps n s bh (next_kept n s bh b) \<and>
      (b \<le> c \<longrightarrow> c < next_kept n s bh b \<longrightarrow> \<not> keeps n s bh c)" by blast
  qed
qed

lemma unat_next_height:
  assumes "n \<le> 7" "1 \<le> unat s" "unat s \<le> 2 ^ n" "unat b \<le> 500000001"
    and "unat b div 4096 mod 2 ^ n \<noteq> unat s - 1"
  defines "bs \<equiv> ucast ((b div of_nat CRYPTONOTE_PRUNING_STRIPE_SIZE AND (push_bit n 1 - 1)) + 1 :: u64) :: u32"
  shows "unat ((drop_bit n (b div of_nat CRYPTONOTE_PRUNING_STRIPE_SIZE) + (if s > bs then 0 else 1))
      * ucast (push_bit n (of_nat CRYPTONOTE_PRUNING_STRIPE_SIZE :: u32))
      + ucast ((s - 1) * of_nat CRYPTONOTE_PRUNING_STRIPE_SIZE) :: u64)
    = next_run (2 ^ n) (unat s - 1) (unat b div 4096) * 4096" (is "unat (?c * ?w + ?o) = _")
proof -
  have p: "(2 :: nat) ^ n \<le> 128" by (rule pow2_le_128 [OF assms(1)])
  define q where "q = unat b div 4096"
  have qb: "q \<le> 122071" using assms(4) by (simp add: q_def)
  have bs: "s > bs \<longleftrightarrow> q mod 2 ^ n < unat s - 1"
    using unat_stripe [OF assms(1), of b] assms(2) by (auto simp: bs_def word_less_nat_alt q_def)
  have "unat (drop_bit n (b div of_nat CRYPTONOTE_PRUNING_STRIPE_SIZE)) = q div 2 ^ n"
    by (simp only: unat_drop_bit_div unat_div_u64 pruning_constants) (simp add: q_def)
  moreover have qd: "q div 2 ^ n \<le> 122071" using qb div_le_dividend le_trans by blast
  ultimately have c: "unat ?c = q div 2 ^ n + (if q mod 2 ^ n < unat s - 1 then 0 else 1)"
    by (simp add: unat_add_u64 bs)
  have "unat (of_nat CRYPTONOTE_PRUNING_STRIPE_SIZE :: u32) = 4096" by (simp add: pruning_constants)
  then have w: "unat ?w = 4096 * 2 ^ n"
    using p by (simp only: unat_ucast_u32_u64 unat_push_bit_mod) simp
  have "unat (s - 1) = unat s - 1" using assms(2) by (subst unat_sub) (auto simp: word_le_nat_alt)
  then have o: "unat ?o = (unat s - 1) * 4096"
    using assms(3) p by (simp only: unat_ucast_u32_u64 unat_word_ariths) (simp add: pruning_constants)
  have "unat ?c * unat ?w \<le> 122072 * (4096 * 128)"
    using qd p c w by (intro mult_mono) auto
  moreover have "unat ?o \<le> 128 * 4096" using o assms(3) p by (intro le_trans [OF eq_imp_le [OF o]] mult_mono) auto
  ultimately have "unat (?c * ?w + ?o) = unat ?c * unat ?w + unat ?o"
    by (simp only: unat_add_u64 unat_mult_u64) simp
  also have "\<dots> = next_run (2 ^ n) (unat s - 1) q * 4096"
    by (simp only: c w o next_run_def) (simp add: algebra_simps)
  finally show ?thesis by (simp only: q_def)
qed

lemma max_block_bound: "b \<le> CRYPTONOTE_MAX_BLOCK_NUMBER + 1 \<longleftrightarrow> unat b \<le> 500000001"
  by (simp add: u64_le_iff pruning_constants)

lemma unat_get_next_unpruned_block_height:
  assumes seed: "pruning_seed_of seed stripe lg"
    and b: "b \<le> CRYPTONOTE_MAX_BLOCK_NUMBER + 1" and bh: "bh \<le> CRYPTONOTE_MAX_BLOCK_NUMBER + 1"
  shows "unat (get_next_unpruned_block_height b bh seed) = next_kept (unat lg) (unat stripe) (unat bh) (unat b)"
proof -
  note facts = pruning_seed_facts [OF seed]
  have ne: "stripe \<noteq> 0" "lg \<noteq> 0" using facts(1,3) by auto
  have ub: "unat b \<le> 500000001" "unat bh \<le> 500000001" using b bh by (simp_all only: max_block_bound)
  define n where "n = unat lg"
  define bs :: u32 where "bs = ucast ((b div of_nat CRYPTONOTE_PRUNING_STRIPE_SIZE AND (push_bit n 1 - 1)) + 1 :: u64)"
  have bs: "unat bs = unat b div 4096 mod 2 ^ n + 1" unfolding bs_def n_def by (rule unat_stripe [OF facts(2)])
  have tip: "b + CRYPTONOTE_PRUNING_TIP_BLOCKS \<ge> bh \<longleftrightarrow> unat bh \<le> unat b + 5500"
    using unat_tip [of b] ub by (simp add: u64_le_iff)
  define h :: u64 where "h = (drop_bit n (b div of_nat CRYPTONOTE_PRUNING_STRIPE_SIZE) + (if stripe > bs then 0 else 1))
      * ucast (push_bit n (of_nat CRYPTONOTE_PRUNING_STRIPE_SIZE :: u32))
      + ucast ((stripe - 1) * of_nat CRYPTONOTE_PRUNING_STRIPE_SIZE)"
  have next_eq: "get_next_unpruned_block_height b bh seed =
      (if unat bh \<le> unat b + 5500 \<or> bs = stripe then b
       else if h + CRYPTONOTE_PRUNING_TIP_BLOCKS > bh
         then if bh < CRYPTONOTE_PRUNING_TIP_BLOCKS then 0 else bh - CRYPTONOTE_PRUNING_TIP_BLOCKS
       else if \<not> h \<ge> b then b else h)"
    unfolding get_next_unpruned_block_height_def Let_def facts(5,6) h_def bs_def n_def
    using b bh ne tip by simp
  show ?thesis
  proof (cases "unat bh \<le> unat b + 5500 \<or> bs = stripe")
    case True
    then show ?thesis using bs by (auto simp: next_eq next_kept_def keeps_def n_def)
  next
    case False
    then have "unat b div 4096 mod 2 ^ n \<noteq> unat stripe - 1" using bs facts(3) by (auto simp: word_unat_eq_iff)
    from unat_next_height [OF facts(2,3,4) ub(1) this [unfolded n_def], folded n_def, folded bs_def, folded h_def]
    have h: "unat h = next_run (2 ^ n) (unat stripe - 1) (unat b div 4096) * 4096" .
    have kept: "\<not> keeps n (unat stripe) (unat bh) (unat b)" using False bs by (auto simp: keeps_def word_unat_eq_iff)
    have "next_run (2 ^ n) (unat stripe - 1) (unat b div 4096) \<le> unat b div 4096 + 2 ^ n"
      using facts(3,4) \<open>unat b div 4096 mod 2 ^ n \<noteq> unat stripe - 1\<close>
      by (intro next_run_least(3)) (auto simp: n_def)
    then have "unat h \<le> (unat b div 4096 + 128) * 4096"
      using pow2_le_128 [OF facts(2)] unfolding h by (intro mult_right_mono) (auto simp: n_def)
    moreover have "unat b div 4096 \<le> 122071" using ub(1) by simp
    ultimately have "unat h + 5500 < 2 ^ 64" by simp
    then have far: "h + CRYPTONOTE_PRUNING_TIP_BLOCKS > bh \<longleftrightarrow> unat bh < unat h + 5500"
      by (simp add: u64_less_iff unat_tip)
    have "unat (bh - CRYPTONOTE_PRUNING_TIP_BLOCKS) = unat bh - 5500" "\<not> bh < CRYPTONOTE_PRUNING_TIP_BLOCKS"
      using False unat_sub_u64 [of 5500 bh] by (auto simp: u64_le_iff u64_less_iff pruning_constants)
    moreover have k: "next_kept n (unat stripe) (unat bh) (unat b)
        = (if unat bh < unat h + 5500 then unat bh - 5500 else unat h)"
      using kept by (simp only: next_kept_def Let_def h if_False)
    moreover have "unat b \<le> next_kept n (unat stripe) (unat bh) (unat b)"
      unfolding n_def by (rule next_kept_least(1) [OF facts(3,4)])
    ultimately show ?thesis
      using False far by (cases "unat bh < unat h + 5500") (simp_all add: next_eq u64_le_iff flip: n_def)
  qed
qed

text \<open>The run of a stripe ends where the next stripe begins.\<close>

lemma next_run_successor:
  assumes "1 < m" "1 \<le> s" "s \<le> m" "q mod m + 1 = s"
  shows "next_run m (s mod m) q = Suc q"
proof -
  have q: "q div m * m + q mod m = q" by simp
  show ?thesis
  proof (cases "s = m")
    case True
    then show ?thesis using assms by (simp add: next_run_def) (use q in linarith)
  next
    case False
    then show ?thesis using assms by (simp add: next_run_def) (use q in linarith)
  qed
qed

lemma next_pruned_run:
  assumes "1 \<le> n" "1 \<le> s" "s \<le> 2 ^ n" "\<not> bh \<le> b + 5500" "b div 4096 mod 2 ^ n + 1 = s"
  defines "r \<equiv> next_kept n (s mod 2 ^ n + 1) bh b"
  shows "b \<le> r" and "b \<le> c \<Longrightarrow> c < r \<Longrightarrow> keeps n s bh c" and "\<not> keeps n s bh r \<or> bh \<le> r + 5500"
proof -
  have m: "(1 :: nat) < 2 ^ n" using assms(1) by (intro one_less_power) simp_all
  have other: "s mod 2 ^ n + 1 \<noteq> s" using m assms(2,3) by (cases "s = 2 ^ n") auto
  then have "\<not> keeps n (s mod 2 ^ n + 1) bh b" using assms(4,5) by (auto simp: keeps_def)
  then have r: "r = (if bh < Suc (b div 4096) * 4096 + 5500 then bh - 5500 else Suc (b div 4096) * 4096)"
    using next_run_successor [OF m assms(2,3,5)] by (simp add: r_def next_kept_def)
  have "s mod 2 ^ n + 1 \<le> 2 ^ n" using m by (simp add: Suc_le_eq)
  then show "b \<le> r" unfolding r_def by (intro next_kept_least) simp_all
  show "keeps n s bh c" if "b \<le> c" "c < r"
  proof -
    have "c < Suc (b div 4096) * 4096" using that(2) r by (auto split: if_splits)
    then have "c div 4096 < Suc (b div 4096)" by (rule less_mult_imp_div_less)
    moreover have "b div 4096 \<le> c div 4096" using that(1) by (rule div_le_mono)
    ultimately have "c div 4096 = b div 4096" by simp
    with assms(5) show ?thesis by (simp add: keeps_def)
  qed
  show "\<not> keeps n s bh r \<or> bh \<le> r + 5500"
  proof -
    have "keeps n (s mod 2 ^ n + 1) bh r"
      unfolding r_def using \<open>s mod 2 ^ n + 1 \<le> 2 ^ n\<close> by (intro next_kept_least) simp_all
    with other show ?thesis by (auto simp: keeps_def)
  qed
qed

lemma pruning_seed_make:
  assumes "1 \<le> unat lg" "unat lg \<le> 7" "1 \<le> unat stripe" "unat stripe \<le> 2 ^ unat lg"
  obtains seed where "make_pruning_seed stripe lg = Some seed" "pruning_seed_of seed stripe lg"
proof -
  have lt: "unat lg < 64" using assms(2) by simp
  have "ucast stripe \<le> (push_bit (unat lg) 1 :: u64)"
    using assms(4) by (simp only: u64_le_iff unat_ucast_u32_u64 unat_push_bit_one [OF lt])
  moreover have "0 < stripe" "lg \<le> 7" "lg \<noteq> 0"
    using assms by (auto simp: word_less_nat_alt word_le_nat_alt)
  ultimately have "\<exists>seed. make_pruning_seed stripe lg = Some seed \<and> pruning_seed_of seed stripe lg"
    unfolding make_pruning_seed_def pruning_seed_of_def pruning_constants by simp
  then show thesis using that by blast
qed

lemma get_next_bound:
  assumes "pruning_seed_of seed stripe lg"
    and "b \<le> CRYPTONOTE_MAX_BLOCK_NUMBER + 1" "bh \<le> CRYPTONOTE_MAX_BLOCK_NUMBER + 1"
  shows "unat (get_next_unpruned_block_height b bh seed) \<le> 500000001"
proof (rule ccontr)
  assume "\<not> ?thesis"
  then have "\<not> keeps (unat lg) (unat stripe) (unat bh) 500000001"
    using pruning_seed_facts(3,4) [OF assms(1)] assms(2)
      next_kept_least(3) [of "unat stripe" "unat lg" "unat b" 500000001 "unat bh"]
      unat_get_next_unpruned_block_height [OF assms]
    by (simp add: max_block_bound)
  with assms(3) show False by (simp add: keeps_def max_block_bound)
qed

lemma next_pruned_own_stripe:
  assumes seed: "pruning_seed_of seed stripe lg"
    and small: "b \<le> CRYPTONOTE_MAX_BLOCK_NUMBER + 1" "bh \<le> CRYPTONOTE_MAX_BLOCK_NUMBER + 1"
    and tip: "\<not> unat bh \<le> unat b + 5500"
    and own: "unat b div 4096 mod 2 ^ unat lg + 1 = unat stripe"
    and nxt: "nxt = (ucast (1 + (ucast stripe AND (push_bit (unat lg) 1 - 1)) :: u64) :: u32)"
  shows "\<exists>r. map_option (get_next_unpruned_block_height b bh) (make_pruning_seed nxt lg) = Some r
    \<and> (\<forall>c. b \<le> c \<and> c < r \<longrightarrow> has_unpruned_block c bh seed)
    \<and> (\<not> has_unpruned_block r bh seed \<or> unat bh \<le> unat r + 5500) \<and> unat r \<le> unat bh - 5500"
proof -
  note facts = pruning_seed_facts [OF seed]
  have kept: "unat c \<le> 500000001 \<Longrightarrow> has_unpruned_block c bh seed \<longleftrightarrow> keeps (unat lg) (unat stripe) (unat bh) (unat c)" for c
    by (rule has_unpruned_block_keeps [OF seed]) simp
  have "(2 :: nat) ^ unat lg \<le> 128" by (rule pow2_le_128 [OF facts(2)])
  moreover have lt: "unat stripe mod 2 ^ unat lg < 2 ^ unat lg" by simp
  ultimately have "unat stripe mod 2 ^ unat lg + 1 \<le> 128" by linarith
  then have nxt: "unat nxt = unat stripe mod 2 ^ unat lg + 1"
    by (simp only: nxt push_bit_one_minus unat_ucast_u64_u32 unat_add_u64 unat_and_mask unat_ucast_u32_u64) simp
  then have "1 \<le> unat nxt" "unat nxt \<le> 2 ^ unat lg" using lt by linarith+
  then obtain seed' where seed': "make_pruning_seed nxt lg = Some seed'" "pruning_seed_of seed' nxt lg"
    using pruning_seed_make [OF facts(1,2)] by blast
  let ?r = "get_next_unpruned_block_height b bh seed'"
  note run = next_pruned_run [OF facts(1,3,4) tip own, folded nxt,
      folded unat_get_next_unpruned_block_height [OF seed'(2) small]]
  have r: "unat ?r \<le> 500000001" by (rule get_next_bound [OF seed'(2) small])
  then have "b \<le> c \<and> c < ?r \<Longrightarrow> has_unpruned_block c bh seed" for c
    using kept [of c] run(2) by (auto simp: u64_le_iff u64_less_iff)
  moreover have "\<not> has_unpruned_block ?r bh seed \<or> unat bh \<le> unat ?r + 5500"
    using run(3) kept [OF r] by blast
  moreover have "unat ?r \<le> unat bh - 5500"
    using next_kept_least(3) [OF pruning_seed_facts(3,4) [OF seed'(2)], of "unat b" "unat bh - 5500" "unat bh"] tip
      unat_get_next_unpruned_block_height [OF seed'(2) small]
    by (cases "unat bh - 5500 < unat ?r"; cases "unat b \<le> unat bh - 5500") (simp_all add: keeps_def)
  ultimately show ?thesis using seed'(1) by auto
qed

lemma next_unpruned_least:
  assumes "pruning_seed_of seed stripe lg"
    and "b \<le> CRYPTONOTE_MAX_BLOCK_NUMBER + 1" "bh \<le> CRYPTONOTE_MAX_BLOCK_NUMBER + 1"
  shows "b \<le> get_next_unpruned_block_height b bh seed
    \<and> has_unpruned_block (get_next_unpruned_block_height b bh seed) bh seed
    \<and> (\<forall>c. b \<le> c \<and> c < get_next_unpruned_block_height b bh seed \<longrightarrow> \<not> has_unpruned_block c bh seed)"
proof -
  note facts = pruning_seed_facts [OF assms(1)]
  note eq = unat_get_next_unpruned_block_height [OF assms]
  note least = next_kept_least [OF facts(3,4), where b = "unat b" and bh = "unat bh", folded eq]
  let ?r = "get_next_unpruned_block_height b bh seed"
  have "unat ?r \<le> 500000001" by (rule get_next_bound [OF assms])
  then have "c \<le> ?r \<Longrightarrow> has_unpruned_block c bh seed \<longleftrightarrow> keeps (unat lg) (unat stripe) (unat bh) (unat c)" for c
    by (intro has_unpruned_block_keeps [OF assms(1)]) (simp add: u64_le_iff)
  with least show ?thesis by (auto simp: u64_le_iff u64_less_iff)
qed

lemma next_pruned_correct:
  assumes "pruning_seed_of seed stripe lg"
    and "b \<le> CRYPTONOTE_MAX_BLOCK_NUMBER + 1" "bh \<le> CRYPTONOTE_MAX_BLOCK_NUMBER + 1"
  shows "\<exists>r. get_next_pruned_block_height b bh seed = Some r
    \<and> (\<forall>c. b \<le> c \<and> c < r \<longrightarrow> has_unpruned_block c bh seed)
    \<and> (\<not> has_unpruned_block r bh seed \<or> unat bh \<le> unat r + 5500) \<and> (b \<le> bh \<longrightarrow> r \<le> bh)"
proof -
  note facts = pruning_seed_facts [OF assms(1)]
  have ne: "stripe \<noteq> 0" "lg \<noteq> 0" using facts(1,3) by auto
  have ub: "unat b \<le> 500000001" "unat bh \<le> 500000001" using assms(2,3) by (simp_all only: max_block_bound)
  have tip: "b + CRYPTONOTE_PRUNING_TIP_BLOCKS \<ge> bh \<longleftrightarrow> unat bh \<le> unat b + 5500"
    using unat_tip [of b] ub by (simp add: u64_le_iff)
  have kept: "unat c \<le> 500000001 \<Longrightarrow> has_unpruned_block c bh seed \<longleftrightarrow> keeps (unat lg) (unat stripe) (unat bh) (unat c)" for c
    by (rule has_unpruned_block_keeps [OF assms(1)]) simp
  define bs :: u32 where "bs = ucast ((b div of_nat CRYPTONOTE_PRUNING_STRIPE_SIZE AND (push_bit (unat lg) 1 - 1)) + 1 :: u64)"
  have bs: "unat bs = unat b div 4096 mod 2 ^ unat lg + 1" unfolding bs_def by (rule unat_stripe [OF facts(2)])
  define nxt :: u32 where "nxt = ucast (1 + (ucast bs AND (push_bit (unat lg) 1 - 1)) :: u64)"
  have eq: "get_next_pruned_block_height b bh seed =
      (if unat bh \<le> unat b + 5500 then Some bh else if bs \<noteq> stripe then Some b
       else map_option (get_next_unpruned_block_height b bh) (make_pruning_seed nxt lg))"
    unfolding get_next_pruned_block_height_def Let_def facts(5,6) nxt_def bs_def using ne tip by simp
  consider (tip) "unat bh \<le> unat b + 5500" | (other) "\<not> unat bh \<le> unat b + 5500" "bs \<noteq> stripe"
    | (own) "\<not> unat bh \<le> unat b + 5500" "bs = stripe" by blast
  then show ?thesis
  proof cases
    case tip
    then have "b \<le> c \<Longrightarrow> c < bh \<Longrightarrow> has_unpruned_block c bh seed" for c
      using kept [of c] ub by (auto simp: keeps_def u64_le_iff u64_less_iff)
    then show ?thesis using tip eq by auto
  next
    case other
    then have "\<not> has_unpruned_block b bh seed"
      using kept [of b] ub bs by (auto simp: keeps_def word_unat_eq_iff)
    then show ?thesis using other eq by (auto simp: not_le)
  next
    case own
    have "unat b div 4096 mod 2 ^ unat lg + 1 = unat stripe" using own(2) bs by simp
    from next_pruned_own_stripe [OF assms own(1) this nxt_def [unfolded own(2)]]
    show ?thesis using eq own by (fastforce simp: u64_le_iff)
  qed
qed

section \<open>Properties\<close>

text \<open>Pruning seeds are a faithful record: for one to seven log stripes and a stripe in range,
  \<open>make_pruning_seed\<close> succeeds and the two accessors read back the stripe and the logarithm.\<close>

theorem pruning_seed_roundtrip:
  assumes "1 \<le> unat lg" "unat lg \<le> 7" "1 \<le> unat stripe" "unat stripe \<le> 2 ^ unat lg"
  shows "\<exists>seed. make_pruning_seed stripe lg = Some seed
    \<and> get_pruning_stripe_of_seed seed = stripe \<and> get_pruning_log_stripes seed = lg"
  using pruning_seed_make [OF assms] pruning_seed_facts(5,6) by metis

text \<open>C27: \<open>get_next_unpruned_block_height\<close> returns the least height from \<open>block_height\<close> on that a peer
  with that seed still has: it is not below \<open>block_height\<close>, the peer has it, and it has none in
  between. This covers the wrap to the next cycle of stripes and the unpruned tip of the chain.\<close>

theorem get_next_unpruned_least:
  assumes "pruning_seed_of seed stripe lg"
    and "b \<le> CRYPTONOTE_MAX_BLOCK_NUMBER + 1" "bh \<le> CRYPTONOTE_MAX_BLOCK_NUMBER + 1"
  shows "b \<le> get_next_unpruned_block_height b bh seed
    \<and> has_unpruned_block (get_next_unpruned_block_height b bh seed) bh seed
    \<and> (\<forall>c. b \<le> c \<and> c < get_next_unpruned_block_height b bh seed \<longrightarrow> \<not> has_unpruned_block c bh seed)"
  by (rule next_unpruned_least [OF assms])

theorem get_next_unpruned_least_witness:
  "pruning_seed_of 0x182 3 3 \<and> has_unpruned_block (get_next_unpruned_block_height 100 100000 0x182) 100000 0x182"
proof -
  have "pruning_seed_of 0x182 3 3" by code_simp
  with get_next_unpruned_least [OF this, of 100 100000] show ?thesis by (simp add: max_block_bound)
qed



end
