(* ===== verification/Difficulty.thy ===== *)
theory Difficulty
  imports Int_Util "HOL-Library.Multiset"
begin

text \<open>
  The proof-of-work target: \<open>src/cryptonote_basic/difficulty.cpp\<close> with the median of
  \<open>contrib/epee/include/misc_language.h\<close>. Timestamps, difficulties and \<open>target_seconds\<close> are
  64-bit words, cumulative difficulties 128-bit words; sizes and indices, which stay below the
  window lengths, are natural numbers. A failing \<open>assert\<close> and a division by zero are \<open>None\<close>.
  \<open>next_difficulty_v6\<close>, which computes in floating point, is not modelled.
\<close>

section \<open>Constants\<close>

definition DIFFICULTY_TARGET :: u64 where "DIFFICULTY_TARGET = 60"
definition DIFFICULTY_WINDOW :: nat where "DIFFICULTY_WINDOW = 720"
definition DIFFICULTY_CUT :: nat where "DIFFICULTY_CUT = 60"
definition DIFFICULTY_WINDOW_V2 :: nat where "DIFFICULTY_WINDOW_V2 = 17"
definition DIFFICULTY_CUT_V2 :: nat where "DIFFICULTY_CUT_V2 = 6"
definition DIFFICULTY_BLOCKS_COUNT_V2 :: nat where
  "DIFFICULTY_BLOCKS_COUNT_V2 = DIFFICULTY_WINDOW_V2 + DIFFICULTY_CUT_V2 * 2"
definition DIFFICULTY_WINDOW_V3 :: nat where "DIFFICULTY_WINDOW_V3 = 60"
definition DIFFICULTY_BLOCKS_COUNT_V3 :: nat where "DIFFICULTY_BLOCKS_COUNT_V3 = DIFFICULTY_WINDOW_V3"
definition MAX_AVERAGE_TIMESPAN :: u64 where "MAX_AVERAGE_TIMESPAN = DIFFICULTY_TARGET * 6"
definition MIN_AVERAGE_TIMESPAN :: u64 where "MIN_AVERAGE_TIMESPAN = DIFFICULTY_TARGET div 24"

lemmas difficulty_constants = DIFFICULTY_TARGET_def DIFFICULTY_WINDOW_def DIFFICULTY_CUT_def
  DIFFICULTY_WINDOW_V2_def DIFFICULTY_CUT_V2_def DIFFICULTY_BLOCKS_COUNT_V2_def
  DIFFICULTY_WINDOW_V3_def DIFFICULTY_BLOCKS_COUNT_V3_def MAX_AVERAGE_TIMESPAN_def MIN_AVERAGE_TIMESPAN_def

section \<open>Checking a hash against a difficulty\<close>

text \<open>Both variants of \<open>mul\<close> return the low and the high word of the product.\<close>

definition mul :: "u64 \<Rightarrow> u64 \<Rightarrow> u64 \<times> u64" where
  "mul a b = mul128 a b"

definition mul_portable :: "u64 \<Rightarrow> u64 \<Rightarrow> u64 \<times> u64" where
  "mul_portable a b =
    (let aLow = a AND 0xFFFFFFFF;
         aHigh = drop_bit 32 a;
         bLow = b AND 0xFFFFFFFF;
         bHigh = drop_bit 32 b;
         res = aLow * bLow;
         lowRes1 = res AND 0xFFFFFFFF;
         carry = drop_bit 32 res;
         res = aHigh * bLow + carry;
         highResHigh1 = drop_bit 32 res;
         highResLow1 = res AND 0xFFFFFFFF;
         res = aLow * bHigh;
         lowRes2 = res AND 0xFFFFFFFF;
         carry = drop_bit 32 res;
         res = aHigh * bHigh + carry;
         highResHigh2 = drop_bit 32 res;
         highResLow2 = res AND 0xFFFFFFFF;
         r = highResLow1 + lowRes2;
         carry = drop_bit 32 r;
         low = push_bit 32 r OR lowRes1;
         r = highResHigh1 + highResLow2 + carry;
         d3 = r AND 0xFFFFFFFF;
         carry = drop_bit 32 r;
         r = highResHigh2 + carry;
         high = d3 OR push_bit 32 r
     in (low, high))"

definition cadd :: "u64 \<Rightarrow> u64 \<Rightarrow> bool" where
  "cadd a b \<longleftrightarrow> a + b < a"

definition cadc :: "u64 \<Rightarrow> u64 \<Rightarrow> bool \<Rightarrow> bool" where
  "cadc a b c \<longleftrightarrow> a + b < a \<or> (c \<and> a + b = - 1)"

text \<open>Word \<open>i\<close> of the 32 bytes of a hash, \<open>swap64le(((const uint64_t *) &hash)[i])\<close>.\<close>

definition hash_word :: "hash \<Rightarrow> nat \<Rightarrow> u64" where
  "hash_word hash i = le_word (take 8 (drop (8 * i) hash))"

definition check_hash :: "hash \<Rightarrow> u64 \<Rightarrow> bool" where
  "check_hash hash difficulty =
    (let (top, high) = mul (hash_word hash 3) difficulty
     in if high \<noteq> 0 then False
        else
          let (low, cur) = mul (hash_word hash 0) difficulty;
              (low, high) = mul (hash_word hash 1) difficulty;
              carry = cadd cur low;
              cur = high;
              (low, high) = mul (hash_word hash 2) difficulty;
              carry = cadc cur low carry;
              carry = cadc high top carry
          in \<not> carry)"

text \<open>The loop of \<open>hex\<close> collects the digits of \<open>v\<close> from the lowest on.\<close>

function hex_digits :: "u128 \<Rightarrow> char list" where
  "hex_digits v =
    (if v > 0 then (''0123456789abcdef'' ! unat (v AND 0xf)) # hex_digits (drop_bit 4 v) else [])"
  by pat_completeness auto
termination
proof (relation "measure unat")
  fix v :: u128
  assume "0 < v"
  then have "0 < unat v" by (simp add: unat_gt_0)
  then show "(drop_bit 4 v, v) \<in> measure unat" by (simp only: in_measure unat_drop_bit_div) simp
qed simp

declare hex_digits.simps [simp del]

definition hex :: "u128 \<Rightarrow> string" where
  "hex v =
    (let s = hex_digits v;
         s = (if s = [] then ''0'' else s)
     in ''0x'' @ rev s)"

section \<open>The next difficulty\<close>

definition median :: "u64 list \<Rightarrow> u64" where
  "median v =
    (if v = [] then 0
     else if length v = 1 then v ! 0
     else
       let n = length v div 2;
           v = sort v
       in if length v mod 2 \<noteq> 0 then v ! n else (v ! (n - 1) + v ! n) div 2)"

text \<open>The window after the outliers of the sorted timestamps are cut, as \<open>cut_begin\<close> and \<open>cut_end\<close>.\<close>

definition cut_window :: "nat \<Rightarrow> nat \<Rightarrow> nat \<times> nat" where
  "cut_window len keep =
    (if len \<le> keep then (0, len)
     else let cut_begin = (len - keep + 1) div 2 in (cut_begin, cut_begin + keep))"

definition next_difficulty :: "u64 list \<Rightarrow> u128 list \<Rightarrow> u64 \<Rightarrow> u64 option" where
  "next_difficulty timestamps cumulative_difficulties target_seconds =
    (let (timestamps, cumulative_difficulties) =
           (if length timestamps > DIFFICULTY_WINDOW
            then (take DIFFICULTY_WINDOW timestamps, resize cumulative_difficulties DIFFICULTY_WINDOW 0)
            else (timestamps, cumulative_difficulties));
         len = length timestamps
     in if len \<noteq> length cumulative_difficulties then None
        else if len \<le> 1 then Some 1
        else
          let timestamps = sort timestamps;
              (cut_begin, cut_end) = cut_window len (DIFFICULTY_WINDOW - 2 * DIFFICULTY_CUT)
          in if \<not> (cut_begin + 2 \<le> cut_end \<and> cut_end \<le> len) then None
             else
               let time_span = timestamps ! (cut_end - 1) - timestamps ! cut_begin;
                   time_span = (if time_span = 0 then 1 else time_span);
                   total_work = (ucast (cumulative_difficulties ! (cut_end - 1)
                                        - cumulative_difficulties ! cut_begin) :: u64)
               in if \<not> total_work > 0 then None
                  else
                    let (low, high) = mul total_work target_seconds
                    in if high \<noteq> 0 \<or> low + time_span - 1 < low then Some 0
                       else Some ((low + time_span - 1) div time_span))"

text \<open>The spans between neighbours whose median \<open>next_difficulty_v2\<close> takes.\<close>

definition time_spans_v2 :: "u64 list \<Rightarrow> nat \<Rightarrow> nat \<Rightarrow> u64 list" where
  "time_spans_v2 timestamps len cut_begin =
    map (\<lambda>i. let time_span = timestamps ! (i + 1) - timestamps ! i in if time_span = 0 then 1 else time_span)
      [len - cut_begin * 2 - 3..<len - 1]"

text \<open>\<open>MAX_AVERAGE_TIMESPAN\<close> and \<open>MIN_AVERAGE_TIMESPAN\<close> per block.\<close>

definition clamp_timespan :: "u64 \<Rightarrow> u64 \<Rightarrow> u64" where
  "clamp_timespan timespan_length adjusted_total_timespan =
    (let adjusted_total_timespan =
           (if adjusted_total_timespan > MAX_AVERAGE_TIMESPAN * timespan_length
            then MAX_AVERAGE_TIMESPAN * timespan_length else adjusted_total_timespan)
     in if adjusted_total_timespan < MIN_AVERAGE_TIMESPAN * timespan_length
        then MIN_AVERAGE_TIMESPAN * timespan_length else adjusted_total_timespan)"

definition adjusted_timespan_v2 :: "u64 list \<Rightarrow> nat \<Rightarrow> nat \<Rightarrow> nat \<Rightarrow> u64" where
  "adjusted_timespan_v2 timestamps len cut_begin cut_end =
    (let total_timespan = timestamps ! (cut_end - 1) - timestamps ! cut_begin;
         total_timespan = (if total_timespan = 0 then 1 else total_timespan);
         timespan_median =
           (if cut_begin > 0 \<and> len \<ge> cut_begin * 2 + 3
            then median (time_spans_v2 timestamps len cut_begin) else 0);
         timespan_length = (of_nat (len - cut_begin * 2 - 1) :: u64);
         total_timespan_median =
           (if timespan_median > 0 then timespan_median * timespan_length
            else total_timespan * 7 div 10)
     in clamp_timespan timespan_length ((total_timespan * 8 + total_timespan_median * 3) div 10))"

definition next_difficulty_v2 :: "u64 list \<Rightarrow> u128 list \<Rightarrow> u64 \<Rightarrow> u64 option" where
  "next_difficulty_v2 timestamps cumulative_difficulties target_seconds =
    (let (timestamps, cumulative_difficulties) =
           (if length timestamps > DIFFICULTY_BLOCKS_COUNT_V2
            then (take DIFFICULTY_BLOCKS_COUNT_V2 timestamps,
                  resize cumulative_difficulties DIFFICULTY_BLOCKS_COUNT_V2 0)
            else (timestamps, cumulative_difficulties));
         len = length timestamps
     in if len \<noteq> length cumulative_difficulties then None
        else if len \<le> 1 then Some 1
        else
          let timestamps = sort timestamps;
              (cut_begin, cut_end) = cut_window len (DIFFICULTY_BLOCKS_COUNT_V2 - 2 * DIFFICULTY_CUT_V2)
          in if \<not> (cut_begin + 2 \<le> cut_end \<and> cut_end \<le> len) then None
             else
               let adjusted_total_timespan = adjusted_timespan_v2 timestamps len cut_begin cut_end;
                   total_work = (ucast (cumulative_difficulties ! (cut_end - 1)
                                        - cumulative_difficulties ! cut_begin) :: u64)
               in if \<not> total_work > 0 then None
                  else
                    let (low, high) = mul total_work target_seconds
                    in if high \<noteq> 0 then Some 0
                       else if adjusted_total_timespan = 0 then None
                       else
                         let next_diff = (low + adjusted_total_timespan - 1) div adjusted_total_timespan
                         in Some (if next_diff < 1 then 1 else next_diff))"

text \<open>The two loops of \<open>next_difficulty_v3\<close>: \<open>v4\<close> measures from the highest timestamp so far, the
  other from the previous one. \<open>i\<close> is the index of the first of the remaining timestamps.\<close>

fun weighted_timespans_v4 :: "u64 \<Rightarrow> u64 list \<Rightarrow> nat \<Rightarrow> u64 \<Rightarrow> u64 \<Rightarrow> u64" where
  "weighted_timespans_v4 target_seconds [] i previous_max weighted_timespans = weighted_timespans"
| "weighted_timespans_v4 target_seconds (t # ts) i previous_max weighted_timespans =
    (let max_timestamp = (if t > previous_max then t else previous_max);
         timespan = max_timestamp - previous_max;
         timespan = (if timespan = 0 then 1
                     else if timespan > 10 * target_seconds then 10 * target_seconds else timespan)
     in weighted_timespans_v4 target_seconds ts (i + 1) max_timestamp
          (weighted_timespans + of_nat i * timespan))"

fun weighted_timespans_v3 :: "u64 \<Rightarrow> u64 list \<Rightarrow> nat \<Rightarrow> u64 \<Rightarrow> u64 \<Rightarrow> u64" where
  "weighted_timespans_v3 target_seconds [] i previous weighted_timespans = weighted_timespans"
| "weighted_timespans_v3 target_seconds (t # ts) i previous weighted_timespans =
    (let timespan = (if previous \<ge> t then 1 else t - previous);
         timespan = (if timespan > 10 * target_seconds then 10 * target_seconds else timespan)
     in weighted_timespans_v3 target_seconds ts (i + 1) t (weighted_timespans + of_nat i * timespan))"

definition next_difficulty_v3 :: "u64 list \<Rightarrow> u128 list \<Rightarrow> u64 \<Rightarrow> bool \<Rightarrow> u64 option" where
  "next_difficulty_v3 timestamps cumulative_difficulties target_seconds v4 =
    (let (timestamps, cumulative_difficulties) =
           (if length timestamps > DIFFICULTY_BLOCKS_COUNT_V3
            then (take DIFFICULTY_BLOCKS_COUNT_V3 timestamps,
                  resize cumulative_difficulties DIFFICULTY_BLOCKS_COUNT_V3 0)
            else (timestamps, cumulative_difficulties));
         len = length timestamps
     in if len \<noteq> length cumulative_difficulties then None
        else if len \<le> 1 then Some 1
        else
          let (weighted_timespans, target) =
                (if v4
                 then (weighted_timespans_v4 target_seconds (drop 1 timestamps) 1 (timestamps ! 0) 0,
                       99 * (of_nat ((len + 1) div 2) * target_seconds) div 100)
                 else (weighted_timespans_v3 target_seconds (drop 1 timestamps) 1 (timestamps ! 0) 0,
                       of_nat ((len + 1) div 2) * target_seconds));
              minimum_timespan = target_seconds * of_nat len div 2;
              weighted_timespans =
                (if weighted_timespans < minimum_timespan then minimum_timespan else weighted_timespans);
              total_work = (ucast (last cumulative_difficulties - cumulative_difficulties ! 0) :: u64)
          in if \<not> total_work > 0 then None
             else
               let (low, high) = mul total_work target
               in if high \<noteq> 0 then Some 0
                  else if weighted_timespans = 0 then None
                  else Some (low div weighted_timespans))"

section \<open>The portable product\<close>

lemma dword_bounds: "unat (x AND 0xFFFFFFFF :: u64) = unat x mod 2 ^ 32" "unat x mod 2 ^ 32 < 2 ^ 32"
    "unat (drop_bit 32 x :: u64) = unat x div 2 ^ 32" "unat x div 2 ^ 32 < 2 ^ 32" for x :: u64
  using unat_lo_dword [of x] unat_drop_bit_u64 [of 32 x] unat_u64_bound [of x]
  by (simp_all add: lo_dword_def less_mult_imp_div_less)

lemma mul_add_dword:
  fixes x y c :: u64
  assumes "unat x < 2 ^ 32" "unat y < 2 ^ 32" "unat c < 2 ^ 32"
  shows "unat (x * y + c) = unat x * unat y + unat c" and "unat x * unat y + unat c < 2 ^ 64"
proof -
  have "unat x * unat y \<le> (2 ^ 32 - 1) * (2 ^ 32 - 1)" using assms by (intro mult_mono) auto
  then show "unat x * unat y + unat c < 2 ^ 64" using assms(3) by simp
  then show "unat (x * y + c) = unat x * unat y + unat c" by (simp add: unat_add_u64 unat_mult_u64)
qed

text \<open>The sum of the partial products, with the carries of the code.\<close>

lemma column_sums:
  fixes W :: int
  assumes "c1 * W + l1 = p1" "h2 * W + l2 = q2 + c1" "c3 * W + l3 = p3"
    and "h4 * W + l4 = q4 + c3" "k1 * W + m1 = l2 + l3" "k2 * W + m2 = h2 + l4 + k1"
  shows "(m2 + (h4 + k2) * W) * (W * W) + (m1 * W + l1) = p1 + q2 * W + p3 * W + q4 * (W * W)"
proof -
  have "p1 = c1 * W + l1" "q2 = h2 * W + l2 - c1" "p3 = c3 * W + (k1 * W + m1 - l2)"
    "q4 = h4 * W + l4 - c3" "m2 = h2 + l4 + k1 - k2 * W"
    using assms by simp_all
  then show ?thesis by (simp only:) (simp add: algebra_simps)
qed

lemma portable_columns:
  fixes aL aH bL bH :: nat
  defines "W \<equiv> 2 ^ 32"
  defines "p1 \<equiv> aL * bL" defines "p2 \<equiv> aH * bL + p1 div W"
  defines "p3 \<equiv> aL * bH" defines "p4 \<equiv> aH * bH + p3 div W"
  defines "r1 \<equiv> p2 mod W + p3 mod W"
  defines "r2 \<equiv> p2 div W + p4 mod W + r1 div W"
  defines "r3 \<equiv> p4 div W + r2 div W"
  shows "(r2 mod W + r3 * W) * 2 ^ 64 + ((r1 mod W) * W + p1 mod W) = (aH * W + aL) * (bH * W + bL)"
proof -
  have W: "2 ^ 64 = W * W" by (simp add: W_def)
  have split: "int (n div W) * int W + int (n mod W) = int n" for n
    by (metis div_mult_mod_eq of_nat_add of_nat_mult)
  have "(int (r2 mod W) + (int (p4 div W) + int (r2 div W)) * int W) * (int W * int W)
        + (int (r1 mod W) * int W + int (p1 mod W))
      = int p1 + int (aH * bL) * int W + int p3 * int W + int (aH * bH) * (int W * int W)"
    by (rule column_sums [OF split _ split])
      (use split [of p2] split [of p4] split [of r1] split [of r2] in \<open>simp_all add: p2_def p4_def r1_def r2_def\<close>)
  then have "int ((r2 mod W + r3 * W) * (W * W) + ((r1 mod W) * W + p1 mod W))
      = int (p1 + (aH * bL) * W + p3 * W + (aH * bH) * (W * W))"
    by (simp only: r3_def of_nat_add of_nat_mult)
  then have "(r2 mod W + r3 * W) * 2 ^ 64 + ((r1 mod W) * W + p1 mod W)
      = p1 + (aH * bL) * W + p3 * W + (aH * bH) * 2 ^ 64"
    by (simp only: W of_nat_eq_iff)
  also have "\<dots> = (aH * W + aL) * (bH * W + bL)" by (simp add: W_def p1_def p3_def algebra_simps)
  finally show ?thesis .
qed

lemma or_push_dword: "unat x < 2 ^ 32 \<Longrightarrow> unat (x OR push_bit 32 r :: u64) = unat x + unat r * 2 ^ 32 mod 2 ^ 64"
proof -
  assume x: "unat x < 2 ^ 32"
  have "unat r * 2 ^ 32 mod 2 ^ 64 = (unat r mod 2 ^ 32) * 2 ^ 32"
    by (simp add: mod_mult_mult2 [of _ "4294967296" "4294967296 :: nat", simplified])
  moreover have "unat r mod 2 ^ 32 \<le> 2 ^ 32 - 1" by simp
  ultimately have "unat x + unat r * 2 ^ 32 mod 2 ^ 64 < 2 ^ 64" using x by simp
  then show ?thesis by (simp only: low_or_push_bit [OF x] unat_add_u64 unat_push_bit_u64 mod_less)
qed

lemma mul_portable_product:
  "unat (snd (mul_portable a b)) * 2 ^ 64 + unat (fst (mul_portable a b)) = unat a * unat b"
proof -
  define W :: nat where "W = 2 ^ 32"
  have W2: "(2 :: nat) ^ 64 = W * W" by (simp add: W_def)
  define aL aH bL bH where "aL = unat a mod W" and "aH = unat a div W" and "bL = unat b mod W" and "bH = unat b div W"
  define p1 p2 p3 p4 where "p1 = aL * bL" and "p2 = aH * bL + p1 div W" and "p3 = aL * bH" and "p4 = aH * bH + p3 div W"
  define r1 r2 r3 where "r1 = p2 mod W + p3 mod W" and "r2 = p2 div W + p4 mod W + r1 div W" and "r3 = p4 div W + r2 div W"
  have ab: "unat a = aH * W + aL" "unat b = bH * W + bL" by (simp_all add: aL_def aH_def bL_def bH_def)
  note total = portable_columns [where aL = aL and aH = aH and bL = bL and bH = bH, folded W_def, folded p1_def, folded p2_def p3_def,
      folded p4_def r1_def, folded r2_def, folded r3_def, folded ab]
  have sm: "n mod W < W" for n by (simp add: W_def)
  have "unat a * unat b < W * W * (W * W)"
    using unat_u64_bound [of a] unat_u64_bound [of b] unfolding W2 by (intro mult_strict_mono) (auto simp: W_def)
  with total have "r3 * W * (W * W) < W * W * (W * W)" unfolding W2 add_mult_distrib by linarith
  then have r3: "r3 < W" by simp
  let ?m = "\<lambda>x. x AND 0xFFFFFFFF :: u64"
  note d = dword_bounds [folded W_def]
  define P1 where "P1 = ?m a * ?m b"
  define P2 where "P2 = drop_bit 32 a * ?m b + drop_bit 32 P1"
  define P3 where "P3 = ?m a * drop_bit 32 b"
  define P4 where "P4 = drop_bit 32 a * drop_bit 32 b + drop_bit 32 P3"
  define R1 where "R1 = ?m P2 + ?m P3"
  define R2 where "R2 = drop_bit 32 P2 + ?m P4 + drop_bit 32 R1"
  define R3 where "R3 = drop_bit 32 P4 + drop_bit 32 R2"
  have p1: "unat P1 = p1"
    using mul_dwords_exact [of "?m a" "?m b"] d by (simp add: P1_def p1_def aL_def bL_def W_def)
  have p3: "unat P3 = p3"
    using mul_dwords_exact [of "?m a" "drop_bit 32 b"] d by (simp add: P3_def p3_def aL_def bH_def W_def)
  have pd: "p1 div W < W" "p3 div W < W" using d(4) [of P1] d(4) [of P3] by (simp_all only: p1 p3)
  have p2: "unat P2 = p2"
    using mul_add_dword(1) [of "drop_bit 32 a" "?m b" "drop_bit 32 P1", folded W_def] d p1 pd
    by (simp add: P2_def p2_def aH_def bL_def)
  have p4: "unat P4 = p4"
    using mul_add_dword(1) [of "drop_bit 32 a" "drop_bit 32 b" "drop_bit 32 P3", folded W_def] d p3 pd
    by (simp add: P4_def p4_def aH_def bH_def)
  have W4: "W + W + W < 2 ^ 64" by (simp add: W_def)
  have r1b: "r1 < W + W" using sm [of p2] sm [of p3] unfolding r1_def by linarith
  have r1: "unat R1 = r1"
    using r1b W4 by (simp only: R1_def unat_add_u64 d(1) p2 p3 flip: r1_def) simp
  have "p2 div W < W" "r1 div W < W" using d(4) [of P2] d(4) [of R1] by (simp_all only: p2 r1)
  then have r2b: "r2 < W + W + W" using sm [of p4] unfolding r2_def by linarith
  have r2: "unat R2 = r2"
    using r2b W4 by (simp only: R2_def unat_add_u64 d(1,3) p2 p4 r1 mod_add_left_eq flip: r2_def) simp
  have ur3: "unat R3 = r3" using r3 W4 by (simp only: R3_def unat_add_u64 d(3) p4 r2 flip: r3_def) simp
  have shift: "n * W mod 2 ^ 64 = (n mod W) * W" for n unfolding W2 by (simp add: mod_mult_mult2)
  have low: "unat (push_bit 32 R1 OR ?m P1) = (r1 mod W) * W + p1 mod W"
    using or_push_dword [of "?m P1" R1, folded W_def] sm [of p1]
    by (simp only: d(1) p1 r1 shift or.commute [of "push_bit 32 R1"])
  have high: "unat (?m R2 OR push_bit 32 R3) = r2 mod W + r3 * W"
    using or_push_dword [of "?m R2" R3, folded W_def] sm [of r2] mod_less [OF r3]
    by (simp only: d(1) r2 ur3 shift)
  have "mul_portable a b = (push_bit 32 R1 OR ?m P1, ?m R2 OR push_bit 32 R3)"
    by (simp only: mul_portable_def Let_def P1_def P2_def P3_def P4_def R1_def R2_def R3_def)
  then show ?thesis using total by (simp only: fst_conv snd_conv low high)
qed

text \<open>A 128-bit number has one pair of words.\<close>

lemma u64_pair_eq:
  assumes "unat (snd p) * 2 ^ 64 + unat (fst p) = unat (snd q) * 2 ^ 64 + unat (fst q :: u64)"
  shows "p = (q :: u64 \<times> u64)"
proof -
  have "(unat (snd p) * 2 ^ 64 + unat (fst p)) mod 2 ^ 64 = unat (fst p)"
    "(unat (snd q) * 2 ^ 64 + unat (fst q)) mod 2 ^ 64 = unat (fst q)"
    using unat_u64_bound [of "fst p"] unat_u64_bound [of "fst q"] by simp_all
  with assms have "unat (fst p) = unat (fst q)" "unat (snd p) = unat (snd q)" by simp_all
  then show ?thesis by (simp add: prod_eq_iff word_unat_eq_iff)
qed

lemma mul_portable_eq: "mul_portable a b = mul a b"
  by (rule u64_pair_eq) (simp only: mul_portable_product mul_def mul128_product)

section \<open>The proof-of-work check\<close>

lemma cadd_iff: "cadd a b \<longleftrightarrow> 2 ^ 64 \<le> unat a + unat b"
  by (simp only: cadd_def carry_u64)

lemma cadc_iff: "cadc a b c \<longleftrightarrow> 2 ^ 64 \<le> unat a + unat b + of_bool c"
proof (cases "2 ^ 64 \<le> unat a + unat b")
  case True
  then show ?thesis by (simp add: cadc_def carry_u64)
next
  case False
  have "unat (- 1 :: u64) = 2 ^ 64 - 1" by (simp add: unsigned_minus_1_eq_mask mask_eq_exp_minus_1)
  then have "a + b = - 1 \<longleftrightarrow> unat a + unat b = 2 ^ 64 - 1"
    using False by (simp add: u64_eq_iff unat_add_u64)
  then show ?thesis using False by (auto simp: cadc_def carry_u64)
qed

text \<open>Adding up the columns of a four-word product: it fits in four words iff no carry leaves the top.\<close>

lemma four_word_product:
  fixes B :: nat
  assumes "0 < B" "l0 < B" "p = l0 + B * (h0 + l1) + B ^ 2 * (h1 + l2) + B ^ 3 * (h2 + l3) + B ^ 4 * h3"
  defines "c1 \<equiv> (h0 + l1) div B" defines "c2 \<equiv> (h1 + l2 + c1) div B" defines "c3 \<equiv> (h2 + l3 + c2) div B"
  shows "p < B ^ 4 \<longleftrightarrow> h3 = 0 \<and> c3 = 0"
proof -
  define r1 r2 r3 where "r1 = (h0 + l1) mod B" and "r2 = (h1 + l2 + c1) mod B" and "r3 = (h2 + l3 + c2) mod B"
  have split: "h0 + l1 = c1 * B + r1" "h1 + l2 + c1 = c2 * B + r2" "h2 + l3 + c2 = c3 * B + r3"
    by (simp_all only: c1_def c2_def c3_def r1_def r2_def r3_def div_mult_mod_eq)
  have r: "r1 \<le> B - 1" "r2 \<le> B - 1" "r3 \<le> B - 1" "l0 \<le> B - 1"
    using assms(1,2) by (auto simp: r1_def r2_def r3_def less_Suc_eq_le [symmetric])
  have "p = l0 + B * (c1 * B + r1) + B ^ 2 * (h1 + l2) + B ^ 3 * (h2 + l3) + B ^ 4 * h3"
    by (simp only: assms(3) split(1))
  also have "\<dots> = l0 + B * r1 + B ^ 2 * (h1 + l2 + c1) + B ^ 3 * (h2 + l3) + B ^ 4 * h3"
    by (simp add: algebra_simps power2_eq_square)
  also have "\<dots> = l0 + B * r1 + B ^ 2 * r2 + B ^ 3 * (h2 + l3 + c2) + B ^ 4 * h3"
    by (simp only: split(2)) (simp add: algebra_simps power2_eq_square power3_eq_cube)
  also have "\<dots> = (l0 + B * r1 + B ^ 2 * r2 + B ^ 3 * r3) + B ^ 4 * (c3 + h3)"
    by (simp only: split(3)) (simp add: algebra_simps power3_eq_cube power4_eq_xxxx)
  finally have p: "p = (l0 + B * r1 + B ^ 2 * r2 + B ^ 3 * r3) + B ^ 4 * (c3 + h3)" .
  have "l0 + B * r1 + B ^ 2 * r2 + B ^ 3 * r3 \<le> (B - 1) + B * (B - 1) + B ^ 2 * (B - 1) + B ^ 3 * (B - 1)"
    using r by (intro add_mono mult_left_mono) auto
  also have "\<dots> < B ^ 4"
    using assms(1) by (cases B) (simp_all add: power2_eq_square power3_eq_cube power4_eq_xxxx algebra_simps)
  finally have small: "l0 + B * r1 + B ^ 2 * r2 + B ^ 3 * r3 < B ^ 4" .
  show ?thesis
  proof (cases "c3 + h3")
    case 0
    then show ?thesis using p small by simp
  next
    case (Suc n)
    then have "B ^ 4 \<le> B ^ 4 * (c3 + h3)" by simp
    then show ?thesis using p Suc by auto
  qed
qed

lemma div_carry: "x < 2 * B \<Longrightarrow> x div B = of_bool (B \<le> x)" for x B :: nat
  by (cases "B \<le> x") (simp_all add: le_div_geq)

lemma le_nat_append: "le_nat (xs @ ys) = le_nat xs + 256 ^ length xs * le_nat ys"
  by (induction xs) (simp_all add: algebra_simps)

lemma le_nat_hash_words:
  assumes "length hash = 32"
  shows "le_nat hash = unat (hash_word hash 0) + 2 ^ 64 * unat (hash_word hash 1)
    + (2 ^ 64) ^ 2 * unat (hash_word hash 2) + (2 ^ 64) ^ 3 * unat (hash_word hash 3)"
proof -
  have w: "unat (hash_word hash i) = le_nat (take 8 (drop (8 * i) hash))" for i
    unfolding hash_word_def by (rule unat_le_word) simp
  have split: "le_nat (drop n hash) = le_nat (take 8 (drop n hash)) + 2 ^ 64 * le_nat (drop (n + 8) hash)"
    if "n + 8 \<le> 32" for n
  proof -
    have "le_nat (drop n hash) = le_nat (take 8 (drop n hash) @ drop 8 (drop n hash))" by (simp only: append_take_drop_id)
    also have "\<dots> = le_nat (take 8 (drop n hash)) + 2 ^ 64 * le_nat (drop (n + 8) hash)"
      using that assms by (simp only: le_nat_append) (simp add: add.commute)
    finally show ?thesis .
  qed
  have step: "le_nat (drop n hash) = unat (hash_word hash (n div 8)) + 2 ^ 64 * le_nat (drop (n + 8) hash)"
    if "n + 8 \<le> 32" "8 * (n div 8) = n" for n
    using split [OF that(1)] w [of "n div 8"] that(2) by simp
  have "le_nat hash = unat (hash_word hash 0) + 2 ^ 64 * le_nat (drop 8 hash)" using step [of 0] by simp
  moreover have "le_nat (drop 8 hash) = unat (hash_word hash 1) + 2 ^ 64 * le_nat (drop 16 hash)" using step [of 8] by simp
  moreover have "le_nat (drop 16 hash) = unat (hash_word hash 2) + 2 ^ 64 * le_nat (drop 24 hash)" using step [of 16] by simp
  moreover have "le_nat (drop 24 hash) = unat (hash_word hash 3)" using step [of 24] assms by simp
  ultimately show ?thesis by (simp only:) simp
qed

lemma check_hash_product:
  assumes "length hash = 32"
  shows "check_hash hash difficulty \<longleftrightarrow> le_nat hash * unat difficulty < 2 ^ 256"
proof -
  define B :: nat where "B = 2 ^ 64"
  have B0: "0 < B" by (simp add: B_def)
  define m where "m i = mul (hash_word hash i) difficulty" for i
  define l h where "l i = unat (fst (m i))" and "h i = unat (snd (m i))" for i
  have lt: "l i < B" "h i < B" for i using unat_u64_bound by (simp_all add: l_def h_def B_def)
  have prod: "unat (hash_word hash i) * unat difficulty = h i * B + l i" for i
    using mul128_product [of "hash_word hash i" difficulty] by (simp add: h_def l_def m_def mul_def B_def)
  have "le_nat hash * unat difficulty = unat (hash_word hash 0) * unat difficulty
      + B * (unat (hash_word hash 1) * unat difficulty) + B ^ 2 * (unat (hash_word hash 2) * unat difficulty)
      + B ^ 3 * (unat (hash_word hash 3) * unat difficulty)"
    by (simp only: le_nat_hash_words [OF assms, folded B_def] add_mult_distrib mult.assoc)
  also have "\<dots> = l 0 + B * (h 0 + l 1) + B ^ 2 * (h 1 + l 2) + B ^ 3 * (h 2 + l 3) + B ^ 4 * h 3"
    by (simp only: prod) (simp add: algebra_simps power2_eq_square power3_eq_cube power4_eq_xxxx)
  finally have p: "le_nat hash * unat difficulty
      = l 0 + B * (h 0 + l 1) + B ^ 2 * (h 1 + l 2) + B ^ 3 * (h 2 + l 3) + B ^ 4 * h 3" .
  define c1 c2 c3 where "c1 = cadd (snd (m 0)) (fst (m 1))" and "c2 = cadc (snd (m 1)) (fst (m 2)) c1"
    and "c3 = cadc (snd (m 2)) (fst (m 3)) c2"
  have c: "c1 \<longleftrightarrow> B \<le> h 0 + l 1" "c2 \<longleftrightarrow> B \<le> h 1 + l 2 + of_bool c1" "c3 \<longleftrightarrow> B \<le> h 2 + l 3 + of_bool c2"
    by (simp_all only: c1_def c2_def c3_def cadd_iff cadc_iff h_def l_def B_def)
  have bnd: "h i + l j + of_bool b < 2 * B" for i j b using lt(2) [of i] lt(1) [of j] by (cases b) simp_all
  have d: "(h 0 + l 1) div B = of_bool c1" "(h 1 + l 2 + of_bool c1) div B = of_bool c2"
    "(h 2 + l 3 + of_bool c2) div B = of_bool c3"
    using div_carry [OF bnd [of 0 1 False]] div_carry [OF bnd [of 1 2 c1]] div_carry [OF bnd [of 2 3 c2]] c
    by simp_all
  have "le_nat hash * unat difficulty < B ^ 4 \<longleftrightarrow> h 3 = 0 \<and> \<not> c3"
    using four_word_product [OF B0 lt(1) p] by (simp only: d of_bool_eq_0_iff)
  moreover have "h 3 = 0 \<longleftrightarrow> snd (m 3) = 0" by (simp add: h_def unat_eq_zero)
  moreover have "check_hash hash difficulty \<longleftrightarrow> snd (m 3) = 0 \<and> \<not> c3"
    by (simp add: check_hash_def c3_def c2_def c1_def m_def case_prod_beta Let_def)
  moreover have "B ^ 4 = 2 ^ 256" by (simp add: B_def)
  ultimately show ?thesis by simp
qed

section \<open>The classic rule: work over time span, rounded up\<close>

lemma unat_sorted_diff:
  assumes "i \<le> j" "j < length ts"
  shows "unat (sort ts ! j - sort ts ! i :: u64) = unat (sort ts ! j) - unat (sort ts ! i)"
  using assms by (intro unat_sub_u64 sorted_nth_mono) simp_all

lemma unat_at_least_one: "unat (if x = 0 then 1 else x :: u64) = max 1 (unat x)"
  using unat_gt_0 [of x] by (auto simp: max_def)

lemma mul_high_zero_iff: "snd (mul a b) = 0 \<longleftrightarrow> unat a * unat b < 2 ^ 64"
  and unat_mul_low: "unat a * unat b < 2 ^ 64 \<Longrightarrow> unat (fst (mul a b)) = unat a * unat b"
proof -
  have prod: "unat (snd (mul a b)) * 2 ^ 64 + unat (fst (mul a b)) = unat a * unat b"
    unfolding mul_def by (rule mul128_product)
  show iff: "snd (mul a b) = 0 \<longleftrightarrow> unat a * unat b < 2 ^ 64"
  proof
    assume "snd (mul a b) = 0"
    then show "unat a * unat b < 2 ^ 64" using prod unat_u64_bound [of "fst (mul a b)"] by simp
  next
    assume small: "unat a * unat b < 2 ^ 64"
    have "unat (snd (mul a b)) = 0"
    proof (rule ccontr)
      assume "unat (snd (mul a b)) \<noteq> 0"
      then have "1 * 2 ^ 64 \<le> unat (snd (mul a b)) * 2 ^ 64" by (intro mult_right_mono) auto
      with prod small show False by simp
    qed
    then show "snd (mul a b) = 0" by (simp add: unat_eq_zero)
  qed
  assume "unat a * unat b < 2 ^ 64"
  with prod iff show "unat (fst (mul a b)) = unat a * unat b" by simp
qed

lemma ceiling_division:
  fixes low span :: u64
  assumes "1 \<le> unat span"
  shows "low + span - 1 < low \<longleftrightarrow> 2 ^ 64 \<le> unat low + unat span - 1"
    and "unat low + unat span - 1 < 2 ^ 64 \<Longrightarrow>
      unat ((low + span - 1) div span) = (unat low + unat span - 1) div unat span"
proof -
  have eq: "low + span - 1 = low + (span - 1)" by simp
  have s: "unat (span - 1) = unat span - 1" using assms by (subst unat_sub_u64) (auto simp: u64_le_iff)
  show "low + span - 1 < low \<longleftrightarrow> 2 ^ 64 \<le> unat low + unat span - 1"
    using assms by (simp only: eq carry_u64 s) simp
  assume "unat low + unat span - 1 < 2 ^ 64"
  moreover have "unat low + unat span - 1 = unat low + (unat span - 1)" using assms by simp
  ultimately show "unat ((low + span - 1) div span) = (unat low + unat span - 1) div unat span"
    by (simp only: eq unat_div_u64 unat_add_u64 s mod_less)
qed

lemma cut_window_valid:
  assumes "2 \<le> len" "2 \<le> keep" "cut_window len keep = (cb, ce)"
  shows "cb + 2 \<le> ce" "ce \<le> len"
  using assms by (auto simp: cut_window_def Let_def split: if_splits)

text \<open>The work of the blocks in the window, and their time span, as numbers.\<close>

definition window_work :: "u128 list \<Rightarrow> nat \<times> nat \<Rightarrow> nat" where
  "window_work cds w = unat (ucast (cds ! (snd w - 1) - cds ! fst w) :: u64)"

definition window_span :: "u64 list \<Rightarrow> nat \<times> nat \<Rightarrow> nat" where
  "window_span ts w = max 1 (unat (sort ts ! (snd w - 1)) - unat (sort ts ! fst w))"

lemma next_difficulty_nat:
  assumes len: "2 \<le> length ts" "length ts \<le> 720" "length cds = length ts"
  defines "w \<equiv> cut_window (length ts) 600"
  assumes work: "0 < window_work cds w"
  shows "\<exists>r. next_difficulty ts cds T = Some r \<and>
    unat r = (if window_work cds w * unat T + window_span ts w - 1 < 2 ^ 64
              then (window_work cds w * unat T + window_span ts w - 1) div window_span ts w else 0)"
proof -
  obtain cb ce where w: "w = (cb, ce)" by (cases w)
  have cut: "cb + 2 \<le> ce" "ce \<le> length ts"
    using cut_window_valid [OF len(1), of 600 cb ce] w by (simp_all add: w_def)
  define span :: u64 where "span = (let s = sort ts ! (ce - 1) - sort ts ! cb in if s = 0 then 1 else s)"
  define tw :: u64 where "tw = ucast (cds ! (ce - 1) - cds ! cb)"
  have span: "unat span = window_span ts w"
  proof -
    have "unat (sort ts ! (ce - 1) - sort ts ! cb) = unat (sort ts ! (ce - 1)) - unat (sort ts ! cb)"
      using cut by (intro unat_sorted_diff) auto
    then show ?thesis by (simp only: span_def window_span_def w Let_def unat_at_least_one fst_conv snd_conv)
  qed
  have tw: "unat tw = window_work cds w" by (simp add: tw_def window_work_def w)
  have tw0: "tw > 0" using work tw by (simp add: u64_less_iff)
  have s1: "1 \<le> unat span" unfolding span window_span_def by simp
  have eq: "next_difficulty ts cds T = Some
      (if snd (mul tw T) \<noteq> 0 \<or> fst (mul tw T) + span - 1 < fst (mul tw T) then 0
       else (fst (mul tw T) + span - 1) div span)"
    using len cut tw0 w unfolding next_difficulty_def Let_def span_def tw_def w_def
    by (simp add: difficulty_constants case_prod_beta)
  show ?thesis
  proof (cases "unat tw * unat T < 2 ^ 64")
    case True
    note low = unat_mul_low [OF True]
    show ?thesis using True mul_high_zero_iff [of tw T] ceiling_division [OF s1, of "fst (mul tw T)"] eq
      by (simp add: low flip: tw span)
  next
    case False
    then have "2 ^ 64 \<le> unat tw * unat T + unat span - 1" using s1 by linarith
    then show ?thesis using False mul_high_zero_iff [of tw T] eq by (simp add: not_less flip: tw span)
  qed
qed

section \<open>The second rule: a clamped time span\<close>

lemma clamp_timespan_bounds:
  assumes "n \<le> 2 ^ 32"
  shows "2 * n \<le> unat (clamp_timespan (of_nat n) a)" "unat (clamp_timespan (of_nat n) a) \<le> 360 * n"
proof -
  have "unat (MAX_AVERAGE_TIMESPAN * of_nat n) = 360 * n" "unat (MIN_AVERAGE_TIMESPAN * of_nat n) = 2 * n"
    using assms by (simp_all add: difficulty_constants unat_mult_u64 unat_of_nat_u64 unat_div_u64)
  then show "2 * n \<le> unat (clamp_timespan (of_nat n) a)" "unat (clamp_timespan (of_nat n) a) \<le> 360 * n"
    by (auto simp: clamp_timespan_def Let_def u64_less_iff)
qed

lemma next_difficulty_v2_nat:
  assumes len: "2 \<le> length ts" "length ts \<le> 29" "length cds = length ts"
  defines "w \<equiv> cut_window (length ts) 17"
  defines "n \<equiv> length ts - fst w * 2 - 1"
  assumes work: "0 < window_work cds w" "window_work cds w * unat T + 360 * n < 2 ^ 64"
  shows "\<exists>r adjusted. next_difficulty_v2 ts cds T = Some r \<and> 2 * n \<le> adjusted \<and> adjusted \<le> 360 * n \<and> 1 \<le> n \<and>
    unat r = max 1 ((window_work cds w * unat T + adjusted - 1) div adjusted)"
proof -
  obtain cb ce where w: "w = (cb, ce)" by (cases w)
  have cut: "cb + 2 \<le> ce" "ce \<le> length ts"
    using cut_window_valid [OF len(1), of 17 cb ce] w by (simp_all add: w_def)
  have "cb * 2 + 1 < length ts"
    using w len(1) by (auto simp: w_def cut_window_def Let_def split: if_splits)
  then have n: "1 \<le> n" "n \<le> 2 ^ 32" using len(2) by (simp_all add: n_def w)
  define tw :: u64 where "tw = ucast (cds ! (ce - 1) - cds ! cb)"
  have tw: "unat tw = window_work cds w" by (simp add: tw_def window_work_def w)
  have tw0: "tw > 0" using work(1) tw by (simp add: u64_less_iff)
  define a where "a = adjusted_timespan_v2 (sort ts) (length ts) cb ce"
  have a: "2 * n \<le> unat a" "unat a \<le> 360 * n"
    using clamp_timespan_bounds [OF n(2)] by (simp_all add: a_def adjusted_timespan_v2_def Let_def n_def w)
  have small: "unat tw * unat T < 2 ^ 64" "snd (mul tw T) = 0"
    using work(2) tw by (simp_all add: mul_high_zero_iff)
  have eq: "next_difficulty_v2 ts cds T = (if a = 0 then None
      else Some (let d = (fst (mul tw T) + a - 1) div a in if d < 1 then 1 else d))"
    using len cut tw0 w n_def small(2) unfolding next_difficulty_v2_def Let_def tw_def w_def a_def
    by (simp add: difficulty_constants case_prod_beta)
  have a1: "1 \<le> unat a" using a(1) n(1) by linarith
  then have "a \<noteq> 0" by auto
  moreover have "unat ((fst (mul tw T) + a - 1) div a) = (unat tw * unat T + unat a - 1) div unat a"
    using ceiling_division(2) [OF a1, of "fst (mul tw T)"] work(2) a(2) tw
    by (simp only: unat_mul_low [OF small(1)])
  ultimately show ?thesis
    using a n(1) eq unfolding tw [symmetric]
    by (intro exI [of _ "let d = (fst (mul tw T) + a - 1) div a in if d < 1 then 1 else d"] exI [of _ "unat a"])
      (auto simp: Let_def u64_less_iff max_def)
qed

section \<open>The third rule: linearly weighted time spans\<close>

text \<open>The weighted sum over natural numbers: solve times are clamped to one second and ten targets.\<close>

fun span_sum :: "bool \<Rightarrow> nat \<Rightarrow> nat list \<Rightarrow> nat \<Rightarrow> nat \<Rightarrow> nat" where
  "span_sum v4 T [] i prev = 0"
| "span_sum v4 T (t # ts) i prev =
    i * max 1 (min (10 * T) (t - prev)) + span_sum v4 T ts (i + 1) (if v4 then max t prev else t)"

fun weight_sum :: "nat \<Rightarrow> nat \<Rightarrow> nat" where
  "weight_sum i 0 = 0"
| "weight_sum i (Suc n) = i + weight_sum (i + 1) n"

lemma weight_sum_closed: "2 * weight_sum i n + n = n * (2 * i + n)"
proof (induction n arbitrary: i)
  case (Suc n)
  from Suc.IH [of "i + 1"] show ?case by simp
qed simp

lemma span_sum_bounds:
  "weight_sum i (length ts) \<le> span_sum v4 T ts i prev
    \<and> (0 < T \<longrightarrow> span_sum v4 T ts i prev \<le> 10 * T * weight_sum i (length ts))"
proof (induction ts arbitrary: i prev)
  case (Cons t ts)
  define q where "q = (if v4 then max t prev else t)"
  define c where "c = max 1 (min (10 * T) (t - prev))"
  have sum: "span_sum v4 T (t # ts) i prev = i * c + span_sum v4 T ts (i + 1) q"
    by (simp only: span_sum.simps c_def q_def)
  have lo: "i * 1 \<le> i * c" unfolding c_def by (intro mult_left_mono) auto
  have "span_sum v4 T (t # ts) i prev \<le> 10 * T * weight_sum i (length (t # ts))" if "0 < T"
  proof -
    have "i * c \<le> i * (10 * T)" using that unfolding c_def by (intro mult_left_mono) auto
    moreover have "10 * T * weight_sum i (length (t # ts)) = i * (10 * T) + 10 * T * weight_sum (i + 1) (length ts)"
      by (simp add: algebra_simps)
    ultimately show ?thesis using Cons.IH [of "i + 1" q] that unfolding sum by linarith
  qed
  moreover have "weight_sum i (length (t # ts)) \<le> span_sum v4 T (t # ts) i prev"
  proof -
    have "weight_sum i (length (t # ts)) = i + weight_sum (i + 1) (length ts)" by simp
    with Cons.IH [of "i + 1" q] lo show ?thesis unfolding sum by linarith
  qed
  ultimately show ?case by blast
qed simp

lemma unat_timespan:
  assumes "1 \<le> unat T" "10 * unat T < 2 ^ 64"
  shows "unat (let s = (if t > p then t else p) - p in if s = 0 then 1 else if s > 10 * T then 10 * T else s)
      = max 1 (min (10 * unat T) (unat t - unat (p :: u64)))"
    and "unat (let s = (if p \<ge> t then 1 else t - p) in if s > 10 * T then 10 * T else s)
      = max 1 (min (10 * unat T) (unat t - unat p))"
proof -
  have T: "unat (10 * T) = 10 * unat T" using assms(2) by (simp add: unat_mult_u64)
  have d: "t > p \<Longrightarrow> unat (t - p) = unat t - unat p" by (rule unat_sub_u64) simp
  show "unat (let s = (if t > p then t else p) - p in if s = 0 then 1 else if s > 10 * T then 10 * T else s)
      = max 1 (min (10 * unat T) (unat t - unat p))"
    using assms(1) T d by (cases "t > p") (auto simp: Let_def u64_less_iff)
  show "unat (let s = (if p \<ge> t then 1 else t - p) in if s > 10 * T then 10 * T else s)
      = max 1 (min (10 * unat T) (unat t - unat p))"
    using assms(1) T d by (cases "t > p") (auto simp: Let_def u64_less_iff u64_le_iff not_less)
qed

lemma unat_weighted:
  assumes T: "1 \<le> unat T" "10 * unat T < 2 ^ 64"
  shows "unat w + span_sum v4 (unat T) (map unat ts) i (unat p) < 2 ^ 64 \<Longrightarrow> i + length ts < 2 ^ 64 \<Longrightarrow>
    unat ((if v4 then weighted_timespans_v4 else weighted_timespans_v3) T ts i p w)
      = unat w + span_sum v4 (unat T) (map unat ts) i (unat p)"
proof (induction ts arbitrary: i p w)
  case (Cons t ts)
  define c where "c = (if v4 then (let s = (if t > p then t else p) - p in if s = 0 then 1 else if s > 10 * T then 10 * T else s)
    else (let s = (if p \<ge> t then 1 else t - p) in if s > 10 * T then 10 * T else s))"
  define q where "q = (if v4 then (if t > p then t else p) else t)"
  have c: "unat c = max 1 (min (10 * unat T) (unat t - unat p))"
    unfolding c_def by (cases v4) (simp_all only: if_True if_False unat_timespan [OF T])
  have q: "unat q = (if v4 then max (unat t) (unat p) else unat t)" by (auto simp: q_def u64_less_iff)
  have sum: "span_sum v4 (unat T) (map unat (t # ts)) i (unat p) = i * unat c + span_sum v4 (unat T) (map unat ts) (i + 1) (unat q)"
    by (simp add: c q)
  have "unat w + i * unat c < 2 ^ 64" using Cons.prems(1) sum by linarith
  moreover have "unat (of_nat i :: u64) = i" using Cons.prems(2) by (intro unat_of_nat_u64) simp
  ultimately have w: "unat (w + of_nat i * c) = unat w + i * unat c"
    by (simp only: unat_add_u64 unat_mult_u64 mod_add_right_eq) simp
  have "(if v4 then weighted_timespans_v4 else weighted_timespans_v3) T (t # ts) i p w
      = (if v4 then weighted_timespans_v4 else weighted_timespans_v3) T ts (i + 1) q (w + of_nat i * c)"
    by (simp add: c_def q_def Let_def)
  with Cons.IH [of "w + of_nat i * c" "i + 1" q] Cons.prems show ?case by (simp only: sum w) simp
qed simp

text \<open>The target by which the work is multiplied, as a number.\<close>

definition v3_target :: "bool \<Rightarrow> nat \<Rightarrow> nat \<Rightarrow> nat" where
  "v3_target v4 n T = (if v4 then 99 * ((n + 1) div 2 * T) div 100 else (n + 1) div 2 * T)"

definition v3_divisor :: "bool \<Rightarrow> u64 list \<Rightarrow> nat \<Rightarrow> nat" where
  "v3_divisor v4 ts T = max (T * length ts div 2) (span_sum v4 T (map unat (tl ts)) 1 (unat (hd ts)))"

lemma v3_divisor_bounds:
  assumes "2 \<le> length ts" "1 \<le> T"
  defines "n \<equiv> length ts"
  shows "1 \<le> v3_divisor v4 ts T" "T * n div 2 \<le> v3_divisor v4 ts T" "v3_divisor v4 ts T \<le> 10 * T * (n * (n - 1) div 2)"
proof -
  obtain t us where ts: "ts = t # us" "length us = n - 1" using assms(1) by (cases ts) (auto simp: n_def)
  have tri: "2 * weight_sum 1 (n - 1) = n * (n - 1)"
    using weight_sum_closed [of 1 "n - 1"] assms(1) by (cases n) (auto simp: n_def)
  note b = span_sum_bounds [of 1 "map unat us" v4 T "unat t", unfolded length_map ts(2)]
  have D: "v3_divisor v4 ts T = max (T * n div 2) (span_sum v4 T (map unat us) 1 (unat t))"
    by (simp add: v3_divisor_def ts(1) n_def)
  have "1 \<le> weight_sum 1 (n - 1)" using assms(1) by (cases "n - 1") (auto simp: n_def)
  with b show "1 \<le> v3_divisor v4 ts T" unfolding D by linarith
  show "T * n div 2 \<le> v3_divisor v4 ts T" unfolding D by simp
  have "n * 1 \<le> n * (n - 1)" using assms(1) by (intro mult_left_mono) (auto simp: n_def)
  then have "T * n \<le> 10 * T * (n * (n - 1))" by (intro mult_mono) auto
  then have "T * n \<le> 2 * (10 * T * weight_sum 1 (n - 1))" unfolding tri [symmetric] by (simp only: mult_ac)
  then have "T * n div 2 \<le> 10 * T * weight_sum 1 (n - 1)" by linarith
  moreover have "span_sum v4 T (map unat us) 1 (unat t) \<le> 10 * T * weight_sum 1 (n - 1)"
    using b assms(2) by linarith
  moreover have "n * (n - 1) div 2 = weight_sum 1 (n - 1)" using tri by simp
  ultimately show "v3_divisor v4 ts T \<le> 10 * T * (n * (n - 1) div 2)" unfolding D by simp
qed

lemma next_difficulty_v3_nat:
  assumes len: "2 \<le> length ts" "length ts \<le> 60" "length cds = length ts"
    and T: "1 \<le> unat T" "unat T \<le> 2 ^ 32"
  defines "tw \<equiv> ucast (last cds - cds ! 0) :: u64"
  assumes work: "tw > 0" "unat tw * v3_target v4 (length ts) (unat T) < 2 ^ 64"
  shows "\<exists>r. next_difficulty_v3 ts cds T v4 = Some r
    \<and> unat r = unat tw * v3_target v4 (length ts) (unat T) div v3_divisor v4 ts (unat T)"
proof -
  obtain t us where ts: "ts = t # us" using len(1) by (cases ts) auto
  define n where "n = length ts"
  note D = v3_divisor_bounds [OF len(1) T(1), of v4, folded n_def]
  define weighted where "weighted = (if v4 then weighted_timespans_v4 else weighted_timespans_v3) T us 1 t 0"
  define target :: u64 where "target = (if v4 then 99 * (of_nat ((n + 1) div 2) * T) div 100 else of_nat ((n + 1) div 2) * T)"
  have n: "n \<le> 60" using len(2) by (simp add: n_def)
  have "10 * unat T * (n * (n - 1) div 2) \<le> 10 * 2 ^ 32 * (60 * 60 div 2)"
    using T(2) n by (intro mult_mono div_le_mono) auto
  then have fit: "v3_divisor v4 ts (unat T) < 2 ^ 64" using D(3) by simp
  have w: "unat weighted = span_sum v4 (unat T) (map unat us) 1 (unat t)"
    using unat_weighted [of T 0 v4 us 1 t] T n fit by (simp add: weighted_def v3_divisor_def ts n_def)
  define k where "k = (n + 1) div 2"
  have "k \<le> 30" using n by (simp add: k_def)
  then have k: "unat (of_nat k :: u64) = k" by (intro unat_of_nat_u64) simp
  have "k * unat T \<le> 30 * 2 ^ 32" using T(2) \<open>k \<le> 30\<close> by (intro mult_mono) auto
  then have target: "unat target = v3_target v4 n (unat T)"
    unfolding target_def v3_target_def k_def [symmetric]
    by (cases v4) (simp_all add: unat_mult_u64 unat_div_u64 k)
  have "unat T * n \<le> 2 ^ 32 * 60" using T(2) n by (intro mult_mono) auto
  moreover have "unat (of_nat n :: u64) = n" using n by (intro unat_of_nat_u64) simp
  ultimately have m: "unat (T * of_nat n div 2) = unat T * n div 2"
    by (simp add: unat_mult_u64 unat_div_u64)
  define d where "d = (if weighted < T * of_nat n div 2 then T * of_nat n div 2 else weighted)"
  have d: "unat d = v3_divisor v4 ts (unat T)"
  proof -
    have "v3_divisor v4 ts (unat T) = max (unat T * n div 2) (unat weighted)"
      by (simp add: v3_divisor_def ts n_def w)
    then show ?thesis by (auto simp: d_def u64_less_iff m)
  qed
  then have "d \<noteq> 0" using D(1) by auto
  moreover have small: "unat tw * unat target < 2 ^ 64" using work(2) target by (simp add: n_def)
  moreover have "next_difficulty_v3 ts cds T v4 = (if \<not> tw > 0 then None else if snd (mul tw target) \<noteq> 0 then Some 0
      else if d = 0 then None else Some (fst (mul tw target) div d))"
  proof -
    have "drop (Suc 0) ts = us" "ts ! 0 = t" by (simp_all add: ts)
    moreover have "\<not> length ts \<le> Suc 0" using len(1) by simp
    ultimately show ?thesis
      using len(2,3)
      unfolding next_difficulty_v3_def Let_def d_def weighted_def target_def tw_def n_def difficulty_constants
      by (cases v4) (auto simp: case_prod_beta word_neq_0_conv)
  qed
  ultimately have "next_difficulty_v3 ts cds T v4 = Some (fst (mul tw target) div d)"
    using work(1) mul_high_zero_iff [of tw target] by simp
  then show ?thesis by (simp add: unat_div_u64 unat_mul_low [OF small] target d flip: n_def)
qed

section \<open>Properties\<close>

text \<open>C6: \<open>check_hash\<close> accepts a hash exactly when the hash, read as a 256-bit little-endian number,
  times the difficulty stays below \<open>2 ^ 256\<close>: the early exit on the top word and the three chained
  carries decide the exact product.\<close>

theorem check_hash_correct:
  assumes "length hash = 32"
  shows "check_hash hash difficulty \<longleftrightarrow> le_nat hash * unat difficulty < 2 ^ 256"
  using assms by (rule check_hash_product)

theorem check_hash_correct_witness:
  "length (replicate 31 0 @ [0x80 :: u8]) = 32 \<and>
    (check_hash (replicate 31 0 @ [0x80]) 2 \<longleftrightarrow> le_nat (replicate 31 0 @ [0x80]) * unat (2 :: u64) < 2 ^ 256)"
  using check_hash_correct [of "replicate 31 0 @ [0x80]" 2] by simp

text \<open>The portable 64 by 64 bit multiplication compiled outside x86-64 returns the same two words as
  the \<open>mul128\<close> variant, for all operands.\<close>

theorem mul_variants_agree: "mul_portable a b = mul a b"
  by (rule mul_portable_eq)

text \<open>C23: \<open>next_difficulty\<close>, on two to 720 blocks with positive work in the cut window, never fails; it
  returns the work times the target divided by the time span of the sorted, cut timestamps, rounded
  up, and zero exactly when that computation does not fit into 64 bits.\<close>

theorem next_difficulty_correct:
  assumes "2 \<le> length ts" "length ts \<le> 720" "length cds = length ts"
    and "0 < window_work cds (cut_window (length ts) 600)"
  shows "let w = cut_window (length ts) 600; p = window_work cds w * unat T; s = window_span ts w in
    \<exists>r. next_difficulty ts cds T = Some r
      \<and> unat r = (if p + s - 1 < 2 ^ 64 then (p + s - 1) div s else 0)"
  using next_difficulty_nat [OF assms] by (simp only: Let_def)

theorem next_difficulty_correct_witness:
  "0 < window_work [0, 100] (cut_window (length [5, 65 :: u64]) 600) \<and>
    (\<exists>r. next_difficulty [5, 65] [0, 100] 60 = Some r \<and> unat r = 100)"
proof -
  have work: "0 < window_work [0, 100] (cut_window (length [5, 65 :: u64]) 600)" by code_simp
  have "window_work [0, 100] (cut_window (length [5, 65 :: u64]) 600) = 100"
    "window_span [5, 65] (cut_window (length [5, 65 :: u64]) 600) = 60"
    by (simp_all add: window_work_def window_span_def cut_window_def)
  then show ?thesis
    using work next_difficulty_correct [of "[5, 65]" "[0, 100]" 60] by (simp add: Let_def)
qed




text \<open>C14: \<open>next_difficulty_v3\<close> divides work times target by the linearly weighted, clamped solve times,
  never by zero; the divisor is at least half a target per block and at most ten targets per weight,
  so timestamps can move the difficulty only within these bounds. This holds for both ways of
  measuring solve times (\<open>v4\<close>).\<close>

theorem next_difficulty_v3_correct:
  assumes "2 \<le> length ts" "length ts \<le> 60" "length cds = length ts" "1 \<le> unat T" "unat T \<le> 2 ^ 32"
    and "(ucast (last cds - cds ! 0) :: u64) > 0"
    and "unat (ucast (last cds - cds ! 0) :: u64) * v3_target v4 (length ts) (unat T) < 2 ^ 64"
  shows "let n = length ts; D = v3_divisor v4 ts (unat T) in
    (\<exists>r. next_difficulty_v3 ts cds T v4 = Some r
      \<and> unat r = unat (ucast (last cds - cds ! 0) :: u64) * v3_target v4 n (unat T) div D)
    \<and> 1 \<le> D \<and> unat T * n div 2 \<le> D \<and> D \<le> 10 * unat T * (n * (n - 1) div 2)"
  using next_difficulty_v3_nat [OF assms] v3_divisor_bounds [OF assms(1,4)] by (simp only: Let_def)

theorem next_difficulty_v3_correct_witness:
  "(\<exists>r. next_difficulty_v3 [5, 65] [0, 100] 60 True = Some r) \<and> v3_divisor True [5, 65] 60 \<le> 600"
  using next_difficulty_v3_correct [of "[5, 65]" "[0, 100]" 60 True]
  by (auto simp: Let_def v3_target_def)

end
