(* ===== verification/Chain_Db.thy ===== *)
theory Chain_Db
  imports Prelude
begin

text \<open>
  The part of the block database the consensus components read and write: the chain of blocks and
  the table of hard fork versions (\<open>src/blockchain_db/lmdb/db_lmdb.cpp\<close>). The database is
  the list of stored block headers, the genesis block first, and a map from heights to versions. A
  thrown \<open>BLOCK_DNE\<close> or \<open>DB_ERROR\<close> is \<open>None\<close>.
\<close>

section \<open>Definitions\<close>

record block_header =
  major_version :: u8
  minor_version :: u8
  timestamp :: u64
  prev_id :: hash
  nonce :: u32

record chain_db =
  m_blocks :: "block_header list"
  m_hf_versions :: "u64 \<rightharpoonup> u8"

definition db_height :: "chain_db \<Rightarrow> u64" where
  "db_height db = of_nat (length (m_blocks db))"

definition get_block_from_height :: "chain_db \<Rightarrow> u64 \<Rightarrow> block_header option" where
  "get_block_from_height db height =
    (if unat height < length (m_blocks db) then Some (m_blocks db ! unat height) else None)"

definition get_hard_fork_version :: "chain_db \<Rightarrow> u64 \<Rightarrow> u8 option" where
  "get_hard_fork_version db height = m_hf_versions db height"

definition set_hard_fork_version :: "chain_db \<Rightarrow> u64 \<Rightarrow> u8 \<Rightarrow> chain_db" where
  "set_hard_fork_version db height version = db\<lparr>m_hf_versions := (m_hf_versions db)(height \<mapsto> version)\<rparr>"

text \<open>Appending the next block and removing the top block.\<close>

definition db_add_block :: "chain_db \<Rightarrow> block_header \<Rightarrow> chain_db" where
  "db_add_block db b = db\<lparr>m_blocks := m_blocks db @ [b]\<rparr>"

definition db_remove_block :: "chain_db \<Rightarrow> chain_db option" where
  "db_remove_block db = (if m_blocks db = [] then None else Some (db\<lparr>m_blocks := butlast (m_blocks db)\<rparr>))"

section \<open>The version table as an interface\<close>

text \<open>What the hard fork voting relies on: a stored version is read back, the other heights and the
  blocks are untouched. \<open>store_all\<close> stores one version for each of a range of heights.\<close>

locale version_table =
  fixes get :: "'db \<Rightarrow> u64 \<Rightarrow> u8 option" and set_version :: "'db \<Rightarrow> u64 \<Rightarrow> u8 \<Rightarrow> 'db"
    and chain :: "'db \<Rightarrow> block_header list"
  assumes get_set: "get (set_version db h v) h' = (if h' = h then Some v else get db h')"
    and chain_set: "chain (set_version db h v) = chain db"
begin

definition covered :: "'db \<Rightarrow> nat \<Rightarrow> bool" where
  "covered db n \<longleftrightarrow> (\<forall>h. unat h < n \<longrightarrow> get db h \<noteq> None)"

lemma covered_set: "covered db n \<Longrightarrow> covered (set_version db h v) n"
  by (auto simp: covered_def get_set)

lemma covered_set_next:
  assumes "covered db n" "unat h = n"
  shows "covered (set_version db h v) (Suc n)"
  unfolding covered_def
proof (intro allI impI)
  fix h' :: u64
  assume "unat h' < Suc n"
  then have "h' = h \<or> unat h' < n" using assms(2) by (auto simp: less_Suc_eq word_unat_eq_iff)
  with assms(1) show "get (set_version db h v) h' \<noteq> None" by (auto simp: covered_def get_set)
qed

lemma covered_mono: "covered db n \<Longrightarrow> m \<le> n \<Longrightarrow> covered db m"
  by (auto simp: covered_def)

end

interpretation hf_table: version_table get_hard_fork_version set_hard_fork_version m_blocks
  by unfold_locales (simp_all add: get_hard_fork_version_def set_hard_fork_version_def)

lemma db_height_set: "db_height (set_hard_fork_version db h v) = db_height db"
  by (simp add: db_height_def hf_table.chain_set)

lemma unat_db_height: "length (m_blocks db) < 2 ^ 64 \<Longrightarrow> unat (db_height db) = length (m_blocks db)"
  by (simp add: db_height_def unat_of_nat_u64)

end
