(* ===== verification/Hard_Fork.thy ===== *)
theory Hard_Fork
  imports Chain_Db "HOL-Library.Monad_Syntax"
begin

text \<open>
  The hard fork voting of \<open>src/cryptonote_basic/hardfork.cpp\<close> and \<open>hardfork.h\<close>. The object
  is a record with the fields of the class; \<open>std::deque\<close> and \<open>std::vector\<close> are lists, the vote
  counters \<open>last_versions\<close> a list of 256 machine words. \<open>None\<close> is an exception, a failing
  \<open>assert\<close> or an access outside a container.
\<close>

section \<open>Definitions\<close>

record Params =
  p_version :: u8
  p_threshold :: u8
  p_height :: u64

record HardFork =
  window_size :: u64
  default_threshold_percent :: u8
  original_version :: u8
  original_version_till_height :: u64
  heights :: "Params list"
  versions :: "u8 list"
  last_versions :: "u32 list"
  current_fork_index :: nat

definition DEFAULT_ORIGINAL_VERSION_TILL_HEIGHT :: u64 where
  "DEFAULT_ORIGINAL_VERSION_TILL_HEIGHT = 0"

definition DEFAULT_WINDOW_SIZE :: u64 where
  "DEFAULT_WINDOW_SIZE = 10080"

definition DEFAULT_THRESHOLD_PERCENT :: u8 where
  "DEFAULT_THRESHOLD_PERCENT = 0"

definition get_block_vote :: "block_header \<Rightarrow> u8" where
  "get_block_vote b = (if minor_version b = 0 then 1 else minor_version b)"

definition get_block_version :: "block_header \<Rightarrow> u8" where
  "get_block_version b = major_version b"

text \<open>The constructor does not initialise \<open>last_versions\<close>: its content is the argument \<open>mem\<close>.\<close>

definition new_HardFork :: "u32 list \<Rightarrow> u8 \<Rightarrow> u64 \<Rightarrow> u64 \<Rightarrow> u8 \<Rightarrow> HardFork option" where
  "new_HardFork mem orig_version till_height window threshold_percent =
    (if window = 0 then None
     else if threshold_percent > 100 then None
     else Some \<lparr>window_size = window, default_threshold_percent = threshold_percent,
       original_version = orig_version, original_version_till_height = till_height,
       heights = [], versions = [], last_versions = mem, current_fork_index = 0\<rparr>)"

definition add_fork :: "HardFork \<Rightarrow> u8 \<Rightarrow> u64 \<Rightarrow> u8 \<Rightarrow> HardFork \<times> bool" where
  "add_fork hf version height threshold =
    (if version = 0 then (hf, False)
     else if heights hf \<noteq> [] \<and> version \<le> p_version (last (heights hf)) then (hf, False)
     else if heights hf \<noteq> [] \<and> height \<le> p_height (last (heights hf)) then (hf, False)
     else if threshold > 100 then (hf, False)
     else (hf\<lparr>heights := heights hf @ [\<lparr>p_version = version, p_threshold = threshold, p_height = height\<rparr>]\<rparr>, True))"

definition add_fork_default :: "HardFork \<Rightarrow> u8 \<Rightarrow> u64 \<Rightarrow> HardFork \<times> bool" where
  "add_fork_default hf version height = add_fork hf version height (default_threshold_percent hf)"

definition get_effective_version :: "HardFork \<Rightarrow> u8 \<Rightarrow> u8" where
  "get_effective_version hf voting_version =
    (if heights hf \<noteq> [] \<and> voting_version > p_version (last (heights hf))
     then p_version (last (heights hf)) else voting_version)"

text \<open>\<open>heights[n]\<close>.\<close>

definition fork_at :: "HardFork \<Rightarrow> nat \<Rightarrow> Params option" where
  "fork_at hf n = (if n < length (heights hf) then Some (heights hf ! n) else None)"

definition do_check :: "HardFork \<Rightarrow> u8 \<Rightarrow> u8 \<Rightarrow> bool option" where
  "do_check hf block_version voting_version = do {
     f \<leftarrow> fork_at hf (current_fork_index hf);
     Some (block_version = p_version f \<and> voting_version \<ge> p_version f) }"

definition check :: "HardFork \<Rightarrow> block_header \<Rightarrow> bool option" where
  "check hf b = do_check hf (get_block_version b) (get_block_vote b)"

text \<open>The loop runs down from the last fork; \<open>n\<close> is one more than the index.\<close>

fun voted_fork_loop :: "HardFork \<Rightarrow> u64 \<Rightarrow> nat \<Rightarrow> u32 \<Rightarrow> nat" where
  "voted_fork_loop hf height 0 accumulated_votes = current_fork_index hf"
| "voted_fork_loop hf height (Suc n) accumulated_votes =
    (let f = heights hf ! n;
         accumulated_votes = accumulated_votes + last_versions hf ! unat (p_version f);
         threshold = (ucast ((window_size hf * ucast (p_threshold f) + 99) div 100) :: u32)
     in if height \<ge> p_height f \<and> accumulated_votes \<ge> threshold then n
        else voted_fork_loop hf height n accumulated_votes)"

definition get_voted_fork_index :: "HardFork \<Rightarrow> u64 \<Rightarrow> nat" where
  "get_voted_fork_index hf height = voted_fork_loop hf height (length (heights hf)) 0"

definition do_check_for_height :: "HardFork \<Rightarrow> u8 \<Rightarrow> u8 \<Rightarrow> u64 \<Rightarrow> bool option" where
  "do_check_for_height hf block_version voting_version height = do {
     f \<leftarrow> fork_at hf (get_voted_fork_index hf height);
     Some (block_version = p_version f \<and> voting_version \<ge> p_version f) }"

definition check_for_height :: "HardFork \<Rightarrow> block_header \<Rightarrow> u64 \<Rightarrow> bool option" where
  "check_for_height hf b height = do_check_for_height hf (get_block_version b) (get_block_vote b) height"

text \<open>\<open>uint8_t voted = get_voted_fork_index(height); if (voted > current_fork_index) ...\<close>\<close>

definition raise_fork_index :: "HardFork \<Rightarrow> u64 \<Rightarrow> HardFork" where
  "raise_fork_index hf height =
    (let voted = get_voted_fork_index hf height mod 256
     in if voted > current_fork_index hf then hf\<lparr>current_fork_index := voted\<rparr> else hf)"

text \<open>The loop that makes room in the window.\<close>

fun drop_old_versions :: "u64 \<Rightarrow> u8 list \<Rightarrow> u32 list \<Rightarrow> (u8 list \<times> u32 list) option" where
  "drop_old_versions window [] counts = (if 0 \<ge> window then None else Some ([], counts))"
| "drop_old_versions window (old_version # vs) counts =
    (if length (old_version # vs) \<ge> unat window
     then if counts ! unat old_version \<ge> 1
          then drop_old_versions window vs (counts[unat old_version := counts ! unat old_version - 1])
          else None
     else Some (old_version # vs, counts))"

definition push_version :: "HardFork \<Rightarrow> u8 \<Rightarrow> HardFork" where
  "push_version hf v =
    hf\<lparr>last_versions := (last_versions hf)[unat v := last_versions hf ! unat v + 1],
       versions := versions hf @ [v]\<rparr>"

definition add_versions :: "HardFork \<Rightarrow> chain_db \<Rightarrow> u8 \<Rightarrow> u8 \<Rightarrow> u64 \<Rightarrow> (HardFork \<times> chain_db \<times> bool) option" where
  "add_versions hf db block_version voting_version height = do {
     ok \<leftarrow> do_check hf block_version voting_version;
     if \<not> ok then Some (hf, db, False)
     else do {
       f \<leftarrow> fork_at hf (current_fork_index hf);
       let db = set_hard_fork_version db height (p_version f);
       let voting_version = get_effective_version hf voting_version;
       (vs, counts) \<leftarrow> drop_old_versions (window_size hf) (versions hf) (last_versions hf);
       let hf = push_version (hf\<lparr>versions := vs, last_versions := counts\<rparr>) voting_version;
       Some (raise_fork_index hf (height + 1), db, True) } }"

definition add :: "HardFork \<Rightarrow> chain_db \<Rightarrow> block_header \<Rightarrow> u64 \<Rightarrow> (HardFork \<times> chain_db \<times> bool) option" where
  "add hf db b height = add_versions hf db (get_block_version b) (get_block_vote b) height"

definition get_block_version_at :: "HardFork \<Rightarrow> chain_db \<Rightarrow> u64 \<Rightarrow> u8 option" where
  "get_block_version_at hf db height =
    (if height \<le> original_version_till_height hf then Some (original_version hf)
     else map_option get_block_version (get_block_from_height db height))"

text \<open>\<open>versions.clear()\<close> and the loop that zeroes the counters.\<close>

definition clear_versions :: "HardFork \<Rightarrow> HardFork" where
  "clear_versions hf = hf\<lparr>versions := [], last_versions := replicate 256 0\<rparr>"

text \<open>The loops that read blocks and count their votes.\<close>

fun count_votes :: "HardFork \<Rightarrow> chain_db \<Rightarrow> u64 list \<Rightarrow> HardFork option" where
  "count_votes hf db [] = Some hf"
| "count_votes hf db (h # hs) = do {
     b \<leftarrow> get_block_from_height db h;
     count_votes (push_version hf (get_effective_version hf (get_block_vote b))) db hs }"

text \<open>The heights of a loop \<open>for (h = first; h < bound; ++h)\<close>.\<close>

definition height_range :: "u64 \<Rightarrow> u64 \<Rightarrow> u64 list" where
  "height_range first bound = map of_nat [unat first..<unat bound]"

text \<open>The searches for the current fork: upwards from 0, and downwards.\<close>

function find_fork_up :: "Params list \<Rightarrow> u8 \<Rightarrow> nat \<Rightarrow> nat" where
  "find_fork_up fs lastv n =
    (if n + 1 < length fs \<and> p_version (fs ! n) \<noteq> lastv then find_fork_up fs lastv (n + 1) else n)"
  by pat_completeness auto
termination
  by (relation "measure (\<lambda>(fs, lastv, n). length fs - n)") auto

declare find_fork_up.simps [simp del]

fun find_fork_down :: "Params list \<Rightarrow> u8 \<Rightarrow> nat \<Rightarrow> nat" where
  "find_fork_down fs start_version 0 = 0"
| "find_fork_down fs start_version (Suc n) =
    (if p_version (fs ! Suc n) > start_version then find_fork_down fs start_version n else Suc n)"

definition rescan_from_block_height :: "HardFork \<Rightarrow> chain_db \<Rightarrow> u64 \<Rightarrow> (HardFork \<times> bool) option" where
  "rescan_from_block_height hf db height =
    (if height \<ge> db_height db then Some (hf, False)
     else do {
       hf \<leftarrow> count_votes (clear_versions hf) db (height_range height (db_height db));
       lastv \<leftarrow> get_hard_fork_version db (db_height db - 1);
       let hf = hf\<lparr>current_fork_index := find_fork_up (heights hf) lastv 0\<rparr>;
       Some (raise_fork_index hf (db_height db), True) })"

definition rescan_from_chain_height :: "HardFork \<Rightarrow> chain_db \<Rightarrow> u64 \<Rightarrow> (HardFork \<times> bool) option" where
  "rescan_from_chain_height hf db height =
    (if height = 0 then Some (hf, False) else rescan_from_block_height hf db (height - 1))"

definition init :: "HardFork \<Rightarrow> chain_db \<Rightarrow> HardFork option" where
  "init hf db =
    (let hf = (if heights hf = []
               then hf\<lparr>heights := [\<lparr>p_version = original_version hf, p_threshold = 0, p_height = 0\<rparr>]\<rparr> else hf);
         hf = (clear_versions hf)\<lparr>current_fork_index := 0\<rparr>;
         height = db_height db;
         height = (if height > window_size hf then height - (window_size hf - 1) else 1)
     in map_option fst (rescan_from_chain_height hf db height))"

fun add_blocks :: "HardFork \<Rightarrow> chain_db \<Rightarrow> u64 list \<Rightarrow> (HardFork \<times> chain_db) option" where
  "add_blocks hf db [] = Some (hf, db)"
| "add_blocks hf db (h # hs) = do {
     b \<leftarrow> get_block_from_height db h;
     (hf, db, _) \<leftarrow> add hf db b h;
     add_blocks hf db hs }"

definition reorganize_from_block_height :: "HardFork \<Rightarrow> chain_db \<Rightarrow> u64 \<Rightarrow> (HardFork \<times> chain_db \<times> bool) option" where
  "reorganize_from_block_height hf db height =
    (if height \<ge> db_height db then Some (hf, db, False)
     else do {
       let hf = clear_versions hf;
       let rescan_height = (if height \<ge> window_size hf - 1 then height - (window_size hf - 1) else 0);
       start_version \<leftarrow> (if height = 0 then Some (original_version hf) else get_hard_fork_version db height);
       let hf = hf\<lparr>current_fork_index := find_fork_down (heights hf) start_version (current_fork_index hf)\<rparr>;
       hf \<leftarrow> count_votes hf db (height_range rescan_height (height + 1));
       let hf = raise_fork_index hf (height + 1);
       (hf, db) \<leftarrow> add_blocks hf db (height_range (height + 1) (db_height db));
       Some (hf, db, True) })"

definition reorganize_from_chain_height :: "HardFork \<Rightarrow> chain_db \<Rightarrow> u64 \<Rightarrow> (HardFork \<times> chain_db \<times> bool) option" where
  "reorganize_from_chain_height hf db height =
    (if height = 0 then Some (hf, db, False) else reorganize_from_block_height hf db (height - 1))"

text \<open>The loop over the popped heights ends when \<open>height\<close> drops below \<open>new_chain_height\<close>.\<close>

partial_function (option) pop_versions :: "chain_db \<Rightarrow> u64 \<Rightarrow> u64 \<Rightarrow> u8 list \<Rightarrow> u32 list \<Rightarrow> (u8 list \<times> u32 list) option" where
  "pop_versions db new_chain_height height vs counts =
    (if height \<ge> new_chain_height
     then if vs = [] then None
          else do {
            let version = last vs;
            let counts = counts[unat version := counts ! unat version - 1];
            let vs = butlast vs;
            version \<leftarrow> get_hard_fork_version db height;
            let vs = version # vs;
            let counts = counts[unat version := counts ! unat version + 1];
            pop_versions db new_chain_height (height - 1) vs counts }
     else Some (vs, counts))"

fun scheduled_fork_loop :: "Params list \<Rightarrow> u64 \<Rightarrow> nat \<Rightarrow> nat" where
  "scheduled_fork_loop fs height 0 = 0"
| "scheduled_fork_loop fs height (Suc n) =
    (if height \<ge> p_height (fs ! Suc n) then Suc n else scheduled_fork_loop fs height n)"

definition on_block_popped :: "HardFork \<Rightarrow> chain_db \<Rightarrow> u64 \<Rightarrow> HardFork option" where
  "on_block_popped hf db nblocks =
    (if \<not> nblocks > 0 then None
     else do {
       let new_chain_height = db_height db;
       let old_chain_height = new_chain_height + nblocks;
       (vs, counts) \<leftarrow> pop_versions db new_chain_height (old_chain_height - 1) (versions hf) (last_versions hf);
       if heights hf = [] then None
       else Some (hf\<lparr>versions := vs, last_versions := counts,
                     current_fork_index := scheduled_fork_loop (heights hf) new_chain_height (length (heights hf) - 1)\<rparr>) })"

definition get_current_version :: "HardFork \<Rightarrow> u8 option" where
  "get_current_version hf = map_option p_version (fork_at hf (current_fork_index hf))"

definition get_version :: "HardFork \<Rightarrow> chain_db \<Rightarrow> u64 \<Rightarrow> u8 option" where
  "get_version hf db height =
    (if height > db_height db then None
     else if height = db_height db then get_current_version hf
     else get_hard_fork_version db height)"

definition get_ideal_version :: "HardFork \<Rightarrow> u8 option" where
  "get_ideal_version hf = (if heights hf = [] then None else Some (p_version (last (heights hf))))"

fun ideal_version_loop :: "HardFork \<Rightarrow> u64 \<Rightarrow> nat \<Rightarrow> u8" where
  "ideal_version_loop hf height 0 = original_version hf"
| "ideal_version_loop hf height (Suc n) =
    (if height \<ge> p_height (heights hf ! Suc n) then p_version (heights hf ! Suc n)
     else ideal_version_loop hf height n)"

definition get_ideal_version_at :: "HardFork \<Rightarrow> u64 \<Rightarrow> u8 option" where
  "get_ideal_version_at hf height =
    (if heights hf = [] then None else Some (ideal_version_loop hf height (length (heights hf) - 1)))"

fun earliest_height_loop :: "Params list \<Rightarrow> u8 \<Rightarrow> u64 \<Rightarrow> u64" where
  "earliest_height_loop [] version height = height"
| "earliest_height_loop (f # fs) version height =
    (if p_version f \<ge> version then earliest_height_loop fs version (p_height f) else height)"

definition get_earliest_ideal_height_for_version :: "HardFork \<Rightarrow> u8 \<Rightarrow> u64" where
  "get_earliest_ideal_height_for_version hf version = earliest_height_loop (rev (heights hf)) version 0xFFFFFFFFFFFFFFFF"

text \<open>\<open>later\<close> is the fork visited before, \<open>i - 1\<close> of the reverse iterator.\<close>

fun next_version_loop :: "HardFork \<Rightarrow> u64 \<Rightarrow> Params option \<Rightarrow> Params list \<Rightarrow> u8" where
  "next_version_loop hf height later [] = original_version hf"
| "next_version_loop hf height later (f # fs) =
    (if height \<ge> p_height f then (case later of None \<Rightarrow> p_version f | Some g \<Rightarrow> p_version g)
     else next_version_loop hf height (Some f) fs)"

definition get_next_version :: "HardFork \<Rightarrow> chain_db \<Rightarrow> u8" where
  "get_next_version hf db = next_version_loop hf (db_height db) None (rev (heights hf))"

definition get_last_version :: "HardFork \<Rightarrow> u8 option" where
  "get_last_version hf = map_option p_version (fork_at hf (length (heights hf) - 1))"

record voting_info =
  vi_enabled :: bool
  vi_window :: u32
  vi_votes :: u32
  vi_threshold :: u32
  vi_earliest_height :: u64
  vi_voting :: u8

definition get_voting_info :: "HardFork \<Rightarrow> u8 \<Rightarrow> voting_info option" where
  "get_voting_info hf version = do {
     f \<leftarrow> fork_at hf (current_fork_index hf);
     voting \<leftarrow> get_ideal_version hf;
     let window = of_nat (length (versions hf));
     Some \<lparr>vi_enabled = p_version f \<ge> version, vi_window = window,
       vi_votes = sum_list (map (\<lambda>n. last_versions hf ! n) [unat version..<256]),
       vi_threshold = (window * ucast (p_threshold f) + 99) div 100,
       vi_earliest_height = get_earliest_ideal_height_for_version hf version,
       vi_voting = voting\<rparr> }"

text \<open>The fork tables of \<open>cryptonote_config.h\<close> and the set-up of the object in \<open>Blockchain::init\<close>.\<close>

definition hard_forks :: "(u8 \<times> u64) list" where
  "hard_forks = [(1, 1), (2, 2), (3, 3), (4, 4), (5, 5), (6, 44500), (7, 173500), (8, 180000), (9, 240500),
    (10, 341000), (11, 500000), (12, 930000), (13, 4320000), (14, 4480000)]"

definition testnet_hard_forks :: "(u8 \<times> u64) list" where
  "testnet_hard_forks = [(1, 1), (2, 2), (3, 3), (4, 4), (5, 5), (6, 6), (7, 550), (8, 560), (9, 570),
    (10, 580), (11, 590), (12, 700), (13, 800), (14, 1000)]"

definition stagenet_hard_forks :: "(u8 \<times> u64) list" where
  "stagenet_hard_forks = [(1, 1), (2, 2), (3, 3), (4, 4), (5, 5), (6, 6), (7, 550), (8, 560), (9, 570),
    (10, 580), (11, 590), (12, 700), (13, 800), (14, 1000)]"

fun add_fork_table :: "HardFork \<Rightarrow> (u8 \<times> u64) list \<Rightarrow> HardFork" where
  "add_fork_table hf [] = hf"
| "add_fork_table hf ((version, height) # table) = add_fork_table (fst (add_fork_default hf version height)) table"

definition blockchain_hardfork :: "u32 list \<Rightarrow> (u8 \<times> u64) list \<Rightarrow> chain_db \<Rightarrow> HardFork option" where
  "blockchain_hardfork mem table db = do {
     hf \<leftarrow> new_HardFork mem 1 0 DEFAULT_WINDOW_SIZE DEFAULT_THRESHOLD_PERCENT;
     init (add_fork_table hf table) db }"

section \<open>Vote counters\<close>

text \<open>The counters a window should have.\<close>

definition count_vec :: "u8 list \<Rightarrow> u32 list" where
  "count_vec vs = map (\<lambda>n. of_nat (count_list vs (of_nat n))) [0..<256]"

lemma length_count_vec [simp]: "length (count_vec vs) = 256"
  by (simp add: count_vec_def)

lemma unat_u8_less [simp]: "unat (v :: u8) < 256"
  using unat_u8_bound [of v] by simp

lemma count_vec_nth: "count_vec vs ! unat v = of_nat (count_list vs v)"
  by (simp add: count_vec_def nth_map [of _ "[0..<256]"])

lemma count_vec_Nil: "count_vec [] = replicate 256 0"
  by (intro nth_equalityI) (simp_all add: count_vec_def)

lemma count_vec_update:
  assumes "\<And>v. v \<noteq> u \<Longrightarrow> count_list vs v = count_list ws v" "x = of_nat (count_list ws u)"
  shows "(count_vec vs)[unat u := x] = count_vec ws"
proof (intro nth_equalityI)
  fix n
  assume "n < length ((count_vec vs)[unat u := x])"
  then have n: "n < 256" by simp
  then have "unat (of_nat n :: u8) = n" by (simp add: unat_of_nat)
  then obtain v :: u8 where v: "n = unat v" by metis
  show "(count_vec vs)[unat u := x] ! n = count_vec ws ! n"
    using assms n by (cases "v = u") (auto simp: v count_vec_nth nth_list_update word_unat_eq_iff)
qed simp

lemma count_vec_push:
  "(count_vec vs)[unat v := count_vec vs ! unat v + 1] = count_vec (vs @ [v])"
  "(count_vec vs)[unat v := count_vec vs ! unat v + 1] = count_vec (v # vs)"
  by (rule count_vec_update; simp add: count_vec_nth)+

lemma count_vec_pop:
  "(count_vec (v # vs))[unat v := count_vec (v # vs) ! unat v - 1] = count_vec vs"
  "(count_vec (vs @ [v]))[unat v := count_vec (vs @ [v]) ! unat v - 1] = count_vec vs"
  by (rule count_vec_update; simp add: count_vec_nth)+

lemma count_vec_positive:
  assumes "length (v # vs) < 2 ^ 32"
  shows "count_vec (v # vs) ! unat v \<ge> 1"
proof -
  have "count_list (v # vs) v < 2 ^ 32" using count_le_length [of "v # vs" v] assms by linarith
  then have "unat (count_vec (v # vs) ! unat v) = count_list (v # vs) v"
    by (simp only: count_vec_nth unat_of_nat) simp
  then show ?thesis by (simp add: word_le_nat_alt)
qed

lemma drop_old_versions_eq:
  assumes "0 < w" "length vs < 2 ^ 32"
  shows "drop_old_versions w vs (count_vec vs)
    = Some (drop (length vs + 1 - unat w) vs, count_vec (drop (length vs + 1 - unat w) vs))"
  using assms(2)
proof (induction vs)
  case Nil
  then show ?case using assms(1) by (simp add: not_le)
next
  case (Cons v vs)
  have pos: "count_vec (v # vs) ! unat v \<ge> 1" using Cons.prems by (rule count_vec_positive)
  have w: "0 < unat w" using assms(1) by (simp add: word_less_nat_alt)
  show ?case
  proof (cases "unat w \<le> length (v # vs)")
    case True
    with w have "length (v # vs) + 1 - unat w = Suc (length vs + 1 - unat w)" by simp
    with True pos Cons show ?thesis by (simp only: drop_old_versions.simps count_vec_pop if_True) simp
  next
    case False
    then show ?thesis by simp
  qed
qed

lemma push_version_count:
  assumes "last_versions hf = count_vec (versions hf)"
  shows "push_version hf v = hf\<lparr>versions := versions hf @ [v], last_versions := count_vec (versions hf @ [v])\<rparr>"
  using assms by (simp add: push_version_def count_vec_push(1))

section \<open>Counting the votes of a range of blocks\<close>

definition effective_vote :: "HardFork \<Rightarrow> block_header \<Rightarrow> u8" where
  "effective_vote hf b = get_effective_version hf (get_block_vote b)"

lemma effective_vote_heights: "heights hf = heights hf' \<Longrightarrow> effective_vote hf = effective_vote hf'"
  by (simp add: effective_vote_def get_effective_version_def fun_eq_iff)

lemma count_votes_range:
  assumes "b \<le> length (m_blocks db)" "length (m_blocks db) < 2 ^ 64" "a \<le> b"
    and "last_versions hf = count_vec (versions hf)"
  shows "count_votes hf db (map of_nat [a..<b]) =
    (let vs = versions hf @ map (effective_vote hf) (drop a (take b (m_blocks db)))
     in Some (hf\<lparr>versions := vs, last_versions := count_vec vs\<rparr>))"
  using assms(3,4)
proof (induction "b - a" arbitrary: a hf)
  case 0
  then show ?case by simp
next
  case (Suc n)
  let ?blk = "m_blocks db ! a"
  have a: "a < b" "unat (of_nat a :: u64) = a" using Suc.hyps(2) assms(1,2) by (simp_all add: unat_of_nat_u64)
  define hf' where "hf' = push_version hf (effective_vote hf ?blk)"
  have hf': "hf' = hf\<lparr>versions := versions hf @ [effective_vote hf ?blk],
      last_versions := count_vec (versions hf @ [effective_vote hf ?blk])\<rparr>"
    unfolding hf'_def by (rule push_version_count [OF Suc.prems(2)])
  have blocks: "drop a (take b (m_blocks db)) = ?blk # drop (Suc a) (take b (m_blocks db))"
    using a(1) assms(1) by (subst Cons_nth_drop_Suc [symmetric]) simp_all
  have "get_block_from_height db (of_nat a) = Some ?blk"
    using a assms(1) by (simp add: get_block_from_height_def)
  then have step: "count_votes hf db (map of_nat [a..<b]) = count_votes hf' db (map of_nat [Suc a..<b])"
    using a(1) by (simp add: upt_conv_Cons hf'_def effective_vote_def del: upt_Suc)
  have "count_votes hf' db (map of_nat [Suc a..<b]) =
      (let vs = versions hf' @ map (effective_vote hf') (drop (Suc a) (take b (m_blocks db)))
       in Some (hf'\<lparr>versions := vs, last_versions := count_vec vs\<rparr>))"
    using Suc.hyps(2) a(1) by (intro Suc.hyps(1)) (simp_all add: hf')
  moreover have "effective_vote hf' = effective_vote hf" by (rule effective_vote_heights) (simp add: hf')
  ultimately show ?case unfolding step by (simp add: Let_def blocks) (simp add: hf')
qed

section \<open>Fork tables\<close>

text \<open>What \<open>add_fork\<close> maintains: versions and heights increase strictly, thresholds are percentages.\<close>

definition forks_wf :: "Params list \<Rightarrow> bool" where
  "forks_wf fs \<longleftrightarrow> sorted_wrt (\<lambda>f g. p_version f < p_version g \<and> p_height f < p_height g) fs
    \<and> (\<forall>f\<in>set fs. p_threshold f \<le> 100)"

lemma forks_wf_snoc:
  "forks_wf (fs @ [f]) \<longleftrightarrow> forks_wf fs \<and> p_threshold f \<le> 100
    \<and> (\<forall>g\<in>set fs. p_version g < p_version f \<and> p_height g < p_height f)"
  by (auto simp: forks_wf_def sorted_wrt_append)

lemma forks_wf_last:
  assumes "forks_wf fs" "f \<in> set fs"
  shows "p_version f \<le> p_version (last fs) \<and> p_height f \<le> p_height (last fs)"
  using assms by (cases fs rule: rev_cases) (auto simp: forks_wf_snoc)

lemma forks_wf_nth:
  assumes "forks_wf fs" "i < j" "j < length fs"
  shows "p_version (fs ! i) < p_version (fs ! j)" "p_height (fs ! i) < p_height (fs ! j)"
  using assms sorted_wrt_nth_less [of "\<lambda>f g. p_version f < p_version g \<and> p_height f < p_height g" fs i j]
  by (auto simp: forks_wf_def)

lemma forks_wf_distinct: "forks_wf fs \<Longrightarrow> distinct (map p_version fs)"
  by (auto simp: distinct_conv_nth neq_iff dest: forks_wf_nth(1))

lemma forks_wf_length:
  assumes "forks_wf fs"
  shows "length fs \<le> 256"
proof -
  have "length fs = card (set (map p_version fs))"
    using distinct_card [OF forks_wf_distinct [OF assms]] by simp
  also have "\<dots> \<le> card (UNIV :: u8 set)" by (rule card_mono) auto
  finally show ?thesis by (simp add: card_word)
qed

lemma add_fork_wf:
  assumes "forks_wf (heights hf)"
  shows "forks_wf (heights (fst (add_fork hf version height threshold)))"
  using assms forks_wf_last [OF assms]
  by (cases "heights hf = []") (auto simp: add_fork_def forks_wf_snoc forks_wf_snoc [of "[]", simplified] not_le dest: le_less_trans)

lemma find_fork_up_bound:
  assumes "fs \<noteq> []" "n < length fs"
  shows "find_fork_up fs v n < length fs"
  using assms by (induction fs v n rule: find_fork_up.induct) (subst find_fork_up.simps, auto)

lemma find_fork_up_eq:
  assumes "forks_wf fs" "m < length fs" "n \<le> m"
  shows "find_fork_up fs (p_version (fs ! m)) n = m"
  using assms(3)
proof (induction "m - n" arbitrary: n)
  case 0
  then show ?case by (subst find_fork_up.simps) simp
next
  case (Suc k)
  then have "n < m" by simp
  then have "p_version (fs ! n) \<noteq> p_version (fs ! m)" using forks_wf_nth(1) [OF assms(1) _ assms(2)] by force
  then show ?case using Suc assms(2) by (subst find_fork_up.simps) simp
qed

lemma voted_fork_loop_bound:
  "n \<le> length (heights hf) \<Longrightarrow> current_fork_index hf < length (heights hf)
    \<Longrightarrow> voted_fork_loop hf h n acc < length (heights hf)"
  by (induction n arbitrary: acc) (auto simp: Let_def)

lemma raise_fork_index_eq:
  assumes "forks_wf (heights hf)" "current_fork_index hf < length (heights hf)"
  shows "raise_fork_index hf h
    = hf\<lparr>current_fork_index := max (current_fork_index hf) (get_voted_fork_index hf h)\<rparr>"
proof -
  have "get_voted_fork_index hf h < length (heights hf)"
    unfolding get_voted_fork_index_def by (rule voted_fork_loop_bound [OF _ assms(2)]) simp
  then have "get_voted_fork_index hf h mod 256 = get_voted_fork_index hf h"
    using forks_wf_length [OF assms(1)] by simp
  then show ?thesis by (simp add: raise_fork_index_def max_def Let_def)
qed

lemma get_voted_fork_index_bound:
  "current_fork_index hf < length (heights hf) \<Longrightarrow> get_voted_fork_index hf h < length (heights hf)"
  unfolding get_voted_fork_index_def by (rule voted_fork_loop_bound) simp_all

section \<open>The window of votes\<close>

text \<open>The votes of the last \<open>window_size\<close> blocks.\<close>

definition vote_window :: "HardFork \<Rightarrow> block_header list \<Rightarrow> u8 list" where
  "vote_window hf bs = map (effective_vote hf) (drop (length bs - unat (window_size hf)) bs)"

definition hf_config_ok :: "HardFork \<Rightarrow> bool" where
  "hf_config_ok hf \<longleftrightarrow> 0 < window_size hf \<and> unat (window_size hf) < 2 ^ 32 \<and> heights hf \<noteq> [] \<and> forks_wf (heights hf)"

definition with_window :: "HardFork \<Rightarrow> u8 list \<Rightarrow> HardFork" where
  "with_window hf vs = hf\<lparr>versions := vs, last_versions := count_vec vs\<rparr>"

lemma with_window_simps [simp]:
  "heights (with_window hf vs) = heights hf" "window_size (with_window hf vs) = window_size hf"
  "versions (with_window hf vs) = vs" "last_versions (with_window hf vs) = count_vec vs"
  "current_fork_index (with_window hf vs) = current_fork_index hf"
  "original_version (with_window hf vs) = original_version hf"
  "with_window (with_window hf us) vs = with_window hf vs"
  "clear_versions hf = with_window hf []"
  by (simp_all add: with_window_def clear_versions_def count_vec_Nil)

lemma count_votes_window:
  assumes "unat b \<le> length (m_blocks db)" "length (m_blocks db) < 2 ^ 64" "unat a \<le> unat b"
  shows "count_votes (with_window hf []) db (height_range a b) =
    Some (with_window hf (map (effective_vote hf) (drop (unat a) (take (unat b) (m_blocks db)))))"
  using count_votes_range [OF assms, of "with_window hf []"] effective_vote_heights [of "with_window hf []" hf]
  by (simp add: height_range_def Let_def with_window_def)

lemma init_rescan:
  assumes ok: "hf_config_ok hf" and len: "length (m_blocks db) < 2 ^ 64"
  obtains start where "unat start = length (m_blocks db) - unat (window_size hf)"
    "init hf db = map_option fst (rescan_from_block_height ((with_window hf [])\<lparr>current_fork_index := 0\<rparr>) db start)"
proof -
  note h = unat_db_height [OF len]
  have w: "0 < unat (window_size hf)" "heights hf \<noteq> []"
    using ok by (auto simp: hf_config_ok_def word_less_nat_alt)
  define chain_start where
    "chain_start = (if db_height db > window_size hf then db_height db - (window_size hf - 1) else 1)"
  define start where "start = chain_start - 1"
  have start: "unat start = length (m_blocks db) - unat (window_size hf)" "chain_start \<noteq> 0"
  proof (atomize (full), cases "db_height db > window_size hf")
    case True
    then have "start = db_height db - window_size hf" by (simp add: start_def chain_start_def)
    moreover have "unat (window_size hf - 1) = unat (window_size hf) - 1"
      using w(1) unat_sub_u64 [of 1 "window_size hf"] by (simp add: word_le_nat_alt)
    ultimately show "unat start = length (m_blocks db) - unat (window_size hf) \<and> chain_start \<noteq> 0"
      using True h w(1) by (auto simp: unat_sub less_imp_le chain_start_def word_less_nat_alt)
  next
    case False
    then have "start = 0" "chain_start \<noteq> 0" by (simp_all add: start_def chain_start_def)
    moreover have "length (m_blocks db) \<le> unat (window_size hf)"
      using False h by (simp add: not_less word_le_nat_alt)
    ultimately show "unat start = length (m_blocks db) - unat (window_size hf) \<and> chain_start \<noteq> 0" by simp
  qed
  have "init hf db = map_option fst (rescan_from_chain_height ((with_window hf [])\<lparr>current_fork_index := 0\<rparr>) db chain_start)"
    using w(2) by (simp add: init_def Let_def chain_start_def)
  then have "init hf db = map_option fst (rescan_from_block_height ((with_window hf [])\<lparr>current_fork_index := 0\<rparr>) db start)"
    using start(2) by (simp add: rescan_from_chain_height_def start_def)
  with start(1) that show thesis by blast
qed

lemma init_eq:
  assumes ok: "hf_config_ok hf" and len: "length (m_blocks db) < 2 ^ 64"
  shows "init hf db =
    (if m_blocks db = [] then Some ((with_window hf [])\<lparr>current_fork_index := 0\<rparr>)
     else do {
       lastv \<leftarrow> get_hard_fork_version db (db_height db - 1);
       Some (raise_fork_index ((with_window hf (vote_window hf (m_blocks db)))
         \<lparr>current_fork_index := find_fork_up (heights hf) lastv 0\<rparr>) (db_height db)) })"
proof -
  define hf0 where "hf0 = (with_window hf [])\<lparr>current_fork_index := 0\<rparr>"
  obtain start where start: "unat start = length (m_blocks db) - unat (window_size hf)"
    and init: "init hf db = map_option fst (rescan_from_block_height hf0 db start)"
    using init_rescan [OF assms] unfolding hf0_def by metis
  note h = unat_db_height [OF len]
  show ?thesis
  proof (cases "m_blocks db = []")
    case True
    then show ?thesis by (simp add: init rescan_from_block_height_def db_height_def hf0_def)
  next
    case False
    then have "0 < length (m_blocks db)" "0 < unat (window_size hf)"
      using ok by (auto simp: hf_config_ok_def word_less_nat_alt)
    then have "\<not> start \<ge> db_height db" using start h by (simp only: word_le_nat_alt)
    moreover have "effective_vote hf0 = effective_vote hf" by (rule effective_vote_heights) (simp add: hf0_def)
    then have "count_votes (with_window hf0 []) db (height_range start (db_height db)) =
        Some (with_window hf0 (vote_window hf (m_blocks db)))"
      using start h len by (subst count_votes_window) (simp_all add: vote_window_def)
    ultimately show ?thesis using False
      by (auto simp: init rescan_from_block_height_def hf0_def with_window_def intro!: Option.bind_cong
          split: Option.bind_splits)
  qed
qed

lemma add_eq:
  assumes ok: "hf_config_ok hf" and window: "last_versions hf = count_vec (versions hf)"
      "length (versions hf) \<le> unat (window_size hf)"
    and idx: "current_fork_index hf < length (heights hf)"
  shows "add hf db b h =
    (let f = heights hf ! current_fork_index hf
     in if get_block_version b = p_version f \<and> p_version f \<le> get_block_vote b
        then Some (raise_fork_index (with_window hf
              (drop (length (versions hf) + 1 - unat (window_size hf)) (versions hf) @ [effective_vote hf b])) (h + 1),
            set_hard_fork_version db h (p_version f), True)
        else Some (hf, db, False))"
proof -
  have "length (versions hf) < 2 ^ 32" "0 < window_size hf" using window(2) ok by (auto simp: hf_config_ok_def)
  note drop = drop_old_versions_eq [OF this(2,1)]
  show ?thesis
    using window(1) idx
    by (simp add: add_def add_versions_def do_check_def fork_at_def drop Let_def
        push_version_count with_window_def effective_vote_def)
qed

lemma vote_window_snoc:
  assumes "0 < unat (window_size hf)"
  shows "drop (length (vote_window hf bs) + 1 - unat (window_size hf)) (vote_window hf bs) @ [effective_vote hf b]
    = vote_window hf (bs @ [b])"
proof -
  let ?w = "unat (window_size hf)"
  have "length (vote_window hf bs) + 1 - ?w + (length bs - ?w) = Suc (length bs) - ?w"
    using assms by (simp add: vote_window_def)
  then show ?thesis using assms by (simp add: vote_window_def drop_map)
qed

text \<open>A hard fork object that a restart with the same database would rebuild.\<close>

definition synced :: "HardFork \<Rightarrow> chain_db \<Rightarrow> bool" where
  "synced hf db \<longleftrightarrow> init hf db = Some hf"

lemma raise_fork_index_simps:
  "heights (raise_fork_index hf h) = heights hf" "window_size (raise_fork_index hf h) = window_size hf"
  "versions (raise_fork_index hf h) = versions hf" "last_versions (raise_fork_index hf h) = last_versions hf"
  "original_version (raise_fork_index hf h) = original_version hf"
  by (simp_all add: raise_fork_index_def Let_def)

lemma synced_state:
  assumes ok: "hf_config_ok hf" and len: "length (m_blocks db) < 2 ^ 64" and sync: "synced hf db"
  shows "versions hf = vote_window hf (m_blocks db)" "last_versions hf = count_vec (versions hf)"
    "current_fork_index hf < length (heights hf)"
proof -
  have ne: "heights hf \<noteq> []" "forks_wf (heights hf)" using ok by (auto simp: hf_config_ok_def)
  obtain hf1 n where hf: "hf = hf1\<lparr>current_fork_index := n\<rparr>" and hf1: "hf1 = with_window hf (vote_window hf (m_blocks db))"
    and n: "n < length (heights hf)"
  proof (cases "m_blocks db = []")
    case True
    then have "hf = (with_window hf [])\<lparr>current_fork_index := 0\<rparr>"
      using sync init_eq [OF ok len] by (simp add: synced_def)
    with True ne that show thesis by (metis length_greater_0_conv list.simps(8) drop_Nil vote_window_def)
  next
    case False
    then obtain v where v: "raise_fork_index ((with_window hf (vote_window hf (m_blocks db)))
         \<lparr>current_fork_index := find_fork_up (heights hf) v 0\<rparr>) (db_height db) = hf"
      using sync init_eq [OF ok len] by (auto simp: synced_def split: Option.bind_splits)
    let ?hf2 = "(with_window hf (vote_window hf (m_blocks db)))\<lparr>current_fork_index := find_fork_up (heights hf) v 0\<rparr>"
    have idx: "current_fork_index ?hf2 < length (heights ?hf2)"
      using ne by (simp add: find_fork_up_bound)
    have eq: "hf = (with_window hf (vote_window hf (m_blocks db)))
        \<lparr>current_fork_index := max (current_fork_index ?hf2) (get_voted_fork_index ?hf2 (db_height db))\<rparr>"
      using v [symmetric] raise_fork_index_eq [OF _ idx] ne by simp
    then show thesis using that [OF eq refl] idx get_voted_fork_index_bound [OF idx] by simp
  qed
  have "versions hf = versions hf1" "last_versions hf = last_versions hf1" "current_fork_index hf = n"
    using arg_cong [OF hf, of versions] arg_cong [OF hf, of last_versions] arg_cong [OF hf, of current_fork_index]
    by simp_all
  with hf1 n show "versions hf = vote_window hf (m_blocks db)" "last_versions hf = count_vec (versions hf)"
    "current_fork_index hf < length (heights hf)"
    using arg_cong [OF hf1, of versions] arg_cong [OF hf1, of last_versions] by simp_all
qed

lemma db_height_add: "db_height (db_add_block db b) = db_height db + 1"
  by (simp add: db_height_def db_add_block_def)

lemma m_blocks_add [simp]: "m_blocks (db_add_block db b) = m_blocks db @ [b]"
  by (simp add: db_add_block_def)

lemma get_hard_fork_version_add [simp]: "get_hard_fork_version (db_add_block db b) h = get_hard_fork_version db h"
  by (simp add: get_hard_fork_version_def db_add_block_def)

lemma hf_config_ok_cong:
  "heights hf' = heights hf \<Longrightarrow> window_size hf' = window_size hf \<Longrightarrow> hf_config_ok hf' = hf_config_ok hf"
  by (simp add: hf_config_ok_def)

lemma vote_window_cong:
  "heights hf' = heights hf \<Longrightarrow> window_size hf' = window_size hf \<Longrightarrow> vote_window hf' = vote_window hf"
  using effective_vote_heights [of hf' hf] by (simp add: vote_window_def fun_eq_iff)

lemma with_window_raise:
  "(with_window (raise_fork_index hf h) vs)\<lparr>current_fork_index := n\<rparr> = (with_window hf vs)\<lparr>current_fork_index := n\<rparr>"
  by (simp add: raise_fork_index_def with_window_def Let_def)

lemma synced_add:
  assumes ok: "hf_config_ok hf" and len: "length (m_blocks db) + 1 < 2 ^ 64" and sync: "synced hf db"
    and add: "add hf (db_add_block db b) b (db_height db) = Some (hf', db', True)"
  shows "hf_config_ok hf' \<and> synced hf' db'"
proof -
  note state = synced_state [OF ok _ sync]
  have window: "versions hf = vote_window hf (m_blocks db)" "last_versions hf = count_vec (versions hf)"
    "current_fork_index hf < length (heights hf)" using state len by simp_all
  have wf: "forks_wf (heights hf)" and w: "0 < unat (window_size hf)"
    using ok by (auto simp: hf_config_ok_def word_less_nat_alt)
  have "length (versions hf) \<le> unat (window_size hf)" by (simp add: window(1) vote_window_def)
  note add' = add_eq [OF ok window(2) this window(3)]
  define f where "f = heights hf ! current_fork_index hf"
  define W where "W = vote_window hf (m_blocks db @ [b])"
  have hf': "hf' = raise_fork_index (with_window hf W) (db_height db + 1)"
    and db': "db' = set_hard_fork_version (db_add_block db b) (db_height db) (p_version f)"
    using add unfolding add' W_def f_def window(1) vote_window_snoc [OF w] by (simp_all add: Let_def split: if_splits)
  have same: "heights hf' = heights hf" "window_size hf' = window_size hf" by (simp_all add: hf' raise_fork_index_simps)
  then have ok': "hf_config_ok hf'" using ok by (simp add: hf_config_ok_def)
  have blocks: "m_blocks db' = m_blocks db @ [b]" by (simp add: db' hf_table.chain_set)
  have height: "db_height db' = db_height db + 1" by (simp add: db' db_height_set db_height_add)
  then have top: "get_hard_fork_version db' (db_height db' - 1) = Some (p_version f)"
    by (simp add: db' hf_table.get_set)
  have "find_fork_up (heights hf) (p_version f) 0 = current_fork_index hf"
    unfolding f_def by (rule find_fork_up_eq [OF wf window(3)]) simp
  then have "init hf' db' = Some (raise_fork_index ((with_window hf' W)\<lparr>current_fork_index := current_fork_index hf\<rparr>) (db_height db + 1))"
    using init_eq [OF ok', of db'] len top by (simp add: blocks height same vote_window_cong [OF same] W_def)
  also have "(with_window hf' W)\<lparr>current_fork_index := current_fork_index hf\<rparr> = with_window hf W"
    unfolding hf' with_window_raise by (simp add: with_window_def)
  finally show ?thesis using ok' by (simp add: synced_def hf')
qed

section \<open>The schedule when votes are not needed\<close>

text \<open>The fork the table schedules for a height: the last one that has begun, or the first.\<close>

definition scheduled :: "Params list \<Rightarrow> u64 \<Rightarrow> nat" where
  "scheduled fs h = scheduled_fork_loop fs h (length fs - 1)"

definition scheduled_version :: "Params list \<Rightarrow> u64 \<Rightarrow> u8" where
  "scheduled_version fs h = p_version (fs ! scheduled fs h)"

lemma scheduled_fork_loop_bound: "scheduled_fork_loop fs h n \<le> n"
  by (induction n) auto

lemma scheduled_bound: "fs \<noteq> [] \<Longrightarrow> scheduled fs h < length fs"
  unfolding scheduled_def using scheduled_fork_loop_bound [of fs h "length fs - 1"]
  by (cases fs) auto

lemma scheduled_fork_loop_mono: "h \<le> h' \<Longrightarrow> scheduled_fork_loop fs h n \<le> scheduled_fork_loop fs h' n"
proof (induction n)
  case (Suc n)
  then show ?case using scheduled_fork_loop_bound [of fs h n] by auto
qed simp

lemma scheduled_mono: "h \<le> h' \<Longrightarrow> scheduled fs h \<le> scheduled fs h'"
  unfolding scheduled_def by (rule scheduled_fork_loop_mono)

text \<open>With thresholds of zero percent every fork that has begun is voted in.\<close>

definition no_votes_needed :: "Params list \<Rightarrow> bool" where
  "no_votes_needed fs \<longleftrightarrow> (\<forall>f\<in>set fs. p_threshold f = 0)"

lemma voted_fork_loop_scheduled:
  assumes "no_votes_needed (heights hf)" "Suc n \<le> length (heights hf)"
  shows "voted_fork_loop hf h (Suc n) acc =
    (if scheduled_fork_loop (heights hf) h n = 0 \<and> h < p_height (heights hf ! 0) then current_fork_index hf
     else scheduled_fork_loop (heights hf) h n)"
  using assms(2)
proof (induction n arbitrary: acc)
  case 0
  then have "0 < length (heights hf)" by linarith
  then have "p_threshold (heights hf ! 0) = 0" using assms(1) nth_mem by (auto simp: no_votes_needed_def)
  then show ?case by (auto simp: Let_def not_le)
next
  case (Suc n)
  then have "p_threshold (heights hf ! Suc n) = 0" using assms(1) by (auto simp: no_votes_needed_def)
  then show ?case using Suc by (subst voted_fork_loop.simps) (simp add: Let_def)
qed

lemma voted_scheduled:
  assumes "no_votes_needed (heights hf)" "heights hf \<noteq> []"
  shows "get_voted_fork_index hf h =
    (if scheduled (heights hf) h = 0 \<and> h < p_height (heights hf ! 0) then current_fork_index hf
     else scheduled (heights hf) h)"
proof -
  obtain n where n: "length (heights hf) = Suc n" using assms(2) by (cases "heights hf") auto
  show ?thesis
    using voted_fork_loop_scheduled [OF assms(1), of n h 0] n
    by (simp add: get_voted_fork_index_def scheduled_def)
qed

lemma raise_scheduled:
  assumes "no_votes_needed (heights hf)" "heights hf \<noteq> []" "forks_wf (heights hf)"
    and "current_fork_index hf \<le> scheduled (heights hf) h"
  shows "raise_fork_index hf h = hf\<lparr>current_fork_index := scheduled (heights hf) h\<rparr>"
proof -
  have "current_fork_index hf < length (heights hf)"
    using assms(4) scheduled_bound [OF assms(2), of h] by linarith
  then show ?thesis using assms(4) voted_scheduled [OF assms(1,2), of h]
    by (auto simp: raise_fork_index_eq [OF assms(3)])
qed

lemma scheduled_0:
  assumes "forks_wf fs"
  shows "scheduled fs 0 = 0"
proof -
  have "n < length fs \<Longrightarrow> scheduled_fork_loop fs 0 n = 0" for n
  proof (induction n)
    case (Suc n)
    then have "p_height (fs ! 0) < p_height (fs ! Suc n)" using forks_wf_nth(2) [OF assms] by blast
    then have "\<not> p_height (fs ! Suc n) \<le> 0" by (metis not_le word_not_simps(1) word_le_0_iff)
    with Suc show ?case by simp
  qed simp
  then show ?thesis unfolding scheduled_def by (cases fs) simp_all
qed

lemma find_fork_down_eq:
  assumes "forks_wf fs" "m \<le> n" "n < length fs"
  shows "find_fork_down fs (p_version (fs ! m)) n = m"
  using assms(2,3)
proof (induction n)
  case (Suc n)
  show ?case
  proof (cases "m = Suc n")
    case False
    then have "p_version (fs ! m) < p_version (fs ! Suc n)"
      using Suc.prems by (intro forks_wf_nth(1) [OF assms(1)]) simp_all
    with Suc False show ?thesis by simp
  qed simp
qed simp

section \<open>States reached by a chain\<close>

text \<open>A block that carries the scheduled version and votes for no older one.\<close>

definition block_fits :: "Params list \<Rightarrow> u64 \<Rightarrow> block_header \<Rightarrow> bool" where
  "block_fits fs h b \<longleftrightarrow> get_block_version b = scheduled_version fs h \<and> scheduled_version fs h \<le> get_block_vote b"

text \<open>The object with its index at the fork scheduled for height \<open>k\<close>, and a database in which every
  block fits and has its version stored.\<close>

definition hf_at :: "HardFork \<Rightarrow> u64 \<Rightarrow> bool" where
  "hf_at hf k \<longleftrightarrow> hf_config_ok hf \<and> no_votes_needed (heights hf)
    \<and> original_version hf = p_version (heights hf ! 0)
    \<and> current_fork_index hf = scheduled (heights hf) k
    \<and> last_versions hf = count_vec (versions hf) \<and> length (versions hf) \<le> unat (window_size hf)"

definition db_ok :: "Params list \<Rightarrow> chain_db \<Rightarrow> bool" where
  "db_ok fs db \<longleftrightarrow> length (m_blocks db) < 2 ^ 64
    \<and> (\<forall>h. unat h < length (m_blocks db) \<longrightarrow> get_hard_fork_version db h = Some (scheduled_version fs h)
        \<and> block_fits fs h (m_blocks db ! unat h))"

definition chain_ok :: "HardFork \<Rightarrow> chain_db \<Rightarrow> bool" where
  "chain_ok hf db \<longleftrightarrow> hf_at hf (db_height db) \<and> db_ok (heights hf) db \<and> (m_blocks db \<noteq> [] \<longrightarrow> versions hf \<noteq> [])"

lemma hf_at_facts:
  assumes "hf_at hf k"
  shows "heights hf \<noteq> []" "forks_wf (heights hf)" "0 < unat (window_size hf)"
    "current_fork_index hf < length (heights hf)"
  using assms scheduled_bound by (auto simp: hf_at_def hf_config_ok_def word_less_nat_alt)

lemma hf_at_raise:
  assumes "hf_at hf k" "k \<le> k'" "length vs \<le> unat (window_size hf)"
  shows "raise_fork_index (with_window hf vs) k' = (with_window hf vs)\<lparr>current_fork_index := scheduled (heights hf) k'\<rparr>"
    and "hf_at (raise_fork_index (with_window hf vs) k') k'"
proof -
  note facts = hf_at_facts [OF assms(1)]
  show eq: "raise_fork_index (with_window hf vs) k' = (with_window hf vs)\<lparr>current_fork_index := scheduled (heights hf) k'\<rparr>"
    using assms(1) facts scheduled_mono [OF assms(2), of "heights hf"]
    by (subst raise_scheduled) (auto simp: hf_at_def)
  show "hf_at (raise_fork_index (with_window hf vs) k') k'"
    unfolding eq using assms(1,3) by (simp add: hf_at_def hf_config_ok_def with_window_def)
qed

lemma hf_at_add:
  assumes "hf_at hf k" "unat k + 1 < 2 ^ 64"
  shows "block_fits (heights hf) k b \<Longrightarrow> \<exists>hf'. add hf db b k = Some (hf', set_hard_fork_version db k (scheduled_version (heights hf) k), True)
      \<and> hf_at hf' (k + 1) \<and> heights hf' = heights hf \<and> versions hf' \<noteq> []"
    and "\<not> block_fits (heights hf) k b \<Longrightarrow> add hf db b k = Some (hf, db, False)"
proof -
  note facts = hf_at_facts [OF assms(1)]
  have idx: "current_fork_index hf = scheduled (heights hf) k" using assms(1) by (simp add: hf_at_def)
  have "k \<le> k + 1" using assms(2) by (simp add: word_le_nat_alt unat_add_u64)
  let ?vs = "drop (length (versions hf) + 1 - unat (window_size hf)) (versions hf) @ [effective_vote hf b]"
  have "length ?vs \<le> unat (window_size hf)" using assms(1) facts(3) by (auto simp: hf_at_def)
  note raise = hf_at_raise [OF assms(1) \<open>k \<le> k + 1\<close> this]
  have eq: "add hf db b k = (if block_fits (heights hf) k b
      then Some (raise_fork_index (with_window hf ?vs) (k + 1), set_hard_fork_version db k (scheduled_version (heights hf) k), True)
      else Some (hf, db, False))"
    using assms(1) facts(4) by (subst add_eq) (simp_all add: hf_at_def Let_def block_fits_def scheduled_version_def idx)
  show "block_fits (heights hf) k b \<Longrightarrow> \<exists>hf'. add hf db b k = Some (hf', set_hard_fork_version db k (scheduled_version (heights hf) k), True)
      \<and> hf_at hf' (k + 1) \<and> heights hf' = heights hf \<and> versions hf' \<noteq> []"
    using raise(2) by (auto simp: eq raise_fork_index_simps)
  show "\<not> block_fits (heights hf) k b \<Longrightarrow> add hf db b k = Some (hf, db, False)" by (simp add: eq)
qed

lemma db_ok_set: "db_ok fs db \<Longrightarrow> db_ok fs (set_hard_fork_version db k (scheduled_version fs k))"
  by (simp add: db_ok_def hf_table.get_set hf_table.chain_set)

lemma chain_ok_add:
  assumes ok: "chain_ok hf db" and len: "length (m_blocks db) + 1 < 2 ^ 64"
    and fits: "block_fits (heights hf) (db_height db) b"
  shows "\<exists>hf' db'. add hf (db_add_block db b) b (db_height db) = Some (hf', db', True) \<and> chain_ok hf' db'
    \<and> heights hf' = heights hf \<and> m_blocks db' = m_blocks db @ [b]"
proof -
  let ?db' = "set_hard_fork_version (db_add_block db b) (db_height db) (scheduled_version (heights hf) (db_height db))"
  have h: "unat (db_height db) = length (m_blocks db)" using len by (intro unat_db_height) simp
  have "hf_at hf (db_height db)" "unat (db_height db) + 1 < 2 ^ 64" using ok len h by (simp_all add: chain_ok_def)
  from hf_at_add(1) [OF this fits, of "db_add_block db b"] obtain hf'
    where hf': "add hf (db_add_block db b) b (db_height db) = Some (hf', ?db', True)"
      "hf_at hf' (db_height db + 1)" "heights hf' = heights hf" "versions hf' \<noteq> []" by blast
  have "db_ok (heights hf) ?db'"
    unfolding db_ok_def
  proof (intro conjI allI impI)
    fix k :: u64
    assume "unat k < length (m_blocks ?db')"
    then have k: "k = db_height db \<or> unat k < length (m_blocks db)"
      using h by (auto simp: hf_table.chain_set less_Suc_eq word_unat_eq_iff)
    show "get_hard_fork_version ?db' k = Some (scheduled_version (heights hf) k)"
      using k ok by (auto simp: hf_table.get_set chain_ok_def db_ok_def)
    show "block_fits (heights hf) k (m_blocks ?db' ! unat k)"
      using k ok fits h by (auto simp: hf_table.chain_set chain_ok_def db_ok_def nth_append)
  qed (use len in \<open>simp add: hf_table.chain_set\<close>)
  with hf' show ?thesis by (auto simp: chain_ok_def db_height_set db_height_add hf_table.chain_set)
qed

lemma add_blocks_at:
  assumes "n \<le> length (m_blocks db)"
  shows "hf_at hf (of_nat k) \<Longrightarrow> db_ok (heights hf) db \<Longrightarrow> k \<le> n \<Longrightarrow> versions hf \<noteq> [] \<Longrightarrow>
    \<exists>hf' db'. add_blocks hf db (map of_nat [k..<n]) = Some (hf', db') \<and> hf_at hf' (of_nat n) \<and> heights hf' = heights hf
      \<and> db_ok (heights hf) db' \<and> m_blocks db' = m_blocks db \<and> versions hf' \<noteq> []"
  using assms
proof (induction "n - k" arbitrary: k hf db)
  case 0
  then show ?case by simp
next
  case (Suc d)
  let ?k = "of_nat k :: u64"
  have lt: "k < n" "k < length (m_blocks db)" using Suc.hyps(2) Suc.prems(5) by simp_all
  have len: "length (m_blocks db) < 2 ^ 64" using Suc.prems(2) by (simp add: db_ok_def)
  have k: "unat ?k = k" using lt len by (simp add: unat_of_nat_u64)
  have b: "get_block_from_height db ?k = Some (m_blocks db ! k)" "block_fits (heights hf) ?k (m_blocks db ! k)"
    using Suc.prems(2) lt k by (auto simp: get_block_from_height_def db_ok_def dest: spec [of _ ?k])
  have "unat ?k + 1 < 2 ^ 64" using lt(2) k len by simp
  from hf_at_add(1) [OF Suc.prems(1) this b(2), of db] obtain hf1
    where hf1: "add hf db (m_blocks db ! k) ?k = Some (hf1, set_hard_fork_version db ?k (scheduled_version (heights hf) ?k), True)"
      "hf_at hf1 (?k + 1)" "heights hf1 = heights hf" "versions hf1 \<noteq> []" by blast
  define db1 where "db1 = set_hard_fork_version db ?k (scheduled_version (heights hf) ?k)"
  have "\<exists>hf' db'. add_blocks hf1 db1 (map of_nat [Suc k..<n]) = Some (hf', db') \<and> hf_at hf' (of_nat n)
      \<and> heights hf' = heights hf1 \<and> db_ok (heights hf1) db' \<and> m_blocks db' = m_blocks db1 \<and> versions hf' \<noteq> []"
    using hf1 Suc.hyps(2) Suc.prems lt db_ok_set [OF Suc.prems(2), of ?k]
    by (intro Suc.hyps(1)) (simp_all add: db1_def hf_table.chain_set add.commute)
  then show ?case
    using lt(1) b(1) hf1 by (simp add: upt_conv_Cons db1_def hf_table.chain_set del: upt_Suc)
qed

lemma reorganize_votes:
  assumes len: "length (m_blocks db) < 2 ^ 64" and lt: "unat height < length (m_blocks db)"
    and w: "0 < unat (window_size hf)"
  obtains vs where "count_votes (with_window hf []) db
      (height_range (if height \<ge> window_size hf - 1 then height - (window_size hf - 1) else 0) (height + 1))
      = Some (with_window hf vs)"
    "length vs \<le> unat (window_size hf)" "vs \<noteq> []"
proof -
  define r where "r = (if height \<ge> window_size hf - 1 then height - (window_size hf - 1) else 0)"
  have succ: "unat (height + 1) = unat height + 1" using lt len by (simp add: unat_add_u64)
  have "unat (window_size hf - 1) = unat (window_size hf) - 1"
    using w unat_sub_u64 [of 1 "window_size hf"] by (simp add: word_le_nat_alt)
  then have r: "unat r = unat height - (unat (window_size hf) - 1)" by (auto simp: r_def unat_sub word_le_nat_alt)
  define vs where "vs = map (effective_vote hf) (drop (unat r) (take (unat (height + 1)) (m_blocks db)))"
  have "length vs \<le> unat (window_size hf)" "vs \<noteq> []" using lt w by (simp_all add: vs_def r succ)
  moreover have "count_votes (with_window hf []) db (height_range r (height + 1)) = Some (with_window hf vs)"
    unfolding vs_def using lt succ len r by (intro count_votes_window) simp_all
  ultimately show thesis using that unfolding r_def by blast
qed

lemma reorganize_unfold:
  assumes "\<not> height \<ge> db_height db"
    and "(if height = 0 then Some (original_version hf) else get_hard_fork_version db height) = Some v"
    and "(if height \<ge> window_size hf - 1 then height - (window_size hf - 1) else 0) = r"
    and "find_fork_down (heights hf) v (current_fork_index hf) = n"
    and "count_votes ((with_window hf [])\<lparr>current_fork_index := n\<rparr>) db (height_range r (height + 1)) = Some hf1"
  shows "reorganize_from_block_height hf db height = do {
    (hf, db) \<leftarrow> add_blocks (raise_fork_index hf1 (height + 1)) db (height_range (height + 1) (db_height db));
    Some (hf, db, True) }"
  using assms(1)
  by (simp only: reorganize_from_block_height_def Let_def with_window_simps assms(2-) if_False bind.bind_lunit)

lemma chain_ok_reorganize:
  assumes ok: "chain_ok hf db"
  shows "\<exists>hf' db'. reorganize_from_block_height hf db height = Some (hf', db', height < db_height db) \<and> chain_ok hf' db'
    \<and> heights hf' = heights hf \<and> m_blocks db' = m_blocks db"
proof (cases "height \<ge> db_height db")
  case True
  with ok show ?thesis by (simp add: reorganize_from_block_height_def)
next
  case False
  note facts = hf_at_facts [OF conjunct1 [OF ok [unfolded chain_ok_def]]]
  have len: "length (m_blocks db) < 2 ^ 64" using ok by (simp add: chain_ok_def db_ok_def)
  note h = unat_db_height [OF len]
  have lt: "unat height < length (m_blocks db)" using False h by (simp add: word_le_nat_alt not_le)
  have succ: "unat (height + 1) = unat height + 1" using lt len by (simp add: unat_add_u64)
  let ?start = "if height = 0 then Some (original_version hf) else get_hard_fork_version db height"
  let ?rescan = "if height \<ge> window_size hf - 1 then height - (window_size hf - 1) else 0"
  have start: "?start = Some (p_version (heights hf ! scheduled (heights hf) height))"
    using ok lt scheduled_0 [OF facts(2)] by (auto simp: chain_ok_def hf_at_def db_ok_def scheduled_version_def)
  have "height \<le> db_height db" using False by simp
  then have down: "find_fork_down (heights hf) (p_version (heights hf ! scheduled (heights hf) height)) (current_fork_index hf)
      = scheduled (heights hf) height"
    using ok facts(4) scheduled_mono [of height "db_height db" "heights hf"]
    by (intro find_fork_down_eq [OF facts(2)]) (simp_all add: chain_ok_def hf_at_def)
  define hf1 where "hf1 = (with_window hf [])\<lparr>current_fork_index := scheduled (heights hf) height\<rparr>"
  have w1: "window_size hf1 = window_size hf" by (simp add: hf1_def)
  obtain vs where vs: "count_votes (with_window hf1 []) db (height_range ?rescan (height + 1)) = Some (with_window hf1 vs)"
    "length vs \<le> unat (window_size hf)" "vs \<noteq> []"
    by (rule reorganize_votes [OF len lt, of hf1, unfolded w1, OF facts(3)])
  have "hf_at hf1 height" using ok by (simp add: hf1_def chain_ok_def hf_at_def hf_config_ok_def with_window_def)
  moreover have "height \<le> height + 1" using succ by (simp add: word_le_nat_alt)
  ultimately have at: "hf_at (raise_fork_index (with_window hf1 vs) (height + 1)) (height + 1)"
    using vs(2) by (intro hf_at_raise(2)) (simp_all add: hf1_def)
  have same: "with_window hf1 [] = (with_window hf [])\<lparr>current_fork_index := scheduled (heights hf) height\<rparr>"
    by (simp add: hf1_def with_window_def)
  define hf2 where "hf2 = raise_fork_index (with_window hf1 vs) (height + 1)"
  have hf2: "heights hf2 = heights hf" "versions hf2 \<noteq> []" by (simp_all add: hf2_def raise_fork_index_simps hf1_def vs(3))
  have eq: "reorganize_from_block_height hf db height = do {
      (hf, db) \<leftarrow> add_blocks hf2 db (height_range (height + 1) (db_height db)); Some (hf, db, True) }"
    unfolding hf2_def by (rule reorganize_unfold [OF False start refl down vs(1) [unfolded same]])
  have at': "hf_at hf2 (of_nat (unat (height + 1)))" using at by (simp only: hf2_def of_nat_unat ucast_id)
  have le: "unat (height + 1) \<le> length (m_blocks db)" using succ lt by linarith
  have db': "db_ok (heights hf2) db" using ok hf2(1) by (simp add: chain_ok_def)
  have "\<exists>hf' db'. add_blocks hf2 db (map of_nat [unat (height + 1)..<length (m_blocks db)]) = Some (hf', db')
      \<and> hf_at hf' (of_nat (length (m_blocks db))) \<and> heights hf' = heights hf2 \<and> db_ok (heights hf2) db'
      \<and> m_blocks db' = m_blocks db \<and> versions hf' \<noteq> []"
    by (rule add_blocks_at [OF order_refl at' db' le hf2(2)])
  then show ?thesis
    unfolding eq using False by (auto simp: height_range_def h hf2 chain_ok_def not_le) (auto simp: db_height_def)
qed

lemma chain_ok_init:
  assumes ok: "chain_ok hf db"
  shows "\<exists>hf'. init hf db = Some hf' \<and> chain_ok hf' db \<and> heights hf' = heights hf"
proof -
  have at: "hf_at hf (db_height db)" and len: "length (m_blocks db) < 2 ^ 64" using ok by (simp_all add: chain_ok_def db_ok_def)
  then have cfg: "hf_config_ok hf" by (simp add: hf_at_def)
  note facts = hf_at_facts [OF at] and h = unat_db_height [OF len]
  show ?thesis
  proof (cases "m_blocks db = []")
    case True
    then have "init hf db = Some ((with_window hf [])\<lparr>current_fork_index := 0\<rparr>)" "db_height db = 0"
      by (simp_all add: init_eq [OF cfg len] db_height_def)
    then show ?thesis using ok True scheduled_0 [OF facts(2)]
      by (auto simp: chain_ok_def hf_at_def hf_config_ok_def with_window_def)
  next
    case False
    let ?top = "db_height db - 1" and ?W = "vote_window hf (m_blocks db)"
    have "1 \<le> db_height db" using False h by (simp add: word_le_nat_alt Suc_le_eq)
    then have top: "unat ?top = length (m_blocks db) - 1" "?top \<le> db_height db"
      using h by (simp_all add: unat_sub_u64 word_le_nat_alt)
    have "unat ?top < length (m_blocks db)" using top(1) False by simp
    then have v: "get_hard_fork_version db ?top = Some (p_version (heights hf ! scheduled (heights hf) ?top))"
      using ok unfolding chain_ok_def db_ok_def scheduled_version_def by blast
    define hf1 where "hf1 = (with_window hf ?W)\<lparr>current_fork_index := scheduled (heights hf) ?top\<rparr>"
    have up: "find_fork_up (heights hf) (p_version (heights hf ! scheduled (heights hf) ?top)) 0 = scheduled (heights hf) ?top"
      by (rule find_fork_up_eq [OF facts(2) scheduled_bound [OF facts(1)]]) simp
    have init: "init hf db = Some (raise_fork_index hf1 (db_height db))"
      using False v up by (simp add: init_eq [OF cfg len] hf1_def)
    have "length (m_blocks db) - unat (window_size hf) < length (m_blocks db)"
      using False facts(3) by (intro diff_less) simp_all
    then have W: "length ?W \<le> unat (window_size hf)" "?W \<noteq> []"
      using facts(3) by (simp_all add: vote_window_def)
    have "hf_at hf1 ?top" using at W by (simp add: hf1_def hf_at_def hf_config_ok_def with_window_def)
    moreover have "with_window hf1 ?W = hf1" by (simp add: hf1_def with_window_def)
    ultimately have "hf_at (raise_fork_index hf1 (db_height db)) (db_height db)"
      using hf_at_raise(2) [OF _ top(2), of hf1 ?W] W by (simp add: hf1_def)
    then show ?thesis using init ok W(2) by (auto simp: chain_ok_def raise_fork_index_simps hf1_def)
  qed
qed

lemma pop_versions_returns:
  assumes "0 < new" "vs \<noteq> []" "\<And>h. new \<le> h \<Longrightarrow> h \<le> height \<Longrightarrow> get_hard_fork_version db h \<noteq> None"
  shows "\<exists>vs'. pop_versions db new height vs (count_vec vs) = Some (vs', count_vec vs') \<and> length vs' = length vs"
  using assms(2,3)
proof (induction "unat height" arbitrary: height vs rule: less_induct)
  case less
  show ?case
  proof (cases "new \<le> height")
    case False
    then show ?thesis by (subst pop_versions.simps) simp
  next
    case True
    obtain us u where us: "vs = us @ [u]" using less.prems(1) by (metis rev_exhaust)
    obtain v where v: "get_hard_fork_version db height = Some v" using less.prems(2) [OF True] by auto
    have "0 < unat height" using True assms(1) by (auto simp: word_le_nat_alt word_less_nat_alt)
    then have dec: "unat (height - 1) = unat height - 1"
      using unat_sub_u64 [of 1 height] by (simp add: word_le_nat_alt)
    have "\<exists>vs'. pop_versions db new (height - 1) (v # us) (count_vec (v # us)) = Some (vs', count_vec vs')
        \<and> length vs' = length (v # us)"
      using \<open>0 < unat height\<close> dec less.prems(2) by (intro less.hyps) (auto simp: word_le_nat_alt)
    then show ?thesis using True v
      by (subst pop_versions.simps) (simp add: us count_vec_pop count_vec_push(2))
  qed
qed

lemma chain_ok_popped:
  assumes ok: "chain_ok hf db" and n: "0 < n" "unat n < length (m_blocks db)"
  shows "\<exists>hf'. on_block_popped hf (db\<lparr>m_blocks := take (length (m_blocks db) - unat n) (m_blocks db)\<rparr>) n = Some hf'
    \<and> chain_ok hf' (db\<lparr>m_blocks := take (length (m_blocks db) - unat n) (m_blocks db)\<rparr>) \<and> heights hf' = heights hf"
proof -
  let ?db = "db\<lparr>m_blocks := take (length (m_blocks db) - unat n) (m_blocks db)\<rparr>"
  have at: "hf_at hf (db_height db)" and len: "length (m_blocks db) < 2 ^ 64" using ok by (simp_all add: chain_ok_def db_ok_def)
  note facts = hf_at_facts [OF at]
  have new: "unat (db_height ?db) = length (m_blocks db) - unat n"
    using unat_db_height [of ?db] len by simp
  have old: "unat (db_height ?db + n) = length (m_blocks db)" using new n len by (simp add: unat_add_u64)
  have "unat (db_height ?db + n - 1) = length (m_blocks db) - 1"
    using unat_sub_u64 [of 1 "db_height ?db + n"] old n(2) by (simp add: word_le_nat_alt)
  then have stored: "h \<le> db_height ?db + n - 1 \<Longrightarrow> get_hard_fork_version ?db h \<noteq> None" for h
    using ok n(2) by (auto simp: chain_ok_def db_ok_def get_hard_fork_version_def word_le_nat_alt)
  have pos: "0 < db_height ?db" using new n(2) by (simp add: word_less_nat_alt)
  have ne: "versions hf \<noteq> []" using ok n(2) by (auto simp: chain_ok_def)
  have counts: "last_versions hf = count_vec (versions hf)" using at by (simp add: hf_at_def)
  obtain vs' where vs': "pop_versions ?db (db_height ?db) (db_height ?db + n - 1) (versions hf) (last_versions hf)
      = Some (vs', count_vec vs')" "length vs' = length (versions hf)"
    using pop_versions_returns [OF pos ne stored] unfolding counts by blast
  let ?hf = "hf\<lparr>versions := vs', last_versions := count_vec vs', current_fork_index := scheduled (heights hf) (db_height ?db)\<rparr>"
  have "on_block_popped hf ?db n = Some ?hf"
    using n(1) facts(1) vs'(1) by (simp add: on_block_popped_def scheduled_def)
  moreover have "chain_ok ?hf ?db"
    using ok vs'(2) by (auto simp: chain_ok_def hf_at_def hf_config_ok_def db_ok_def get_hard_fork_version_def)
  ultimately show ?thesis by simp
qed

section \<open>The daemon's object\<close>

definition fork_table_ok :: "(u8 \<times> u64) list \<Rightarrow> bool" where
  "fork_table_ok table \<longleftrightarrow> table \<noteq> [] \<and> fst (hd table) = 1
    \<and> sorted_wrt (\<lambda>f g. fst f < fst g \<and> snd f < snd g) table"

definition table_params :: "(u8 \<times> u64) list \<Rightarrow> Params list" where
  "table_params table = map (\<lambda>(v, h). \<lparr>p_version = v, p_threshold = 0, p_height = h\<rparr>) table"

lemma fork_table_ok_config:
  "fork_table_ok hard_forks" "fork_table_ok testnet_hard_forks" "fork_table_ok stagenet_hard_forks"
  by code_simp+

lemma table_params_wf:
  assumes "fork_table_ok table"
  shows "forks_wf (table_params table)" "no_votes_needed (table_params table)" "table_params table \<noteq> []"
    "p_version (table_params table ! 0) = 1"
proof -
  show "forks_wf (table_params table)"
    using assms by (auto simp: forks_wf_def fork_table_ok_def table_params_def sorted_wrt_map case_prod_beta
        elim: sorted_wrt_mono_rel [rotated])
  show "no_votes_needed (table_params table)" by (auto simp: no_votes_needed_def table_params_def)
  show "table_params table \<noteq> []" "p_version (table_params table ! 0) = 1"
    using assms by (cases table; simp add: table_params_def fork_table_ok_def case_prod_beta)+
qed

lemma add_fork_table_heights:
  assumes "default_threshold_percent hf = 0"
    and "\<And>v h. (v, h) \<in> set table \<Longrightarrow> v \<noteq> 0"
    and "sorted_wrt (\<lambda>f g. p_version f < p_version g \<and> p_height f < p_height g) (heights hf @ table_params table)"
  shows "add_fork_table hf table = hf\<lparr>heights := heights hf @ table_params table\<rparr>"
  using assms
proof (induction table arbitrary: hf)
  case Nil
  then show ?case by (simp add: table_params_def)
next
  case (Cons f table)
  obtain v h where f: "f = (v, h)" by (cases f)
  let ?f = "\<lparr>p_version = v, p_threshold = 0, p_height = h\<rparr>"
  have params: "table_params (f # table) = ?f # table_params table" by (simp add: table_params_def f)
  have "\<forall>g\<in>set (heights hf). p_version g < v \<and> p_height g < h"
    using Cons.prems(3) by (simp add: params sorted_wrt_append)
  then have "heights hf \<noteq> [] \<Longrightarrow> p_version (last (heights hf)) < v \<and> p_height (last (heights hf)) < h" by simp
  moreover have "v \<noteq> 0" using Cons.prems(2) f by auto
  ultimately have "fst (add_fork_default hf v h) = hf\<lparr>heights := heights hf @ [?f]\<rparr>"
    using Cons.prems(1) by (auto simp: add_fork_default_def add_fork_def not_le)
  then have "add_fork_table hf (f # table) = add_fork_table (hf\<lparr>heights := heights hf @ [?f]\<rparr>) table"
    by (simp add: f)
  also have "\<dots> = hf\<lparr>heights := heights hf @ [?f]\<rparr>\<lparr>heights := (heights hf @ [?f]) @ table_params table\<rparr>"
    using Cons.prems by (subst Cons.IH) (auto simp: params)
  finally show ?case by (simp add: params)
qed

lemma blockchain_hardfork_eq:
  assumes "fork_table_ok table"
  obtains hf where "hf_config_ok hf" "heights hf = table_params table" "original_version hf = 1"
    "\<And>db. blockchain_hardfork mem table db = init hf db"
proof -
  define hf0 :: HardFork where "hf0 = \<lparr>window_size = 10080, default_threshold_percent = 0, original_version = 1,
    original_version_till_height = 0, heights = [], versions = [], last_versions = mem, current_fork_index = 0\<rparr>"
  have new: "new_HardFork mem 1 0 DEFAULT_WINDOW_SIZE DEFAULT_THRESHOLD_PERCENT = Some hf0"
    by (simp add: new_HardFork_def DEFAULT_WINDOW_SIZE_def DEFAULT_THRESHOLD_PERCENT_def hf0_def)
  have "v \<noteq> 0" if "(v, h) \<in> set table" for v h
  proof -
    obtain g gs where table: "table = g # gs" using assms by (cases table) (auto simp: fork_table_ok_def)
    then have "fst g = 1" "\<forall>f\<in>set gs. fst g < fst f" using assms by (auto simp: fork_table_ok_def)
    then show ?thesis using that table by (auto simp: word_less_nat_alt)
  qed
  then have "add_fork_table hf0 table = hf0\<lparr>heights := heights hf0 @ table_params table\<rparr>"
    using table_params_wf(1) [OF assms] by (intro add_fork_table_heights) (auto simp: hf0_def forks_wf_def)
  then show thesis
    using table_params_wf [OF assms] by (intro that [of "hf0\<lparr>heights := table_params table\<rparr>"])
      (simp_all add: hf0_def hf_config_ok_def blockchain_hardfork_def new [unfolded hf0_def])
qed

text \<open>The states of the object and its database: set up on an empty database or on a chain reached
  before, extended by a block that passes the check, shortened, and rescanned.\<close>

definition empty_db :: chain_db where
  "empty_db = \<lparr>m_blocks = [], m_hf_versions = Map.empty\<rparr>"

inductive hf_reachable :: "(u8 \<times> u64) list \<Rightarrow> HardFork \<Rightarrow> chain_db \<Rightarrow> bool" for table where
  start: "blockchain_hardfork mem table empty_db = Some hf \<Longrightarrow> hf_reachable table hf empty_db"
| restart: "hf_reachable table hf db \<Longrightarrow> blockchain_hardfork mem table db = Some hf' \<Longrightarrow> hf_reachable table hf' db"
| extend: "hf_reachable table hf db \<Longrightarrow> length (m_blocks db) + 1 < 2 ^ 64 \<Longrightarrow> check hf b = Some True \<Longrightarrow>
    add hf (db_add_block db b) b (db_height db) = Some (hf', db', r) \<Longrightarrow> hf_reachable table hf' db'"
| pop: "hf_reachable table hf db \<Longrightarrow> 0 < n \<Longrightarrow> unat n < length (m_blocks db) \<Longrightarrow>
    db' = db\<lparr>m_blocks := take (length (m_blocks db) - unat n) (m_blocks db)\<rparr> \<Longrightarrow>
    on_block_popped hf db' n = Some hf' \<Longrightarrow> hf_reachable table hf' db'"
| reorganize: "hf_reachable table hf db \<Longrightarrow> reorganize_from_chain_height hf db h = Some (hf', db', r) \<Longrightarrow>
    hf_reachable table hf' db'"

lemma check_fits:
  assumes "hf_at hf k"
  shows "check hf b = Some (block_fits (heights hf) k b)"
  using assms hf_at_facts [OF assms]
  by (auto simp: check_def do_check_def fork_at_def block_fits_def scheduled_version_def hf_at_def)

lemma chain_ok_start:
  assumes "fork_table_ok table" "blockchain_hardfork mem table db = Some hf" "db_ok (table_params table) db"
  shows "chain_ok hf db \<and> heights hf = table_params table"
proof -
  obtain hf0 where hf0: "hf_config_ok hf0" "heights hf0 = table_params table" "original_version hf0 = 1"
      "\<And>db. blockchain_hardfork mem table db = init hf0 db"
    using blockchain_hardfork_eq [OF assms(1)] by blast
  define hf1 where "hf1 = (with_window hf0 (vote_window hf0 (m_blocks db)))\<lparr>current_fork_index := scheduled (heights hf0) (db_height db)\<rparr>"
  have len: "length (m_blocks db) < 2 ^ 64" using assms(3) by (simp add: db_ok_def)
  have w: "0 < unat (window_size hf0)" using hf0(1) by (simp add: hf_config_ok_def word_less_nat_alt)
  have "m_blocks db \<noteq> [] \<Longrightarrow> length (m_blocks db) - unat (window_size hf0) < length (m_blocks db)"
    using w by (intro diff_less) simp_all
  then have ok: "chain_ok hf1 db"
    using hf0(1,2,3) table_params_wf [OF assms(1)] assms(3)
    by (auto simp: chain_ok_def hf_at_def hf1_def hf_config_ok_def vote_window_def)
  have "heights hf1 = heights hf0" "window_size hf1 = window_size hf0" by (simp_all add: hf1_def)
  then have "init hf1 db = init hf0 db"
    using init_eq [OF hf0(1) len] init_eq [of hf1 db] len hf0(1) vote_window_cong [of hf1 hf0]
    by (simp add: hf_config_ok_def hf1_def with_window_def)
  then show ?thesis using chain_ok_init [OF ok] assms(2) hf0(2,4) by (auto simp: hf1_def)
qed

lemma hf_reachable_ok:
  assumes "hf_reachable table hf db" "fork_table_ok table"
  shows "chain_ok hf db \<and> heights hf = table_params table"
  using assms(1)
proof induction
  case (start mem hf)
  then show ?case by (intro chain_ok_start [OF assms(2)]) (simp_all add: db_ok_def empty_db_def)
next
  case (restart hf db mem hf')
  then show ?case by (intro chain_ok_start [OF assms(2)]) (auto simp: chain_ok_def)
next
  case (extend hf db b hf' db' r)
  then have "block_fits (heights hf) (db_height db) b" using check_fits [of hf "db_height db" b] by (simp add: chain_ok_def)
  from chain_ok_add [OF _ extend.hyps(2) this] extend show ?case by auto
next
  case (pop hf db n db' hf')
  then show ?case using chain_ok_popped [of hf db n] by auto
next
  case (reorganize hf db h hf' db' r)
  then show ?case using chain_ok_reorganize [of hf db "h - 1"]
    by (auto simp: reorganize_from_chain_height_def split: if_splits)
qed

lemma ideal_version_scheduled:
  assumes "heights hf \<noteq> []" "original_version hf = p_version (heights hf ! 0)"
  shows "get_ideal_version_at hf h = Some (scheduled_version (heights hf) h)"
proof -
  have "ideal_version_loop hf h n = p_version (heights hf ! scheduled_fork_loop (heights hf) h n)" for n
    by (induction n) (simp_all add: assms(2))
  then show ?thesis using assms(1) by (simp add: get_ideal_version_at_def scheduled_version_def scheduled_def)
qed

lemma hf_reachable_facts:
  assumes "hf_reachable table hf db" "fork_table_ok table"
  shows "chain_ok hf db" "hf_at hf (db_height db)" "get_ideal_version_at hf h = Some (scheduled_version (heights hf) h)"
    "get_current_version hf = Some (scheduled_version (heights hf) (db_height db))"
proof -
  show ok: "chain_ok hf db" using hf_reachable_ok [OF assms] by simp
  then show at: "hf_at hf (db_height db)" by (simp add: chain_ok_def)
  note facts = hf_at_facts [OF at]
  show "get_ideal_version_at hf h = Some (scheduled_version (heights hf) h)"
    using at facts(1) by (intro ideal_version_scheduled) (simp_all add: hf_at_def)
  show "get_current_version hf = Some (scheduled_version (heights hf) (db_height db))"
    using at facts(4) by (simp add: get_current_version_def fork_at_def scheduled_version_def hf_at_def)
qed

text \<open>Popping down to an empty chain.\<close>

lemma pop_versions_wraps:
  assumes "m_hf_versions db 0xFFFFFFFFFFFFFFFF = None"
  shows "pop_versions db 0 height vs counts = None"
proof (induction "unat height" arbitrary: height vs counts)
  case 0
  then have h: "height = 0" by (simp add: unat_eq_zero)
  have "(- 1 :: u64) = 0xFFFFFFFFFFFFFFFF" by simp
  with assms have "m_hf_versions db (- 1) = None" by (simp only:)
  then have "pop_versions db 0 (- 1) us cs = None" for us cs
    by (subst pop_versions.simps) (simp add: get_hard_fork_version_def Let_def)
  then show ?case by (subst pop_versions.simps) (simp add: h Let_def split: Option.bind_splits)
next
  case (Suc n)
  then have "1 \<le> height" by (metis Suc_le_eq unat_1 word_le_nat_alt zero_less_Suc One_nat_def)
  then have "n = unat (height - 1)" using unat_sub_u64 [of 1 height] Suc.hyps(2) by simp
  from Suc.hyps(1) [OF this] show ?case
    by (subst pop_versions.simps) (simp add: Let_def split: Option.bind_splits)
qed

section \<open>Properties\<close>

text \<open>C1: whatever blocks are added, popped or rescanned and however often the daemon restarts, the
  hard fork object follows the fork table: its current version is the one scheduled for the next
  height, every block of the chain carries the version scheduled for its own height, and \<open>get\<close> reports
  that version. This holds for every table with increasing versions from 1 and increasing heights.\<close>

theorem hard_fork_schedule:
  assumes "hf_reachable table hf db" "fork_table_ok table"
  shows "get_current_version hf = get_ideal_version_at hf (db_height db)
    \<and> (\<forall>h b. get_block_from_height db h = Some b \<longrightarrow>
        Some (major_version b) = get_ideal_version_at hf h \<and> get_version hf db h = Some (major_version b))"
proof -
  note facts = hf_reachable_facts [OF assms]
  have h: "unat (db_height db) = length (m_blocks db)"
    using facts(1) by (intro unat_db_height) (simp add: chain_ok_def db_ok_def)
  have "Some (major_version b) = get_ideal_version_at hf h \<and> get_version hf db h = Some (major_version b)"
    if "get_block_from_height db h = Some b" for h b
  proof -
    have lt: "unat h < length (m_blocks db)" and b: "b = m_blocks db ! unat h"
      using that by (auto simp: get_block_from_height_def split: if_splits)
    then have "h < db_height db" using h by (simp add: word_less_nat_alt)
    then show ?thesis using facts(1) lt b
      by (auto simp: facts(3) chain_ok_def db_ok_def block_fits_def get_block_version_def get_version_def)
  qed
  then show ?thesis using facts(3,4) by simp
qed

theorem hard_fork_schedule_witness:
  "fork_table_ok hard_forks
    \<and> (\<exists>hf. hf_reachable hard_forks hf empty_db \<and> get_current_version hf = get_ideal_version_at hf (db_height empty_db))"
proof -
  obtain hf0 where hf0: "hf_config_ok hf0" "blockchain_hardfork [] hard_forks empty_db = init hf0 empty_db"
    using blockchain_hardfork_eq [OF fork_table_ok_config(1)] by metis
  then obtain hf where "blockchain_hardfork [] hard_forks empty_db = Some hf"
    using init_eq [of hf0 empty_db] by (auto simp: empty_db_def)
  then have "hf_reachable hard_forks hf empty_db" by (rule hf_reachable.start)
  with hard_fork_schedule [OF this fork_table_ok_config(1)] fork_table_ok_config(1) show ?thesis by blast
qed

text \<open>C25: restarting the daemon changes nothing: an object that \<open>init\<close> would rebuild from the database is
  again one after a block has been added, so the votes counted one by one and the fork index agree
  with a rescan of the last \<open>window_size\<close> blocks. Thresholds may be arbitrary here.\<close>

theorem hard_fork_restart:
  assumes "hf_config_ok hf" "length (m_blocks db) + 1 < 2 ^ 64" "init hf db = Some hf"
    and "add hf (db_add_block db b) b (db_height db) = Some (hf', db', True)"
  shows "init hf' db' = Some hf'"
  using synced_add [OF assms(1,2) _ assms(4)] assms(3) by (simp add: synced_def)

theorem hard_fork_restart_witness:
  "\<exists>hf hf' db'. hf_config_ok hf \<and> add hf (db_add_block empty_db \<lparr>major_version = 1, minor_version = 1, timestamp = 0, prev_id = [], nonce = 0\<rparr>)
      \<lparr>major_version = 1, minor_version = 1, timestamp = 0, prev_id = [], nonce = 0\<rparr> (db_height empty_db) = Some (hf', db', True)
    \<and> init hf' db' = Some hf'"
proof -
  let ?b = "\<lparr>major_version = 1, minor_version = 1, timestamp = 0, prev_id = [], nonce = 0\<rparr> :: block_header"
  define hf :: HardFork where "hf = \<lparr>window_size = 2, default_threshold_percent = 0, original_version = 1,
    original_version_till_height = 0, heights = [\<lparr>p_version = 1, p_threshold = 0, p_height = 0\<rparr>],
    versions = [], last_versions = count_vec [], current_fork_index = 0\<rparr>"
  have ok: "hf_config_ok hf" by (simp add: hf_config_ok_def forks_wf_def hf_def)
  have "init hf empty_db = Some hf" using init_eq [OF ok, of empty_db] by (simp add: hf_def with_window_def empty_db_def)
  moreover have "hf_at hf 0" using ok
    by (simp add: hf_at_def hf_def no_votes_needed_def scheduled_def)
  then obtain hf' db' where add: "add hf (db_add_block empty_db ?b) ?b (db_height empty_db) = Some (hf', db', True)"
    using hf_at_add(1) [of hf 0 ?b "db_add_block empty_db ?b"]
    by (auto simp: db_height_def empty_db_def block_fits_def scheduled_version_def scheduled_def hf_def
        get_block_version_def get_block_vote_def)
  ultimately show ?thesis using hard_fork_restart [OF ok _ _ add] ok by (auto simp: empty_db_def)
qed



text \<open>C38: popping the whole chain is not possible: when no block is left the loop of \<open>on_block_popped\<close>
  runs past height 0, wraps around to \<open>2 ^ 64 - 1\<close> and fails there, because the database has no
  version at that height.\<close>

theorem on_block_popped_empty_chain:
  assumes "m_blocks db = []" "m_hf_versions db 0xFFFFFFFFFFFFFFFF = None"
  shows "on_block_popped hf db nblocks = None"
  using pop_versions_wraps [OF assms(2)] assms(1) by (simp add: on_block_popped_def db_height_def Let_def)

theorem on_block_popped_empty_chain_witness:
  "m_hf_versions \<lparr>m_blocks = [], m_hf_versions = [0 \<mapsto> 1]\<rparr> 0xFFFFFFFFFFFFFFFF = None
    \<and> (\<forall>hf. on_block_popped hf \<lparr>m_blocks = [], m_hf_versions = [0 \<mapsto> 1]\<rparr> 1 = None)"
  using on_block_popped_empty_chain [of "\<lparr>m_blocks = [], m_hf_versions = [0 \<mapsto> 1]\<rparr>" _ 1] by simp

end
