(* ===== verification/Hex.thy ===== *)
theory Hex
  imports Codec
begin

text \<open>
  Hexadecimal text, \<open>contrib/epee/src/hex.cpp\<close>, with the digit table of
  \<open>contrib/epee/include/storages/parserse_base_utils.h\<close> and the wrappers of
  \<open>string_tools.h\<close>. Text is a list of bytes. \<open>None\<close> is a \<open>false\<close> result or an exception.
\<close>

section \<open>Definitions\<close>

definition hex_chars :: bytes where
  "hex_chars = ascii ''0123456789abcdef''"

fun write_hex :: "bytes \<Rightarrow> bytes" where
  "write_hex [] = []"
| "write_hex (b # src) = hex_chars ! unat (drop_bit 4 b) # hex_chars ! unat (b AND 0x0F) # write_hex src"

definition to_hex_string :: "bytes \<Rightarrow> bytes option" where
  "to_hex_string src = (if (2 ^ 64 - 1) div 2 < length src then None else Some (write_hex src))"

definition to_hex_formatted :: "bytes \<Rightarrow> bytes" where
  "to_hex_formatted src = ascii ''<'' @ write_hex src @ ascii ''>''"

text \<open>The table of digit values; \<open>0xff\<close> marks the other characters.\<close>

definition isx :: bytes where
  "isx = replicate 48 0xff @ [0, 1, 2, 3, 4, 5, 6, 7, 8, 9] @ replicate 6 0xff
    @ [0xff, 10, 11, 12, 13, 14, 15] @ replicate 9 0xff @ replicate 16 0xff
    @ [0xff, 10, 11, 12, 13, 14, 15] @ replicate 9 0xff @ replicate 16 0xff @ replicate 128 0xff"

fun from_hex_loop :: "bytes \<Rightarrow> bytes option" where
  "from_hex_loop (c # d # src) =
    (let tmp = isx ! unat c
     in if tmp = 0xff then None
        else let t2 = isx ! unat d
             in if t2 = 0xff then None
                else map_option (Cons (push_bit 4 tmp OR t2)) (from_hex_loop src))"
| "from_hex_loop src = Some []"

definition from_hex_unchecked :: "bytes \<Rightarrow> bytes option" where
  "from_hex_unchecked s = (if length s mod 2 \<noteq> 0 then None else from_hex_loop s)"

definition from_hex_to_string :: "bytes \<Rightarrow> bytes option" where
  "from_hex_to_string src = from_hex_unchecked src"

definition from_hex_to_buffer :: "nat \<Rightarrow> bytes \<Rightarrow> bytes option" where
  "from_hex_to_buffer out_size src = (if length src div 2 \<noteq> out_size then None else from_hex_unchecked src)"

definition hex_to_pod :: "nat \<Rightarrow> bytes \<Rightarrow> bytes option" where
  "hex_to_pod pod_size hex_str = from_hex_to_buffer pod_size hex_str"

definition pod_to_hex :: "bytes \<Rightarrow> bytes option" where
  "pod_to_hex s = to_hex_string s"

text \<open>\<open>from_hex_locale::to_vector\<close>: spaces and colons are skipped between the digit pairs.\<close>

definition to_vector_include :: "u8 \<Rightarrow> bool" where
  "to_vector_include c = (\<not> (c = 0x20 \<or> 9 \<le> c \<and> c \<le> 13) \<and> c \<noteq> 0x3A)"

definition char_to_int :: "u8 \<Rightarrow> u8 option" where
  "char_to_int c =
    (if 0x30 \<le> c \<and> c \<le> 0x39 then Some (c - 0x30)
     else if 0x61 \<le> c \<and> c \<le> 0x66 then Some (c - 0x61 + 10)
     else if 0x41 \<le> c \<and> c \<le> 0x46 then Some (c - 0x41 + 10)
     else None)"

text \<open>The argument is the text with its terminating zero byte.\<close>

fun to_vector_loop :: "bytes \<Rightarrow> bytes option" where
  "to_vector_loop [] = None"
| "to_vector_loop (c # cs) =
    (if c = 0 then Some []
     else if \<not> to_vector_include c then to_vector_loop cs
     else case cs of
            [] \<Rightarrow> None
          | d # ds \<Rightarrow>
              (case (char_to_int c, char_to_int d) of
                 (Some high, Some low) \<Rightarrow> map_option (Cons (push_bit 4 high OR low)) (to_vector_loop ds)
               | _ \<Rightarrow> None))"

definition to_vector :: "bytes \<Rightarrow> bytes option" where
  "to_vector src =
    (if length (filter to_vector_include src) mod 2 \<noteq> 0 then None else to_vector_loop (src @ [0]))"

definition isxdigit :: "u8 \<Rightarrow> bool" where
  "isxdigit c = (0x30 \<le> c \<and> c \<le> 0x39 \<or> 0x61 \<le> c \<and> c \<le> 0x66 \<or> 0x41 \<le> c \<and> c \<le> 0x46)"

definition validate_hex :: "u64 \<Rightarrow> bytes \<Rightarrow> bool" where
  "validate_hex len str = (length str = unat len \<and> list_all isxdigit str)"

section \<open>Digits\<close>

definition nibble :: "u8 \<Rightarrow> bool" where
  "nibble x \<longleftrightarrow> x < 16"

lemma nibble_all:
  assumes "\<forall>n<16. P (of_nat n)" "nibble x"
  shows "P x"
proof -
  have "unat x < 16" using assms(2) by (simp add: nibble_def word_less_nat_alt)
  with assms(1) have "P (of_nat (unat x))" by blast
  then show ?thesis by simp
qed

lemma hex_chars_eq:
  "hex_chars = [0x30, 0x31, 0x32, 0x33, 0x34, 0x35, 0x36, 0x37, 0x38, 0x39, 0x61, 0x62, 0x63, 0x64, 0x65, 0x66]"
  by code_simp

lemma length_isx [simp]: "length isx = 256"
  by (simp add: isx_def)

lemma isx_digit: "nibble x \<Longrightarrow> isx ! unat (hex_chars ! unat x) = x"
  by (erule nibble_all [rotated]) (simp add: All_less_numeral hex_chars_eq isx_def nth_append)

lemma char_to_int_digit: "nibble x \<Longrightarrow> char_to_int (hex_chars ! unat x) = Some x"
  by (erule nibble_all [rotated]) (simp add: All_less_numeral hex_chars_eq char_to_int_def)

lemma include_digit:
  "nibble x \<Longrightarrow> to_vector_include (hex_chars ! unat x) \<and> hex_chars ! unat x \<noteq> 0 \<and> isxdigit (hex_chars ! unat x)"
  by (erule nibble_all [rotated]) (simp add: All_less_numeral hex_chars_eq to_vector_include_def isxdigit_def)

lemma byte_nibbles: "nibble (drop_bit 4 b)" "nibble (b AND 0x0F)"
  and byte_join: "push_bit 4 (drop_bit 4 b) OR (b AND 0x0F) = (b :: u8)"
proof -
  have "unat (drop_bit 4 b) = unat b div 16" by (simp add: unat_drop_bit_div)
  then show "nibble (drop_bit 4 b)" using unat_u8_bound [of b] by (simp add: nibble_def word_less_nat_alt)
  have "b AND 0x0F \<le> 0x0F" by (rule word_and_le1)
  then show "nibble (b AND 0x0F)" by (simp add: nibble_def word_less_nat_alt word_le_nat_alt)
  have "b AND 0x0F = take_bit 4 b" by (simp add: take_bit_eq_mask mask_eq_exp_minus_1)
  then show "push_bit 4 (drop_bit 4 b) OR (b AND 0x0F) = b"
    by (simp only:) (intro bit_word_eqI, auto simp: bit_simps)
qed

section \<open>Round trips\<close>

lemma from_hex_loop_write: "from_hex_loop (write_hex bs) = Some bs"
proof (induction bs)
  case (Cons b bs)
  have "isx ! unat (hex_chars ! unat (drop_bit 4 b)) = drop_bit 4 b" "isx ! unat (hex_chars ! unat (b AND 0x0F)) = b AND 0x0F"
    by (simp_all only: isx_digit byte_nibbles)
  moreover have "drop_bit 4 b \<noteq> 0xff" "b AND 0x0F \<noteq> 0xff" using byte_nibbles [of b] by (auto simp: nibble_def)
  ultimately show ?case by (simp only: write_hex.simps from_hex_loop.simps Let_def if_False byte_join Cons.IH) simp
qed simp

lemma length_write_hex [simp]: "length (write_hex bs) = 2 * length bs"
  by (induction bs) simp_all

lemma from_hex_write: "from_hex_unchecked (write_hex bs) = Some bs"
  by (simp add: from_hex_unchecked_def from_hex_loop_write)

lemma to_vector_loop_write: "to_vector_loop (write_hex bs @ [0]) = Some bs"
proof (induction bs)
  case (Cons b bs)
  note digits = byte_nibbles [of b, THEN include_digit] byte_nibbles [of b, THEN char_to_int_digit]
  from digits Cons show ?case by (simp add: byte_join)
qed simp

lemma include_write_hex: "filter to_vector_include (write_hex bs) = write_hex bs"
  by (induction bs) (simp_all add: include_digit byte_nibbles)

lemma to_vector_write: "to_vector (write_hex bs) = Some bs"
  by (simp add: to_vector_def include_write_hex to_vector_loop_write)

interpretation hex: codec write_hex from_hex_unchecked "\<lambda>_. True"
  by unfold_locales (simp add: from_hex_write)

interpretation hex_locale: codec write_hex to_vector "\<lambda>_. True"
  by unfold_locales (simp add: to_vector_write)

section \<open>What the reader accepts\<close>

lemma isx_isxdigit: "isx ! unat c \<noteq> 0xff \<longleftrightarrow> isxdigit c"
proof -
  define n where "n = unat c"
  have n: "n < 256" using unat_u8_bound [of c] by (simp add: n_def)
  define lo hi :: bytes where "lo = [0, 1, 2, 3, 4, 5, 6, 7, 8, 9]" and "hi = [10, 11, 12, 13, 14, 15]"
  have segments: "isx = replicate 48 0xff @ lo @ replicate 7 0xff @ hi @ replicate 26 0xff @ hi @ replicate 153 0xff"
    by (simp add: isx_def lo_def hi_def numeral_eq_Suc)
  have len: "length lo = 10" "length hi = 6" by (simp_all add: lo_def hi_def)
  have "k < 10 \<Longrightarrow> lo ! k \<noteq> 0xff" "k < 6 \<Longrightarrow> hi ! k \<noteq> 0xff" for k
    using nth_mem [of k lo] nth_mem [of k hi] by (auto simp: lo_def hi_def)
  then have "isx ! n \<noteq> 0xff \<longleftrightarrow> 48 \<le> n \<and> n \<le> 57 \<or> 65 \<le> n \<and> n \<le> 70 \<or> 97 \<le> n \<and> n \<le> 102"
    using n by (auto simp: segments nth_append len)
  then show ?thesis by (auto simp: n_def isxdigit_def word_le_nat_alt)
qed

lemma from_hex_loop_None: "even (length s) \<Longrightarrow> from_hex_loop s = None \<longleftrightarrow> \<not> list_all isxdigit s"
  by (induction s rule: from_hex_loop.induct) (auto simp: Let_def isx_isxdigit [symmetric])

lemma length_from_hex_loop: "from_hex_loop s = Some bs \<Longrightarrow> length bs = length s div 2"
  by (induction s arbitrary: bs rule: from_hex_loop.induct) (auto simp: Let_def split: if_splits)

lemma from_hex_loop_Some:
  assumes "even (length s)"
  shows "(\<exists>bs. from_hex_loop s = Some bs \<and> length bs = length s div 2) \<longleftrightarrow> list_all isxdigit s"
  using from_hex_loop_None [OF assms] length_from_hex_loop [of s] by (cases "from_hex_loop s") auto

section \<open>Properties\<close>

text \<open>C35: hexadecimal text is read back by both readers: \<open>hex_to_pod\<close> and \<open>from_hex_locale::to_vector\<close>
  return the bytes that \<open>to_hex::string\<close> wrote; and \<open>hex_to_pod\<close> accepts exactly the texts that
  \<open>validate_hex\<close> accepts for twice the size of the object, and fills the object.\<close>

theorem hex_roundtrip:
  "hex_to_pod (length bs) (write_hex bs) = Some bs \<and> to_vector (write_hex bs) = Some bs
    \<and> (2 * n < 2 ^ 64 \<longrightarrow> (\<exists>out. hex_to_pod n s = Some out \<and> length out = n) = validate_hex (of_nat (2 * n)) s)"
proof -
  have "(\<exists>out. hex_to_pod n s = Some out \<and> length out = n) = validate_hex (of_nat (2 * n)) s" if "2 * n < 2 ^ 64"
  proof -
    have n: "unat (of_nat (2 * n) :: u64) = 2 * n" using that by (rule unat_of_nat_u64)
    show ?thesis
    proof (cases "length s = 2 * n")
      case True
      then show ?thesis using from_hex_loop_Some [of s] n
        by (simp add: hex_to_pod_def from_hex_to_buffer_def from_hex_unchecked_def validate_hex_def del: of_nat_mult)
    next
      case False
      then show ?thesis using n
        by (auto simp: hex_to_pod_def from_hex_to_buffer_def from_hex_unchecked_def validate_hex_def simp del: of_nat_mult)
    qed
  qed
  then show ?thesis
    by (simp add: hex_to_pod_def from_hex_to_buffer_def from_hex_write to_vector_write del: of_nat_mult)
qed

theorem hex_roundtrip_witness:
  "to_vector (write_hex [0xde, 0xad]) = Some [0xde, 0xad] \<and> 2 * (1 :: nat) < 2 ^ 64
    \<and> (\<exists>out. hex_to_pod 1 (ascii ''f0'') = Some out \<and> length out = 1) = validate_hex (of_nat (2 * 1)) (ascii ''f0'')"
proof -
  have "2 * (1 :: nat) < 2 ^ 64" by simp
  with hex_roundtrip [of "[0xde, 0xad]" 1 "ascii ''f0''"] show ?thesis by blast
qed

end
