(* ===== verification/Std_Map.thy ===== *)
theory Std_Map
  imports Prelude
begin

text \<open>
  \<open>std::map\<close> as a strictly ascending list of key and value pairs, in the order in which the code
  iterates over it, and the contract the clients rely on as a locale.
\<close>

section \<open>Definitions\<close>

text \<open>\<open>m[k] = v\<close>, \<open>m.find(k)\<close> and the entry before \<open>m.upper_bound(k)\<close>.\<close>

fun map_put :: "('k :: linorder \<times> 'v) list \<Rightarrow> 'k \<Rightarrow> 'v \<Rightarrow> ('k \<times> 'v) list" where
  "map_put [] k v = [(k, v)]"
| "map_put ((k', v') # m) k v =
    (if k < k' then (k, v) # (k', v') # m else if k = k' then (k, v) # m else (k', v') # map_put m k v)"

definition map_find :: "('k \<times> 'v) list \<Rightarrow> 'k \<Rightarrow> 'v option" where
  "map_find m k = map_of m k"

definition map_before_upper_bound :: "('k :: linorder \<times> 'v) list \<Rightarrow> 'k \<Rightarrow> ('k \<times> 'v) option" where
  "map_before_upper_bound m k =
    (let below = takeWhile (\<lambda>e. fst e \<le> k) m in if below = [] then None else Some (last below))"

definition map_wf :: "('k :: linorder \<times> 'v) list \<Rightarrow> bool" where
  "map_wf m \<longleftrightarrow> sorted_wrt (<) (map fst m)"

section \<open>The contract\<close>

locale ordered_map =
  fixes wf :: "'m \<Rightarrow> bool" and empty :: 'm and find :: "'m \<Rightarrow> 'k :: linorder \<Rightarrow> 'v option"
    and put :: "'m \<Rightarrow> 'k \<Rightarrow> 'v \<Rightarrow> 'm" and entries :: "'m \<Rightarrow> ('k \<times> 'v) list"
  assumes wf_empty: "wf empty" and find_empty: "find empty k = None"
    and wf_put: "wf m \<Longrightarrow> wf (put m k v)"
    and find_put: "wf m \<Longrightarrow> find (put m k v) k' = (if k' = k then Some v else find m k')"
    and entries_sorted: "wf m \<Longrightarrow> sorted_wrt (<) (map fst (entries m))"
    and entries_find: "wf m \<Longrightarrow> (k, v) \<in> set (entries m) \<longleftrightarrow> find m k = Some v"
begin

text \<open>An insertion that agrees with what is stored only adds to the map.\<close>

lemma put_extends:
  assumes "wf m" "find m k = None \<or> find m k = Some v"
  shows "find m \<subseteq>\<^sub>m find (put m k v)"
  using assms by (auto simp: map_le_def find_put)

lemma entries_Nil_iff:
  assumes "wf m"
  shows "entries m = [] \<longleftrightarrow> (\<forall>k. find m k = None)"
proof (cases "entries m")
  case Nil
  then have "find m k \<noteq> Some v" for k v using entries_find [OF assms, of k v] by simp
  then show ?thesis using Nil by (auto simp: not_Some_eq [symmetric])
next
  case (Cons e es)
  then have "find m (fst e) = Some (snd e)" using entries_find [OF assms, of "fst e" "snd e"] by simp
  then show ?thesis using Cons by force
qed

lemma entries_empty: "entries empty = []"
  using entries_Nil_iff [OF wf_empty] find_empty by simp

lemma last_entry_greatest:
  assumes "wf m" "entries m \<noteq> []" "find m k = Some v"
  shows "k \<le> fst (last (entries m))"
proof -
  obtain es e where es: "entries m = es @ [e]" using assms(2) by (metis rev_exhaust)
  have "(k, v) \<in> set (entries m)" using assms(1,3) by (simp add: entries_find)
  then show ?thesis using entries_sorted [OF assms(1)] by (auto simp: es sorted_wrt_append image_iff)
qed

text \<open>The first entries up to a key are exactly those with at most that key.\<close>

lemma takeWhile_entries:
  assumes "wf m"
  shows "set (takeWhile (\<lambda>e. fst e \<le> k) (entries m)) = {e \<in> set (entries m). fst e \<le> k}"
proof -
  have "sorted_wrt (<) (map fst es) \<Longrightarrow> set (takeWhile (\<lambda>e. fst e \<le> k) es) = {e \<in> set es. fst e \<le> k}"
    for es :: "('k \<times> 'v) list"
    by (induction es) auto
  then show ?thesis using entries_sorted [OF assms] .
qed

lemma before_upper_bound:
  assumes "wf m"
  shows "takeWhile (\<lambda>e. fst e \<le> k) (entries m) = [] \<Longrightarrow> find m k' = Some v' \<Longrightarrow> k < k'"
    and "takeWhile (\<lambda>e. fst e \<le> k) (entries m) \<noteq> [] \<Longrightarrow>
      fst (last (takeWhile (\<lambda>e. fst e \<le> k) (entries m))) \<le> k
      \<and> (find m k' = Some v' \<and> k' \<le> k \<longrightarrow> k' \<le> fst (last (takeWhile (\<lambda>e. fst e \<le> k) (entries m))))
      \<and> (\<exists>v. find m (fst (last (takeWhile (\<lambda>e. fst e \<le> k) (entries m)))) = Some v)"
proof -
  let ?below = "takeWhile (\<lambda>e. fst e \<le> k) (entries m)"
  note set = takeWhile_entries [OF assms, of k]
  show "?below = [] \<Longrightarrow> find m k' = Some v' \<Longrightarrow> k < k'"
    using set entries_find [OF assms, of k' v'] by (force simp: not_le [symmetric])
  assume ne: "?below \<noteq> []"
  then have last: "last ?below \<in> set (entries m)" "fst (last ?below) \<le> k" using set last_in_set [OF ne] by auto
  have "entries m = ?below @ dropWhile (\<lambda>e. fst e \<le> k) (entries m)" by simp
  then have "sorted_wrt (<) (map fst ?below)"
    using entries_sorted [OF assms] by (metis map_append sorted_wrt_append)
  moreover obtain es e where es: "?below = es @ [e]" using ne by (metis rev_exhaust)
  ultimately have "x \<in> set ?below \<Longrightarrow> fst x \<le> fst (last ?below)" for x by (auto simp: sorted_wrt_append image_iff)
  moreover have "find m k' = Some v' \<and> k' \<le> k \<Longrightarrow> (k', v') \<in> set ?below"
    unfolding set using entries_find [OF assms] by simp
  ultimately have "find m k' = Some v' \<and> k' \<le> k \<longrightarrow> k' \<le> fst (last ?below)" by force
  moreover have "\<exists>v. find m (fst (last ?below)) = Some v"
    using last(1) entries_find [OF assms, of "fst (last ?below)" "snd (last ?below)"] by auto
  ultimately show "fst (last ?below) \<le> k \<and> (find m k' = Some v' \<and> k' \<le> k \<longrightarrow> k' \<le> fst (last ?below))
      \<and> (\<exists>v. find m (fst (last ?below)) = Some v)"
    using last(2) by blast
qed

end

section \<open>The list implementation\<close>

lemma fst_map_put: "fst ` set (map_put m k v) = insert k (fst ` set m)"
  by (induction m k v rule: map_put.induct) auto

lemma map_wf_put: "map_wf m \<Longrightarrow> map_wf (map_put m k v)"
proof (induction m k v rule: map_put.induct)
  case (2 k' v' m k v)
  then show ?case using fst_map_put [of m k v] by (force simp: map_wf_def)
qed (simp add: map_wf_def)

lemma map_find_put: "map_wf m \<Longrightarrow> map_find (map_put m k v) k' = (if k' = k then Some v else map_find m k')"
  by (induction m k v rule: map_put.induct) (auto simp: map_find_def map_wf_def)

lemma map_wf_distinct: "map_wf m \<Longrightarrow> distinct (map fst m)"
  by (simp add: map_wf_def strict_sorted_iff)

interpretation std_map: ordered_map map_wf "[] :: ('k :: linorder \<times> 'v) list" map_find map_put "\<lambda>m. m"
proof unfold_locales
  show "(k, v) \<in> set m \<longleftrightarrow> map_find m k = Some v" if "map_wf m" for k v and m :: "('k \<times> 'v) list"
    using map_wf_distinct [OF that] by (simp add: map_find_def map_of_eq_Some_iff)
qed (simp_all add: map_wf_put map_find_put, simp_all add: map_wf_def map_find_def)

end
