(* ===== verification/Checkpoints.thy ===== *)
theory Checkpoints
  imports Std_Map Hex
begin

text \<open>
  The checkpoints of \<open>src/checkpoints/checkpoints.cpp\<close> and the quick sync file of
  \<open>src/checkpoints/quicksync.cpp\<close>. The containers are the ordered maps of \<open>Std_Map\<close>. Files and
  DNS answers are arguments: what was read, or that nothing could be read. An operation returns the
  new object and the boolean result of the code; \<open>None\<close> is an exception.
\<close>

section \<open>Definitions\<close>

datatype network_type = MAINNET | TESTNET | STAGENET | FAKECHAIN | UNDEFINED

definition get_config_ASSUME_VALID_HEIGHT :: "network_type \<Rightarrow> u64 option" where
  "get_config_ASSUME_VALID_HEIGHT nettype =
    (case nettype of
       MAINNET \<Rightarrow> Some 4320000
     | TESTNET \<Rightarrow> Some 0
     | STAGENET \<Rightarrow> Some 0
     | FAKECHAIN \<Rightarrow> Some 4320000
     | UNDEFINED \<Rightarrow> None)"

record checkpoints =
  m_points :: "(u64 \<times> hash) list"

definition new_checkpoints :: checkpoints where
  "new_checkpoints = \<lparr>m_points = []\<rparr>"

definition add_checkpoint :: "checkpoints \<Rightarrow> u64 \<Rightarrow> bytes \<Rightarrow> checkpoints \<times> bool" where
  "add_checkpoint cp height hash_str =
    (case hex_to_pod 32 hash_str of
       None \<Rightarrow> (cp, False)
     | Some h \<Rightarrow>
         (case map_find (m_points cp) height of
            Some h' \<Rightarrow> if h = h' then (cp\<lparr>m_points := map_put (m_points cp) height h\<rparr>, True) else (cp, False)
          | None \<Rightarrow> (cp\<lparr>m_points := map_put (m_points cp) height h\<rparr>, True)))"

definition is_in_checkpoint_zone :: "checkpoints \<Rightarrow> u64 \<Rightarrow> bool" where
  "is_in_checkpoint_zone cp height = (m_points cp \<noteq> [] \<and> height \<le> fst (last (m_points cp)))"

text \<open>The result and the flag \<open>is_a_checkpoint\<close>.\<close>

definition check_block :: "checkpoints \<Rightarrow> u64 \<Rightarrow> hash \<Rightarrow> bool \<times> bool" where
  "check_block cp height h =
    (case map_find (m_points cp) height of
       None \<Rightarrow> (True, False)
     | Some h' \<Rightarrow> (h' = h, True))"

definition is_alternative_block_allowed :: "checkpoints \<Rightarrow> u64 \<Rightarrow> u64 \<Rightarrow> bool" where
  "is_alternative_block_allowed cp blockchain_height block_height =
    (if 0 = block_height then False
     else case map_before_upper_bound (m_points cp) blockchain_height of
            None \<Rightarrow> True
          | Some (checkpoint_height, _) \<Rightarrow> checkpoint_height < block_height)"

definition get_max_height :: "checkpoints \<Rightarrow> u64" where
  "get_max_height cp = (if m_points cp = [] then 0 else fst (last (m_points cp)))"

definition check_for_conflicts :: "checkpoints \<Rightarrow> checkpoints \<Rightarrow> bool" where
  "check_for_conflicts cp other =
    list_all (\<lambda>(height, h). case map_find (m_points cp) height of Some h' \<Rightarrow> h = h' | None \<Rightarrow> True) (m_points other)"

text \<open>A sequence of \<open>ADD_CHECKPOINT\<close>, which leaves the function at the first failure.\<close>

fun add_checkpoint_list :: "checkpoints \<Rightarrow> (u64 \<times> bytes) list \<Rightarrow> checkpoints \<times> bool" where
  "add_checkpoint_list cp [] = (cp, True)"
| "add_checkpoint_list cp ((height, hash_str) # ps) =
    (let (cp, r) = add_checkpoint cp height hash_str
     in if r then add_checkpoint_list cp ps else (cp, False))"

definition mainnet_checkpoints :: "(u64 \<times> string) list" where
  "mainnet_checkpoints = [
    (1, ''fe2b6c553f136ce46f4716e22d64b07732246dfc245c8f23c41a3eadc888d89d''),
    (10, ''2fffb6f916a1eb535cd466ecb8022ee1980c81430fe1daaa2b28134355319288''),
    (1000, ''5de9c560b9e7294cc63c74aadf01edb39ec43fd218def726740d770b558c7097''),
    (10000, ''992fbc3247e5a6d1b23b67025d8651656d9ecda364878f177ff011ff2f27d64d''),
    (100000, ''ab33ccdb964c6a39cc57b302b03e7125c212b72fe67cc30e7467229175646d81''),
    (200000, ''39e1edc050e72ba55dfce0fa9956ad789e3b6dacfabd731f7e469619c019c5bd''),
    (300000, ''14b59684805db6e87fda7970f7ba4d84e53e382733031101ddaaf61883baa1cc''),
    (400000, ''cf2afac38a53837927feb7356c369cbf97e3146de51feaa7f8fa833acb9206f7''),
    (500000, ''892e073423b002da181cd1cc9f423514505dd627f872d2f550ad408643df3d86''),
    (600000, ''c176fa88d65c87858d77a9bc202e8db57823f4855904c3ce67fb2f374dd83bf0''),
    (700000, ''acc6e48c254d9ffd1978ca78a5c3b033714c96a2d0bd956962a779fa81eb8a59''),
    (800000, ''95aea447e43694cf7abcda6153e9f99747ed2fbf2f2975c9af9e876513eed331''),
    (900000, ''f860dee2a65d38109d223aa804fdb06f0d2a33b6bb7273337c8b28e79fa87a72''),
    (1000000, ''2f4246adfa484fafff09e367a62ad14bba7440730a471ca335dd0ea76dfb736a''),
    (1100000, ''8e94d9914b712513c6b563f057ab4d762392fbd84351a04f1d7e63abb1cad06b''),
    (1200000, ''2b5eae48be279e38a0e395a509f246f1b5e7f746384e9e2f1bce750ed63aa65b''),
    (1300000, ''363e7e5e7d08574d1f5815d06805081b151af34792ce6dbd22d66ea253b8618d''),
    (1400000, ''698fc03d367e192bdc6da376c959a9f312e4cd4ab311f4a18ca4fd5a4bcab640''),
    (1500000, ''783ead46ba80e76f7feb25f7d23acf34a34f8d112fd2dc707e1aacb8261d466d''),
    (1600000, ''8275b4eb901257080434c659ecdda449b2eea7c2b86cc586e2b3442371223bf7''),
    (1700000, ''c2f03c5ef2b6b4b27afe0731c5dc556b3a491ace0437cead634e19c59104064c''),
    (1800000, ''c023301bf056032148c58876c61d2863da1ccc325df8dfc83b3f247923153129''),
    (1900000, ''e390685e11617caaacadef9d45662f2cf2e82f12ba6f990553898203dfe72897''),
    (2000000, ''2aad0c92cf4df8799f5307e2ced10921bf70d4144d39b076d7975a70eb401455''),
    (2100000, ''5ccad0ef7389dcf64ce6d52e3b4f84f7138bab756a3d4238d5d0ec04e162054c''),
    (2200000, ''bcc96246d6e6fcfdaa0af80cd0050f8cad324934b81e602dfa240bcc2bc52b22''),
    (2300000, ''b35cc68366383166c559ba6aaaf57863505078164f77ceaa75a04dbe64556f31''),
    (2400000, ''acdbbd03f3c94cfe71157040e9180db759b8e3351678cfc753681af3324a6fb6''),
    (2500000, ''0f2edf79d88d9bf0bc2cec40ea7488b8f0f548248b2ffac4d56fd18871ca552a''),
    (2600000, ''8e3136ee2c0c2f8ec984cef1aed9a73c53b8b454b828ad78e49e243136548014''),
    (2700000, ''c6d60df64c06f5e2d0a49ecce22dcb453214aeb50d56eb13f4c9466e6832226b''),
    (2800000, ''35d8220885ed8d5eab35c321c7215c9a1990a0b21256856a1910e16e101f9200''),
    (2900000, ''debeffd465feccbb7aa94159ee698b6f059673469aa1eb16b37f13f58b09c4a9''),
    (3000000, ''cab3a91567a86c134a05f078637f736a03d69c427019fdb46e5d6c650edb885a''),
    (3100000, ''6c05d795ba8060a4b302aa2b5a91dc95fc46a0e5a3d882f601f47f2c59c4a2d5''),
    (3200000, ''a23310b268022d868eebe810669224bfc4b8296e573e8ab10de5e3de0b530326''),
    (3300000, ''6b5bb134466c8ca54139ee9ffd422cc26bb8d380b5dc99874fe1c78d69ffd8f7''),
    (3400000, ''7226372927bd1e27f2d4eac95918db129d02e9a7221b74bc4810f4d31f3d68c7''),
    (3500000, ''ecced65d0b9577c971b2d92471a39da10bdc398cef1e6231d5714223a59a841a''),
    (3600000, ''4ee4e483ed91285604a76cd99154cd857ea9d9dfe3ede347979a06a99b2c65bc''),
    (3700000, ''3abc435c98a3ed81b38c1555c58846d5a3dec412fc1ee553e455062f2232e008''),
    (3800000, ''d9f5cb1aa289cf1aa8d0e0a68f1524e14b1901c995b6cd0b1cb794ab58224d93''),
    (3900000, ''a66fe1e2b829080e7b9644ff39c52018c64cebd7c9b3439bf69afe11d70c04e8''),
    (4000000, ''5b3271eca95fce944086b55c44fa8c26b47e51e508ff272d1228455591f9091d''),
    (4100000, ''50ededd060ac706e66c013a34bf55adc54d29302833acd9fa0191dd3163be825''),
    (4200000, ''9e1bbcbf0bd690a59299008e51cfde8403364cde89a1c96bfe173158c3269a8f''),
    (4300000, ''6ee1e78bd980b5918bf2e7c87b72bb21bc86c7088750bea15e6b0b67a55a93c6''),
    (4320000, ''45ae8c2a5f5463671ee092adc3f0f786c57369ba5a6fff2119bac0f1a2b86339''),
    (4400000, ''d4fdc6f8871467fa3c71f90174e9440c2f7ca93ba595984cb734483fc4ac5716'')]"

definition init_default_checkpoints :: "checkpoints \<Rightarrow> network_type \<Rightarrow> (checkpoints \<times> bool) option" where
  "init_default_checkpoints cp nettype =
    (let (cp, r) = (if nettype = MAINNET
                    then add_checkpoint_list cp (map (\<lambda>(h, s). (h, ascii s)) mainnet_checkpoints) else (cp, True))
     in if \<not> r then Some (cp, False)
        else case get_config_ASSUME_VALID_HEIGHT nettype of
               None \<Rightarrow> None
             | Some assume_valid_height \<Rightarrow>
                 Some (cp, nettype = FAKECHAIN \<or> assume_valid_height = 0 \<or> get_max_height cp \<ge> assume_valid_height))"

text \<open>The checkpoint file: missing, not parsed, or its lines of height and hash.\<close>

datatype json_file = No_File | Bad_File | Hashlines "(u64 \<times> bytes) list"

definition load_checkpoints_from_json :: "checkpoints \<Rightarrow> json_file \<Rightarrow> checkpoints \<times> bool" where
  "load_checkpoints_from_json cp file =
    (case file of
       No_File \<Rightarrow> (cp, True)
     | Bad_File \<Rightarrow> (cp, False)
     | Hashlines hashlines \<Rightarrow>
         let prev_max_height = get_max_height cp
         in add_checkpoint_list cp (filter (\<lambda>(height, _). \<not> height \<le> prev_max_height) hashlines))"

text \<open>\<open>stream >> height\<close> for an unsigned 64-bit number: white space, a sign, decimal digits; a negative
  number is negated modulo \<open>2 ^ 64\<close>, a number out of range fails.\<close>

definition c_isspace :: "u8 \<Rightarrow> bool" where
  "c_isspace c = (c = 0x20 \<or> 9 \<le> c \<and> c \<le> 13)"

definition c_isdigit :: "u8 \<Rightarrow> bool" where
  "c_isdigit c = (0x30 \<le> c \<and> c \<le> 0x39)"

definition decimal_value :: "bytes \<Rightarrow> nat" where
  "decimal_value ds = foldl (\<lambda>n d. 10 * n + (unat d - 0x30)) 0 ds"

definition stream_read_u64 :: "bytes \<Rightarrow> u64 option" where
  "stream_read_u64 s =
    (let s = dropWhile c_isspace s;
         negative = (s \<noteq> [] \<and> hd s = 0x2D);
         s = (if s \<noteq> [] \<and> (hd s = 0x2D \<or> hd s = 0x2B) then tl s else s);
         digits = takeWhile c_isdigit s;
         n = decimal_value digits
     in if digits = [] \<or> 2 ^ 64 \<le> n then None
        else Some (if negative then - of_nat n else of_nat n))"

text \<open>The loop over the TXT records; a record without a colon or with unreadable parts is skipped.\<close>

fun add_dns_records :: "checkpoints \<Rightarrow> bytes list \<Rightarrow> checkpoints \<times> bool" where
  "add_dns_records cp [] = (cp, True)"
| "add_dns_records cp (rec # recs) =
    (if 0x3A \<in> set rec
     then let pos = length (takeWhile (\<lambda>c. c \<noteq> 0x3A) rec);
              hashStr = drop (pos + 1) rec
          in case stream_read_u64 (take pos rec) of
               None \<Rightarrow> add_dns_records cp recs
             | Some height \<Rightarrow>
                 if hex_to_pod 32 hashStr = None then add_dns_records cp recs
                 else let (cp, r) = add_checkpoint cp height hashStr
                      in if r then add_dns_records cp recs else (cp, False)
     else add_dns_records cp recs)"

definition load_checkpoints_from_dns :: "checkpoints \<Rightarrow> bytes list option \<Rightarrow> checkpoints \<times> bool" where
  "load_checkpoints_from_dns cp records =
    (case records of None \<Rightarrow> (cp, True) | Some recs \<Rightarrow> add_dns_records cp recs)"

definition load_new_checkpoints :: "checkpoints \<Rightarrow> json_file \<Rightarrow> bytes list option \<Rightarrow> bool \<Rightarrow> checkpoints \<times> bool" where
  "load_new_checkpoints cp file records dns =
    (let (cp, result) = load_checkpoints_from_json cp file
     in if dns
        then let (cp, r) = load_checkpoints_from_dns cp records in (cp, result \<and> r)
        else (cp, result))"

subsection \<open>Quick sync\<close>

record quicksync =
  m_data :: "(u64 \<times> hash) list"
  m_is_loaded :: bool
  m_min :: u32
  m_max :: u32

definition new_quicksync :: quicksync where
  "new_quicksync = \<lparr>m_data = [], m_is_loaded = False, m_min = 0, m_max = 0\<rparr>"

text \<open>The result and the flag \<open>is_present\<close>.\<close>

definition quicksync_check_block :: "quicksync \<Rightarrow> u64 \<Rightarrow> hash \<Rightarrow> bool \<times> bool" where
  "quicksync_check_block qs height h =
    (if \<not> m_is_loaded qs then (False, False)
     else case map_find (m_data qs) height of
            None \<Rightarrow> (False, False)
          | Some h' \<Rightarrow> (h' = h, True))"

definition check_against_checkpoints :: "quicksync \<Rightarrow> checkpoints \<Rightarrow> bool" where
  "check_against_checkpoints qs cp =
    list_all (\<lambda>(height, h). case map_find (m_data qs) height of None \<Rightarrow> True | Some h' \<Rightarrow> \<not> h' \<noteq> h) (m_points cp)"

text \<open>\<open>import_file.read\<close> into a 32-bit number: a short read overwrites the low bytes only and fails.\<close>

definition read_u32 :: "u32 \<Rightarrow> bytes \<Rightarrow> u32 \<times> bytes \<times> bool" where
  "read_u32 old file =
    (let got = take 4 file
     in (le_word (got @ drop (length got) (le_split 4 old)), drop 4 file, length got = 4))"

fun read_hashes :: "nat \<Rightarrow> u64 \<Rightarrow> bytes \<Rightarrow> (u64 \<times> hash) list \<Rightarrow> (u64 \<times> hash) list option" where
  "read_hashes 0 height file data = Some data"
| "read_hashes (Suc n) height file data =
    (if length file < 32 then None
     else read_hashes n (height + 1) (drop 32 file) (map_put data height (take 32 file)))"

definition quicksync_load :: "quicksync \<Rightarrow> bytes option \<Rightarrow> quicksync \<times> bool" where
  "quicksync_load qs file =
    (case file of
       None \<Rightarrow> (qs, False)
     | Some file \<Rightarrow>
         let (comp, file, _) = read_u32 0 file
         in if comp \<noteq> 0x149f943e then (qs, False)
            else
              let (mn, file, ok) = read_u32 (m_min qs) file;
                  qs = qs\<lparr>m_min := mn\<rparr>
              in if \<not> ok then (qs, False)
                 else
                   let (mx, file, ok) = read_u32 (m_max qs) file;
                       qs = qs\<lparr>m_max := mx\<rparr>
                   in if \<not> ok then (qs, False)
                      else if m_min qs > m_max qs then (qs, False)
                      else
                        let count = (ucast (m_max qs) - ucast (m_min qs) :: u64)
                        in if of_nat (length file) < count * 32 then (qs, False)
                           else case read_hashes (unat count) (ucast (m_min qs)) file (m_data qs) of
                                  None \<Rightarrow> (qs\<lparr>m_data := []\<rparr>, False)
                                | Some data \<Rightarrow> (qs\<lparr>m_data := data, m_is_loaded := True\<rparr>, True))"

section \<open>Loading checkpoints\<close>

definition points_wf :: "checkpoints \<Rightarrow> bool" where
  "points_wf cp \<longleftrightarrow> map_wf (m_points cp)"

definition points :: "checkpoints \<Rightarrow> u64 \<rightharpoonup> hash" where
  "points cp = map_find (m_points cp)"

text \<open>The step every loader is made of.\<close>

definition grows :: "checkpoints \<Rightarrow> checkpoints \<Rightarrow> bool" where
  "grows cp cp' \<longleftrightarrow> points_wf cp' \<and> points cp \<subseteq>\<^sub>m points cp'"

lemma grows_refl: "points_wf cp \<Longrightarrow> grows cp cp"
  by (simp add: grows_def)

lemma grows_trans: "grows cp cp' \<Longrightarrow> grows cp' cp'' \<Longrightarrow> grows cp cp''"
  by (auto simp: grows_def intro: map_le_trans)

lemma add_checkpoint_grows:
  assumes "points_wf cp"
  shows "grows cp (fst (add_checkpoint cp height hash_str))"
proof -
  have "grows cp (cp\<lparr>m_points := map_put (m_points cp) height h\<rparr>)"
    if "map_find (m_points cp) height = None \<or> map_find (m_points cp) height = Some h" for h
    using std_map.put_extends [OF _ that] std_map.wf_put [of "m_points cp" height h] assms
    by (simp add: grows_def points_wf_def points_def)
  then show ?thesis using grows_refl [OF assms] by (auto simp: add_checkpoint_def split: option.splits)
qed

lemma add_checkpoint_point:
  assumes "points_wf cp"
  shows "snd (add_checkpoint cp height hash_str) \<longleftrightarrow>
      (\<exists>h. hex_to_pod 32 hash_str = Some h \<and> (points cp height = None \<or> points cp height = Some h))"
    and "snd (add_checkpoint cp height hash_str) \<Longrightarrow>
      points (fst (add_checkpoint cp height hash_str)) = (points cp)(height := hex_to_pod 32 hash_str)"
  using assms by (auto simp: add_checkpoint_def points_def points_wf_def fun_eq_iff std_map.find_put split: option.splits)

lemma add_checkpoint_list_grows: "points_wf cp \<Longrightarrow> grows cp (fst (add_checkpoint_list cp ps))"
proof (induction cp ps rule: add_checkpoint_list.induct)
  case (2 cp height hash_str ps)
  obtain cp1 r where r: "add_checkpoint cp height hash_str = (cp1, r)" by fastforce
  have "grows cp cp1" using add_checkpoint_grows [OF 2(2), of height hash_str] r by simp
  moreover from this 2(1) [OF r [symmetric] refl] have "r \<Longrightarrow> grows cp1 (fst (add_checkpoint_list cp1 ps))"
    by (simp add: grows_def)
  ultimately show ?case using r grows_trans by auto
qed (simp add: grows_refl)

lemma add_dns_records_grows: "points_wf cp \<Longrightarrow> grows cp (fst (add_dns_records cp recs))"
proof (induction recs arbitrary: cp)
  case (Cons r recs)
  have add: "grows cp (fst (add_checkpoint cp h s))" for h s using Cons.prems by (rule add_checkpoint_grows)
  then have "grows cp (fst (add_dns_records (fst (add_checkpoint cp h s)) recs))" for h s
    using Cons.IH [of "fst (add_checkpoint cp h s)"] grows_trans [OF add] by (simp add: grows_def)
  with add Cons show ?case by (auto simp: Let_def case_prod_beta split: option.splits)
qed (simp add: grows_refl)

lemma load_new_checkpoints_grows:
  assumes "points_wf cp"
  shows "grows cp (fst (load_new_checkpoints cp file records dns))"
proof -
  define cp1 where "cp1 = fst (load_checkpoints_from_json cp file)"
  have json: "grows cp cp1"
    using grows_refl [OF assms] add_checkpoint_list_grows [OF assms]
    by (auto simp: cp1_def load_checkpoints_from_json_def Let_def split: json_file.splits)
  then have "points_wf cp1" by (simp add: grows_def)
  then have "grows cp1 (fst (load_checkpoints_from_dns cp1 records))"
    using grows_refl add_dns_records_grows by (auto simp: load_checkpoints_from_dns_def split: option.splits)
  with json show ?thesis
    using grows_trans by (auto simp: load_new_checkpoints_def cp1_def [symmetric] case_prod_beta Let_def)
qed

section \<open>The compiled-in checkpoints\<close>

fun hex_char :: "char \<Rightarrow> bool" where
  "hex_char (Char b0 b1 b2 b3 b4 b5 b6 b7) \<longleftrightarrow> \<not> b7 \<and> b5 \<and>
    (if b6 then \<not> b4 \<and> \<not> b3 \<and> (b0 \<or> b1 \<or> b2) \<and> \<not> (b0 \<and> b1 \<and> b2) else b4 \<and> (\<not> b3 \<or> \<not> b2 \<and> \<not> b1))"

definition hex_text :: "string \<Rightarrow> bool" where
  "hex_text s \<longleftrightarrow> length s = 64 \<and> list_all hex_char s"

lemma hex_char_digit: "hex_char c \<Longrightarrow> c \<in> set ''0123456789abcdef''"
  by (cases c) (auto split: if_splits)

lemma isxdigit_hex_text: "hex_char c \<Longrightarrow> isxdigit (of_char c)"
proof -
  have "list_all (\<lambda>c. isxdigit (of_char c)) ''0123456789abcdef''" by code_simp
  then show "hex_char c \<Longrightarrow> isxdigit (of_char c)" using hex_char_digit by (simp only: list_all_iff)
qed

lemma hex_text_pod: "hex_text s \<Longrightarrow> \<exists>h. hex_to_pod 32 (ascii s) = Some h"
  using from_hex_loop_None [of "ascii s"] isxdigit_hex_text
  by (auto simp: hex_text_def hex_to_pod_def from_hex_to_buffer_def from_hex_unchecked_def ascii_def list_all_iff)

lemma mainnet_checkpoints_text: "list_all (\<lambda>(h, s). hex_text s) mainnet_checkpoints"
  by code_simp

lemma mainnet_checkpoints_heights:
  "map fst mainnet_checkpoints = [1, 10, 1000, 10000, 100000, 200000, 300000, 400000, 500000, 600000, 700000, 800000, 900000,
    1000000, 1100000, 1200000, 1300000, 1400000, 1500000, 1600000, 1700000, 1800000, 1900000,
    2000000, 2100000, 2200000, 2300000, 2400000, 2500000, 2600000, 2700000, 2800000, 2900000,
    3000000, 3100000, 3200000, 3300000, 3400000, 3500000, 3600000, 3700000, 3800000, 3900000,
    4000000, 4100000, 4200000, 4300000, 4320000, 4400000]"
  unfolding mainnet_checkpoints_def by (simp only: list.map fst_conv)

lemma mainnet_checkpoints_sorted: "sorted_wrt (<) (map fst mainnet_checkpoints)"
  unfolding mainnet_checkpoints_heights
  by (simp only: sorted_wrt2 [OF transp_on_less] sorted_wrt1) simp

lemma map_put_snoc: "\<forall>e\<in>set m. fst e < k \<Longrightarrow> map_put m k v = m @ [(k, v)]"
  by (induction m k v rule: map_put.induct) auto

lemma add_checkpoint_list_table:
  assumes "sorted_wrt (<) (map fst (m_points cp) @ map fst ps)" "\<forall>(h, s)\<in>set ps. hex_to_pod 32 s \<noteq> None"
  shows "add_checkpoint_list cp ps =
    (cp\<lparr>m_points := m_points cp @ map (\<lambda>(h, s). (h, the (hex_to_pod 32 s))) ps\<rparr>, True)"
  using assms
proof (induction ps arbitrary: cp)
  case (Cons p ps)
  obtain h s where p: "p = (h, s)" by (cases p)
  have fresh: "\<forall>e\<in>set (m_points cp). fst e < h" using Cons.prems(1) by (auto simp: p sorted_wrt_append)
  then have "map_find (m_points cp) h = None" by (auto simp: map_find_def map_of_eq_None_iff)
  moreover obtain x where "hex_to_pod 32 s = Some x" using Cons.prems(2) p by auto
  ultimately show ?case
    using Cons.prems Cons.IH [of "cp\<lparr>m_points := m_points cp @ [(h, x)]\<rparr>"]
    by (simp add: p add_checkpoint_def map_put_snoc [OF fresh])
qed simp

lemma init_default_mainnet:
  "\<exists>cp. init_default_checkpoints new_checkpoints MAINNET = Some (cp, True) \<and> points_wf cp
    \<and> get_max_height cp = 4400000 \<and> map fst (m_points cp) = map fst mainnet_checkpoints"
proof -
  define table where "table = map (\<lambda>(h, s). (h, ascii s)) mainnet_checkpoints"
  define ps where "ps = map (\<lambda>(h, s). (h, the (hex_to_pod 32 s))) table"
  have parses: "\<forall>(h, s)\<in>set table. hex_to_pod 32 s \<noteq> None"
    using mainnet_checkpoints_text hex_text_pod by (fastforce simp: list_all_iff table_def)
  have keys: "map fst table = map fst mainnet_checkpoints" "map fst ps = map fst mainnet_checkpoints"
    by (simp_all add: table_def ps_def comp_def case_prod_beta)
  have list: "add_checkpoint_list new_checkpoints table = (\<lparr>m_points = ps\<rparr>, True)"
    using add_checkpoint_list_table [of new_checkpoints table] parses keys(1) mainnet_checkpoints_sorted
    by (simp add: new_checkpoints_def ps_def)
  have "map fst ps \<noteq> []" unfolding keys(2) mainnet_checkpoints_heights by simp
  then have ne: "ps \<noteq> []" by blast
  have "fst (last ps) = last (map fst ps)" using ne by (simp add: last_map)
  also have "\<dots> = 4400000" unfolding keys(2) mainnet_checkpoints_heights by simp
  finally have "get_max_height \<lparr>m_points = ps\<rparr> = 4400000" using ne by (simp add: get_max_height_def)
  then show ?thesis
    using list keys(2) mainnet_checkpoints_sorted
    by (simp add: init_default_checkpoints_def get_config_ASSUME_VALID_HEIGHT_def points_wf_def map_wf_def
        table_def [symmetric])
qed

section \<open>Quick sync files\<close>

lemma read_hashes_find:
  assumes "map_wf data" "32 * n \<le> length bs" "unat h + n < 2 ^ 64"
  shows "\<exists>data'. read_hashes n h bs data = Some data' \<and> map_wf data'
    \<and> (\<forall>k. map_find data' k = (if unat h \<le> unat k \<and> unat k < unat h + n
          then Some (take 32 (drop (32 * (unat k - unat h)) bs)) else map_find data k))"
  using assms
proof (induction n arbitrary: h bs data)
  case 0
  then show ?case by auto
next
  case (Suc n)
  have succ: "unat (h + 1) = unat h + 1" using Suc.prems(3) by (simp add: unat_add_u64)
  let ?data = "map_put data h (take 32 bs)"
  have put: "map_wf ?data" "map_find ?data k = (if k = h then Some (take 32 bs) else map_find data k)" for k
    using Suc.prems(1) by (simp_all add: map_wf_put map_find_put)
  have rest: "32 * n \<le> length (drop 32 bs)" "unat (h + 1) + n < 2 ^ 64" using Suc.prems(2,3) succ by simp_all
  obtain data' where data': "read_hashes n (h + 1) (drop 32 bs) ?data = Some data'" "map_wf data'"
    and find: "\<And>k. map_find data' k = (if unat (h + 1) \<le> unat k \<and> unat k < unat (h + 1) + n
          then Some (take 32 (drop (32 * (unat k - unat (h + 1))) (drop 32 bs))) else map_find ?data k)"
    using Suc.IH [OF put(1) rest] by blast
  have "map_find data' k = (if unat h \<le> unat k \<and> unat k < unat h + Suc n
      then Some (take 32 (drop (32 * (unat k - unat h)) bs)) else map_find data k)" for k
  proof (cases "k = h")
    case False
    then have "unat k \<noteq> unat h" by (simp add: word_unat_eq_iff)
    moreover from this have "unat h < unat k \<Longrightarrow> 32 * (unat k - (unat h + 1)) + 32 = 32 * (unat k - unat h)" by simp
    ultimately show ?thesis using False by (auto simp: find put(2) succ)
  qed (simp add: find put(2) succ)
  with data' Suc.prems(2) show ?case by auto
qed

text \<open>The file that \<open>quicksync_load\<close> reads.\<close>

definition quicksync_file :: "u32 \<Rightarrow> u32 \<Rightarrow> bytes \<Rightarrow> bytes" where
  "quicksync_file mn mx body = le_split 4 (0x149f943e :: u32) @ le_split 4 mn @ le_split 4 mx @ body"

lemma read_u32_split: "read_u32 old (le_split 4 x @ rest) = (x, rest, True)"
  by (simp add: read_u32_def le_word_le_split take_bit_word_eq_self)

lemma quicksync_load_file:
  assumes "mn \<le> mx" "length body < 2 ^ 64"
  shows "quicksync_load qs (Some (quicksync_file mn mx body)) =
    (if length body < 32 * (unat mx - unat mn) then (qs\<lparr>m_min := mn, m_max := mx\<rparr>, False)
     else case read_hashes (unat mx - unat mn) (ucast mn) body (m_data qs) of
            None \<Rightarrow> (qs\<lparr>m_min := mn, m_max := mx, m_data := []\<rparr>, False)
          | Some data \<Rightarrow> (qs\<lparr>m_min := mn, m_max := mx, m_data := data, m_is_loaded := True\<rparr>, True))"
proof -
  have "ucast mn \<le> (ucast mx :: u64)" using assms(1) by (simp add: word_le_nat_alt unat_ucast_u32_u64)
  then have count: "unat (ucast mx - ucast mn :: u64) = unat mx - unat mn"
    by (simp add: unat_sub_u64 unat_ucast_u32_u64)
  moreover have "unat mx - unat mn < 2 ^ 32" using unat_u32_bound [of mx] by simp
  ultimately have "unat ((ucast mx - ucast mn) * 32 :: u64) = 32 * (unat mx - unat mn)"
    by (simp only: unat_mult_u64) simp
  moreover have "unat (of_nat (length body) :: u64) = length body" by (rule unat_of_nat_u64 [OF assms(2)])
  ultimately have "(of_nat (length body) :: u64) < (ucast mx - ucast mn) * 32 \<longleftrightarrow> length body < 32 * (unat mx - unat mn)"
    by (simp only: word_less_nat_alt)
  then show ?thesis
    using assms(1) by (simp add: quicksync_load_def quicksync_file_def read_u32_split Let_def count not_less
        split: option.splits)
qed

section \<open>Properties\<close>

text \<open>C26: loading more checkpoints, from a file or from DNS, whatever it contains, never drops or changes
  a checkpoint: the old checkpoints are kept, the container stays ordered, and a block that passes
  the new checkpoints passes the old ones.\<close>

theorem checkpoints_only_grow:
  assumes "map_wf (m_points cp)"
  shows "let cp' = fst (load_new_checkpoints cp file records dns) in
    map_wf (m_points cp') \<and> map_find (m_points cp) \<subseteq>\<^sub>m map_find (m_points cp')
    \<and> (fst (check_block cp' height h) \<longrightarrow> fst (check_block cp height h))"
proof -
  have "grows cp (fst (load_new_checkpoints cp file records dns))"
    using assms by (intro load_new_checkpoints_grows) (simp add: points_wf_def)
  then have "map_wf (m_points (fst (load_new_checkpoints cp file records dns)))"
    and le: "map_find (m_points cp) \<subseteq>\<^sub>m map_find (m_points (fst (load_new_checkpoints cp file records dns)))"
    by (simp_all add: grows_def points_wf_def points_def)
  moreover have "map_find (m_points cp) height = Some h' \<Longrightarrow>
      map_find (m_points (fst (load_new_checkpoints cp file records dns))) height = Some h'" for h'
    using le by (metis domI map_le_def)
  ultimately show ?thesis by (auto simp: Let_def check_block_def split: option.splits)
qed

theorem checkpoints_only_grow_witness:
  "\<exists>cp. m_points cp \<noteq> [] \<and> map_wf (m_points cp)
    \<and> map_find (m_points cp) \<subseteq>\<^sub>m map_find (m_points (fst (load_new_checkpoints cp (Hashlines [(9, ascii ''00'')]) None True)))"
proof -
  have "map_wf (m_points \<lparr>m_points = [(7, replicate 32 0)]\<rparr>)" by (simp add: map_wf_def)
  from checkpoints_only_grow [OF this, of "Hashlines [(9, ascii ''00'')]" None True] this show ?thesis
    by (intro exI [of _ "\<lparr>m_points = [(7, replicate 32 0)]\<rparr>"]) (simp add: Let_def)
qed

text \<open>A block may be added on an alternative chain exactly when it is not the genesis block and every
  checkpoint at or below the height of the chain lies strictly below the block.\<close>

theorem alternative_block_allowed_iff:
  assumes "map_wf (m_points cp)"
  shows "is_alternative_block_allowed cp blockchain_height block_height \<longleftrightarrow>
    block_height \<noteq> 0 \<and> (\<forall>c h. map_find (m_points cp) c = Some h \<and> c \<le> blockchain_height \<longrightarrow> c < block_height)"
proof -
  let ?below = "takeWhile (\<lambda>e. fst e \<le> blockchain_height) (m_points cp)"
  note ub = std_map.before_upper_bound [OF assms, of blockchain_height]
  show ?thesis
  proof (cases "?below = []")
    case True
    have "\<not> c \<le> blockchain_height" if "map_find (m_points cp) c = Some h" for c h
      using ub(1) [OF True that] by (simp add: not_le)
    with True show ?thesis
      by (auto simp: is_alternative_block_allowed_def map_before_upper_bound_def)
  next
    case False
    have last: "fst (last ?below) \<le> blockchain_height" "\<exists>v. map_find (m_points cp) (fst (last ?below)) = Some v"
      using ub(2) [OF False] by blast+
    have great: "c \<le> fst (last ?below)" if "map_find (m_points cp) c = Some h" "c \<le> blockchain_height" for c h
      using ub(2) [OF False, of c h] that by blast
    have "is_alternative_block_allowed cp blockchain_height block_height \<longleftrightarrow> block_height \<noteq> 0 \<and> fst (last ?below) < block_height"
      using False by (auto simp: is_alternative_block_allowed_def map_before_upper_bound_def Let_def case_prod_beta)
    then show ?thesis using last great by (meson le_less_trans)
  qed
qed

text \<open>The compiled-in checkpoints load on every network: all hashes of the table parse, no two entries
  conflict, and the highest one lies above the height below which proofs of work are assumed valid.\<close>

theorem default_checkpoints_load:
  "(\<exists>cp. init_default_checkpoints new_checkpoints MAINNET = Some (cp, True) \<and> get_max_height cp = 4400000
      \<and> get_config_ASSUME_VALID_HEIGHT MAINNET = Some 4320000 \<and> map fst (m_points cp) = map fst mainnet_checkpoints)
    \<and> init_default_checkpoints new_checkpoints TESTNET = Some (new_checkpoints, True)
    \<and> init_default_checkpoints new_checkpoints STAGENET = Some (new_checkpoints, True)
    \<and> init_default_checkpoints new_checkpoints FAKECHAIN = Some (new_checkpoints, True)
    \<and> init_default_checkpoints new_checkpoints UNDEFINED = None"
  using init_default_mainnet
  by (auto simp: init_default_checkpoints_def get_config_ASSUME_VALID_HEIGHT_def)



text \<open>C13: a quick sync file that was compared with the checkpoints cannot get a block past them: whatever
  block quick sync accepts, the checkpoints accept too.\<close>

theorem quicksync_respects_checkpoints:
  assumes "check_against_checkpoints qs cp" "map_wf (m_points cp)" "fst (quicksync_check_block qs height h)"
  shows "fst (check_block cp height h)"
proof (cases "map_find (m_points cp) height")
  case (Some h')
  then have "(height, h') \<in> set (m_points cp)" using std_map.entries_find [OF assms(2)] by blast
  with assms(1) have "case map_find (m_data qs) height of None \<Rightarrow> True | Some h'' \<Rightarrow> h'' = h'"
    by (fastforce simp: check_against_checkpoints_def list_all_iff split: option.splits)
  with assms(3) Some show ?thesis
    by (auto simp: quicksync_check_block_def check_block_def split: option.splits if_splits)
qed (simp add: check_block_def)

theorem quicksync_respects_checkpoints_witness:
  "\<exists>qs cp. m_points cp \<noteq> [] \<and> fst (quicksync_check_block qs 7 (replicate 32 0)) \<and> fst (check_block cp 7 (replicate 32 0))"
proof -
  let ?qs = "\<lparr>m_data = [(7, replicate 32 0)], m_is_loaded = True, m_min = 7, m_max = 8\<rparr>"
  let ?cp = "\<lparr>m_points = [(7, replicate 32 0)]\<rparr>"
  have hyps: "check_against_checkpoints ?qs ?cp" "map_wf (m_points ?cp)" "fst (quicksync_check_block ?qs 7 (replicate 32 0))"
    by (simp_all add: check_against_checkpoints_def map_find_def map_wf_def quicksync_check_block_def)
  from quicksync_respects_checkpoints [OF hyps] hyps(3) show ?thesis
    by (intro exI [of _ ?qs] exI [of _ ?cp]) simp
qed

end
