(* ===== verification/Block_Queue.thy ===== *)
theory Block_Queue
  imports Pruning
begin

text \<open>
  The queue of block spans requested from and delivered by peers,
  \<open>src/cryptonote_protocol/block_queue.h\<close> and \<open>block_queue.cpp\<close>. \<open>std::set<span>\<close>, ordered by the first
  height, is an ascending list; the two hash sets are sets. Rates are single precision numbers that
  are only stored (\<open>get_speed\<close> and \<open>get_download_rate\<close>, which compute with them, are left out); they are
  kept as their bit patterns. Times are numbers of ticks, or \<open>None\<close> for \<open>not_a_date_time\<close>. \<open>None\<close> is an exception.
\<close>

section \<open>Definitions\<close>

type_synonym uuid = bytes
type_synonym float_bits = u32
type_synonym ptime = "int option"

record tx_blob_entry =
  tx_blob :: bytes
  prunable_hash :: hash

record block_complete_entry =
  bce_pruned :: bool
  bce_block :: bytes
  bce_block_weight :: u64
  bce_txs :: "tx_blob_entry list"

record span =
  start_block_height :: u64
  hashes :: "hash list"
  blocks :: "block_complete_entry list"
  connection_id :: uuid
  nblocks :: u64
  rate :: float_bits
  span_size :: u64
  time :: ptime

definition filled_span :: "u64 \<Rightarrow> block_complete_entry list \<Rightarrow> uuid \<Rightarrow> float_bits \<Rightarrow> u64 \<Rightarrow> span" where
  "filled_span height bcel conn r sz =
    \<lparr>start_block_height = height, hashes = [], blocks = bcel, connection_id = conn,
     nblocks = of_nat (length bcel), rate = r, span_size = sz, time = None\<rparr>"

definition scheduled_span :: "u64 \<Rightarrow> u64 \<Rightarrow> uuid \<Rightarrow> ptime \<Rightarrow> span" where
  "scheduled_span height n conn t =
    \<lparr>start_block_height = height, hashes = [], blocks = [], connection_id = conn,
     nblocks = n, rate = 0, span_size = 0, time = t\<rparr>"

record block_queue =
  spans :: "span list"
  requested_hashes :: "hash set"
  have_blocks :: "hash set"

text \<open>\<open>blocks.insert(s)\<close>: a span with the same first height stays.\<close>

fun insert_span :: "span \<Rightarrow> span list \<Rightarrow> span list" where
  "insert_span s [] = [s]"
| "insert_span s (x # xs) =
    (if start_block_height s < start_block_height x then s # x # xs
     else if start_block_height x < start_block_height s then x # insert_span s xs
     else x # xs)"

definition erase_block :: "block_queue \<Rightarrow> span \<Rightarrow> block_queue" where
  "erase_block q j =
    q\<lparr>spans := filter (\<lambda>s. start_block_height s \<noteq> start_block_height j) (spans q),
      requested_hashes := requested_hashes q - set (hashes j),
      have_blocks := have_blocks q - set (hashes j)\<rparr>"

definition remove_span :: "block_queue \<Rightarrow> u64 \<Rightarrow> block_queue \<times> hash list option" where
  "remove_span q height =
    (case find (\<lambda>i. start_block_height i = height) (spans q) of
       Some i \<Rightarrow> (erase_block q i, Some (hashes i))
     | None \<Rightarrow> (q, None))"

definition set_span_hashes :: "block_queue \<Rightarrow> u64 \<Rightarrow> uuid \<Rightarrow> hash list \<Rightarrow> block_queue" where
  "set_span_hashes q start_height conn hs =
    (case find (\<lambda>i. start_block_height i = start_height \<and> connection_id i = conn) (spans q) of
       None \<Rightarrow> q
     | Some i \<Rightarrow>
         let q = erase_block q i; s = i\<lparr>hashes := hs\<rparr>
         in q\<lparr>requested_hashes := requested_hashes q \<union> set hs, spans := insert_span s (spans q)\<rparr>)"

definition add_blocks_filled :: "block_queue \<Rightarrow> u64 \<Rightarrow> block_complete_entry list \<Rightarrow> uuid \<Rightarrow> float_bits \<Rightarrow> u64 \<Rightarrow> block_queue" where
  "add_blocks_filled q height bcel conn r sz =
    (let (q, hs) = remove_span q height;
         q = q\<lparr>spans := insert_span (filled_span height bcel conn r sz) (spans q)\<rparr>
     in case hs of
          None \<Rightarrow> q
        | Some hs \<Rightarrow>
            set_span_hashes (q\<lparr>requested_hashes := requested_hashes q \<union> set hs,
              have_blocks := have_blocks q \<union> set hs\<rparr>) height conn hs)"

definition add_blocks_scheduled :: "block_queue \<Rightarrow> u64 \<Rightarrow> u64 \<Rightarrow> uuid \<Rightarrow> ptime \<Rightarrow> block_queue option" where
  "add_blocks_scheduled q height n conn t =
    (if \<not> n > 0 then None
     else Some (q\<lparr>spans := insert_span (scheduled_span height n conn t) (spans q)\<rparr>))"

text \<open>The loops that erase the spans with some property.\<close>

definition erase_blocks_if :: "(span \<Rightarrow> bool) \<Rightarrow> block_queue \<Rightarrow> block_queue" where
  "erase_blocks_if P q = fold (\<lambda>j q. if P j then erase_block q j else q) (spans q) q"

definition flush_spans :: "block_queue \<Rightarrow> uuid \<Rightarrow> bool \<Rightarrow> block_queue" where
  "flush_spans q conn all = erase_blocks_if (\<lambda>j. connection_id j = conn \<and> (all \<or> length (blocks j) = 0)) q"

definition flush_stale_spans :: "block_queue \<Rightarrow> uuid set \<Rightarrow> block_queue" where
  "flush_stale_spans q live_connections =
    erase_blocks_if (\<lambda>j. blocks j = [] \<and> connection_id j \<notin> live_connections) q"

definition remove_spans :: "block_queue \<Rightarrow> uuid \<Rightarrow> u64 \<Rightarrow> block_queue" where
  "remove_spans q conn height =
    erase_blocks_if (\<lambda>j. connection_id j = conn \<and> start_block_height j \<le> height) q"

definition get_max_block_height :: "block_queue \<Rightarrow> u64" where
  "get_max_block_height q =
    fold (\<lambda>s height. let h = start_block_height s + nblocks s - 1 in if h > height then h else height) (spans q) 0"

fun next_needed_loop :: "u64 \<Rightarrow> span list \<Rightarrow> u64 \<Rightarrow> bool \<Rightarrow> u64" where
  "next_needed_loop blockchain_height [] last_needed_height first = last_needed_height"
| "next_needed_loop blockchain_height (s # ss) last_needed_height first =
    (if start_block_height s + nblocks s - 1 < blockchain_height
     then next_needed_loop blockchain_height ss last_needed_height first
     else if start_block_height s \<noteq> last_needed_height \<or> first \<and> blocks s = [] then last_needed_height
     else next_needed_loop blockchain_height ss (start_block_height s + nblocks s) False)"

definition get_next_needed_height :: "block_queue \<Rightarrow> u64 \<Rightarrow> u64" where
  "get_next_needed_height q blockchain_height =
    (if spans q = [] then blockchain_height
     else next_needed_loop blockchain_height (spans q) blockchain_height True)"

fun overview_loop :: "u64 \<Rightarrow> span list \<Rightarrow> u64 \<Rightarrow> string" where
  "overview_loop blockchain_height [] expected = ''''"
| "overview_loop blockchain_height (i # is) expected =
    (if expected > start_block_height i then ''<'' @ overview_loop blockchain_height is expected
     else (if expected < start_block_height i
           then replicate (unat (max 1 ((start_block_height i - expected) div (if nblocks i \<noteq> 0 then nblocks i else 1)))) (CHR ''_'')
           else '''')
       @ (if blocks i = [] then ''.'' else if start_block_height i = blockchain_height then ''m'' else ''o'')
       @ overview_loop blockchain_height is (start_block_height i + nblocks i))"

definition get_overview :: "block_queue \<Rightarrow> u64 \<Rightarrow> string" where
  "get_overview q blockchain_height =
    (if spans q = [] then ''[]''
     else ''['' @ overview_loop blockchain_height (spans q) blockchain_height @ '']'')"

definition requested :: "block_queue \<Rightarrow> hash \<Rightarrow> bool" where
  "requested q h = (h \<in> requested_hashes q)"

definition have_hash :: "block_queue \<Rightarrow> hash \<Rightarrow> bool" where
  "have_hash q h = (h \<in> have_blocks q)"

text \<open>Skipping the hashes that are requested already, from \<open>span_start_height\<close> on.\<close>

fun skip_requested :: "block_queue \<Rightarrow> (hash \<times> u64) list \<Rightarrow> u64 \<Rightarrow> (hash \<times> u64) list \<times> u64" where
  "skip_requested q [] span_start_height = ([], span_start_height)"
| "skip_requested q (i # is) span_start_height =
    (if requested q (fst i) then skip_requested q is (span_start_height + 1) else (i # is, span_start_height))"

text \<open>The loop that collects the hashes of the span.\<close>

record span_request =
  sr_max_blocks :: u64
  sr_sync_pruned :: bool
  sr_local_seed :: u32
  sr_seed :: u32
  sr_blockchain_height :: u64

fun collect_span :: "span_request \<Rightarrow> bool \<Rightarrow> u64 \<Rightarrow> (hash \<times> u64) list \<Rightarrow> u64 \<Rightarrow> hash list" where
  "collect_span r first_is_pruned start [] span_length = []"
| "collect_span r first_is_pruned start (i # is) span_length =
    (if \<not> (span_length < sr_max_blocks r
          \<and> (sr_sync_pruned r \<or> has_unpruned_block (start + span_length) (sr_blockchain_height r) (sr_seed r)))
     then []
     else if sr_sync_pruned r
          \<and> first_is_pruned = has_unpruned_block (start + span_length) (sr_blockchain_height r) (sr_local_seed r)
     then []
     else fst i # collect_span r first_is_pruned start is (span_length + 1))"

definition reserve_span :: "block_queue \<Rightarrow> u64 \<Rightarrow> u64 \<Rightarrow> uuid \<Rightarrow> span_request \<Rightarrow> (hash \<times> u64) list \<Rightarrow> ptime
    \<Rightarrow> (block_queue \<times> u64 \<times> u64) option" where
  "reserve_span q first_block_height last_block_height conn r block_hashes t =
    (if last_block_height < first_block_height \<or> sr_max_blocks r = 0 then Some (q, 0, 0)
     else if of_nat (length block_hashes) > last_block_height then Some (q, 0, 0)
     else
       let block_hashes_start_height = last_block_height - of_nat (length block_hashes) + 1;
           (_, span_start_height) = skip_requested q block_hashes block_hashes_start_height;
           next_unpruned_height = (ucast (ucast (get_next_unpruned_block_height span_start_height
             (sr_blockchain_height r) (sr_seed r)) :: u32) :: u64);
           span_start_height =
             (if \<not> sr_sync_pruned r \<and> next_unpruned_height > span_start_height
                 \<and> next_unpruned_height < span_start_height + of_nat CRYPTONOTE_PRUNING_STRIPE_SIZE
              then next_unpruned_height else span_start_height)
       in if span_start_height \<ge> of_nat (length block_hashes) + block_hashes_start_height then Some (q, 0, 0)
          else
            let (i, span_start_height) =
                  skip_requested q (drop (unat (span_start_height - block_hashes_start_height)) block_hashes) span_start_height;
                first_is_pruned = (sr_sync_pruned r
                  \<and> \<not> has_unpruned_block (span_start_height + 0) (sr_blockchain_height r) (sr_local_seed r));
                hs = collect_span r first_is_pruned span_start_height i 0;
                span_length = of_nat (length hs)
            in if span_length = 0 then Some (q, 0, 0)
               else case add_blocks_scheduled q span_start_height span_length conn t of
                      None \<Rightarrow> None
                    | Some q \<Rightarrow> Some (set_span_hashes q span_start_height conn hs, span_start_height, span_length))"

text \<open>In the queries \<open>None\<close> stands for the pair of zeros or the \<open>false\<close> of a call that leaves its output
  arguments alone.\<close>

definition get_next_span_if_scheduled :: "block_queue \<Rightarrow> (u64 \<times> u64 \<times> hash list \<times> uuid \<times> ptime) option" where
  "get_next_span_if_scheduled q =
    (case spans q of
       [] \<Rightarrow> None
     | i # _ \<Rightarrow> if blocks i \<noteq> [] then None
                else Some (start_block_height i, nblocks i, hashes i, connection_id i, time i))"

definition reset_next_span_time :: "block_queue \<Rightarrow> ptime \<Rightarrow> block_queue option" where
  "reset_next_span_time q t =
    (case spans q of
       [] \<Rightarrow> None
     | i # is \<Rightarrow> if blocks i \<noteq> [] then None else Some (q\<lparr>spans := i\<lparr>time := t\<rparr> # is\<rparr>))"

definition get_next_span :: "block_queue \<Rightarrow> bool \<Rightarrow> (u64 \<times> block_complete_entry list \<times> uuid) option" where
  "get_next_span q filled =
    map_option (\<lambda>i. (start_block_height i, blocks i, connection_id i))
      (find (\<lambda>i. \<not> filled \<or> blocks i \<noteq> []) (spans q))"

definition has_next_span_of :: "block_queue \<Rightarrow> uuid \<Rightarrow> (bool \<times> ptime) option" where
  "has_next_span_of q conn =
    (case spans q of
       [] \<Rightarrow> None
     | i # _ \<Rightarrow> if connection_id i \<noteq> conn then None else Some (blocks i \<noteq> [], time i))"

definition has_next_span_at :: "block_queue \<Rightarrow> u64 \<Rightarrow> (bool \<times> ptime \<times> uuid) option" where
  "has_next_span_at q height =
    (case spans q of
       [] \<Rightarrow> None
     | i # _ \<Rightarrow> if start_block_height i > height then None else Some (blocks i \<noteq> [], time i, connection_id i))"

definition get_data_size :: "block_queue \<Rightarrow> u64" where
  "get_data_size q = fold (\<lambda>s sz. sz + span_size s) (spans q) 0"

definition get_num_filled_spans_prefix :: "block_queue \<Rightarrow> nat" where
  "get_num_filled_spans_prefix q = length (takeWhile (\<lambda>i. blocks i \<noteq> []) (spans q))"

definition get_num_filled_spans :: "block_queue \<Rightarrow> nat" where
  "get_num_filled_spans q = length (filter (\<lambda>i. blocks i \<noteq> []) (spans q))"

text \<open>\<open>hashes.back()\<close> of an empty vector is \<open>None\<close>.\<close>

fun last_known_loop :: "uuid \<Rightarrow> span list \<Rightarrow> hash \<Rightarrow> u64 \<Rightarrow> hash option" where
  "last_known_loop conn [] h highest_height = Some h"
| "last_known_loop conn (s # ss) h highest_height =
    (if connection_id s \<noteq> conn then last_known_loop conn ss h highest_height
     else let height = start_block_height s + nblocks s - 1
          in if height > highest_height \<and> of_nat (length (hashes s)) = nblocks s
             then (if hashes s = [] then None else last_known_loop conn ss (last (hashes s)) height)
             else last_known_loop conn ss h highest_height)"

definition get_last_known_hash :: "block_queue \<Rightarrow> uuid \<Rightarrow> hash option" where
  "get_last_known_hash q conn = last_known_loop conn (spans q) (replicate 32 0) 0"

definition has_spans :: "block_queue \<Rightarrow> uuid \<Rightarrow> bool" where
  "has_spans q conn = list_ex (\<lambda>s. connection_id s = conn) (spans q)"

definition foreach_span :: "block_queue \<Rightarrow> (span \<Rightarrow> bool) \<Rightarrow> bool" where
  "foreach_span q f = list_all f (spans q)"

section \<open>The operations that change the queue\<close>

inductive bq_step :: "block_queue \<Rightarrow> block_queue \<Rightarrow> bool" where
  add_filled: "bq_step q (add_blocks_filled q height bcel conn r sz)"
| add_scheduled: "add_blocks_scheduled q height n conn t = Some q' \<Longrightarrow> bq_step q q'"
| flush: "bq_step q (flush_spans q conn all)"
| flush_stale: "bq_step q (flush_stale_spans q live_connections)"
| remove: "bq_step q (fst (remove_span q height))"
| remove_many: "bq_step q (remove_spans q conn height)"
| reserve: "reserve_span q first_block_height last_block_height conn r block_hashes t = Some (q', res) \<Longrightarrow> bq_step q q'"
| reset_time: "reset_next_span_time q t = Some q' \<Longrightarrow> bq_step q q'"
| set_hashes: "bq_step q (set_span_hashes q height conn hs)"

definition empty_queue :: block_queue where
  "empty_queue = \<lparr>spans = [], requested_hashes = {}, have_blocks = {}\<rparr>"

definition spans_sorted :: "span list \<Rightarrow> bool" where
  "spans_sorted xs = sorted_wrt (\<lambda>x y. start_block_height x < start_block_height y) xs"

definition span_hashes :: "span list \<Rightarrow> hash set" where
  "span_hashes xs = (\<Union>s\<in>set xs. set (hashes s))"

definition bq_inv :: "block_queue \<Rightarrow> bool" where
  "bq_inv q = (spans_sorted (spans q) \<and> have_blocks q \<subseteq> requested_hashes q
    \<and> requested_hashes q \<subseteq> span_hashes (spans q))"

section \<open>The set of spans\<close>

lemma set_insert_span:
  assumes "start_block_height s \<notin> start_block_height ` set xs"
  shows "set (insert_span s xs) = insert s (set xs)"
  using assms by (induction xs) (auto simp: not_less order.order_iff_strict)

lemma insert_span_starts: "start_block_height ` set (insert_span s xs) = insert (start_block_height s) (start_block_height ` set xs)"
  by (induction xs) auto

lemma insert_span_sorted: "spans_sorted xs \<Longrightarrow> spans_sorted (insert_span s xs)"
proof (induction xs)
  case (Cons x xs)
  have "start_block_height x < start_block_height y"
    if "start_block_height x < start_block_height s" "y \<in> set (insert_span s xs)" for y
  proof -
    have "start_block_height y \<in> insert (start_block_height s) (start_block_height ` set xs)"
      using that(2) insert_span_starts by blast
    then show ?thesis using that(1) Cons.prems by (auto simp: spans_sorted_def)
  qed
  then show ?case using Cons by (auto simp: spans_sorted_def)
qed (simp add: spans_sorted_def)

lemma insert_span_keeps: "set xs \<subseteq> set (insert_span s xs)"
  by (induction xs) auto

lemma span_hashes_mono: "set xs \<subseteq> set ys \<Longrightarrow> span_hashes xs \<subseteq> span_hashes ys"
  by (auto simp: span_hashes_def)

lemma span_hashes_insert:
  "start_block_height s \<notin> start_block_height ` set xs \<Longrightarrow>
    span_hashes (insert_span s xs) = set (hashes s) \<union> span_hashes xs"
  by (simp add: span_hashes_def set_insert_span)

lemma spans_sorted_filter: "spans_sorted xs \<Longrightarrow> spans_sorted (filter P xs)"
  by (simp add: spans_sorted_def sorted_wrt_filter)

lemma sorted_start_unique:
  assumes "spans_sorted xs" "x \<in> set xs" "y \<in> set xs" "start_block_height x = start_block_height y"
  shows "x = y"
  using assms by (induction xs) (auto simp: spans_sorted_def)

section \<open>The invariant\<close>

lemma erase_block_spans:
  assumes "spans_sorted (spans q)" "j \<in> set (spans q)"
  shows "spans (erase_block q j) = filter (\<lambda>s. s \<noteq> j) (spans q)"
  using assms sorted_start_unique unfolding erase_block_def by (auto intro!: filter_cong)

lemma erase_block_inv:
  assumes "bq_inv q" "j \<in> set (spans q)"
  shows "bq_inv (erase_block q j)"
proof -
  have "requested_hashes q - set (hashes j) \<subseteq> span_hashes (filter (\<lambda>s. s \<noteq> j) (spans q))"
    using assms by (auto simp: bq_inv_def span_hashes_def)
  then have "requested_hashes (erase_block q j) \<subseteq> span_hashes (spans (erase_block q j))"
    using assms by (simp add: erase_block_spans bq_inv_def) (simp add: erase_block_def)
  then show ?thesis using assms(1) by (auto simp: bq_inv_def erase_block_def spans_sorted_filter)
qed

lemma erase_block_start: "start_block_height j \<notin> start_block_height ` set (spans (erase_block q j))"
  by (auto simp: erase_block_def)

lemma insert_span_inv: "bq_inv q \<Longrightarrow> bq_inv (q\<lparr>spans := insert_span s (spans q)\<rparr>)"
  using span_hashes_mono [OF insert_span_keeps] by (fastforce simp: bq_inv_def insert_span_sorted)

lemma remove_span_inv: "bq_inv q \<Longrightarrow> bq_inv (fst (remove_span q h))"
  by (auto simp: remove_span_def erase_block_inv find_Some_iff split: option.split)

text \<open>Giving a span its hashes keeps the invariant, also when those hashes were entered as requested
  and held before the span has them.\<close>

lemma set_span_hashes_inv:
  assumes "bq_inv q"
  shows "bq_inv (set_span_hashes q h conn hs)"
proof (cases "find (\<lambda>i. start_block_height i = h \<and> connection_id i = conn) (spans q)")
  case (Some i)
  let ?e = "erase_block q i"
  have "i \<in> set (spans q)" using Some by (auto simp: find_Some_iff)
  then have "bq_inv ?e" by (rule erase_block_inv [OF assms])
  moreover have "start_block_height (i\<lparr>hashes := hs\<rparr>) \<notin> start_block_height ` set (spans ?e)"
    using erase_block_start by simp
  ultimately show ?thesis
    by (auto simp: set_span_hashes_def Some Let_def bq_inv_def insert_span_sorted span_hashes_insert)
qed (simp add: set_span_hashes_def assms)

lemma erase_blocks_if_inv:
  assumes "bq_inv q" "set js \<subseteq> set (spans q)" "distinct js"
  shows "bq_inv (fold (\<lambda>j q. if P j then erase_block q j else q) js q)"
  using assms
proof (induction js arbitrary: q)
  case (Cons j js)
  have "set js \<subseteq> set (spans (erase_block q j))"
    using Cons.prems by (auto simp: erase_block_spans bq_inv_def)
  then show ?case using Cons by (auto simp: erase_block_inv)
qed simp

lemma spans_sorted_distinct: "spans_sorted xs \<Longrightarrow> distinct xs"
  by (induction xs) (auto simp: spans_sorted_def)

lemma erase_all_inv: "bq_inv q \<Longrightarrow> bq_inv (erase_blocks_if P q)"
  unfolding erase_blocks_if_def
  by (rule erase_blocks_if_inv) (auto simp: bq_inv_def spans_sorted_distinct)

lemma erase_fold_spans:
  assumes "bq_inv q" "spans q = pre @ js"
  shows "spans (fold (\<lambda>j q. if P j then erase_block q j else q) js q) = pre @ filter (\<lambda>j. \<not> P j) js"
  using assms
proof (induction js arbitrary: q pre)
  case (Cons j js)
  have d: "distinct (pre @ j # js)" using spans_sorted_distinct [of "spans q"] Cons.prems unfolding bq_inv_def Cons.prems(2) by simp
  show ?case
  proof (cases "P j")
    case True
    have "spans (erase_block q j) = filter (\<lambda>s. s \<noteq> j) (spans q)"
      using Cons.prems by (intro erase_block_spans) (auto simp: bq_inv_def)
    also have "\<dots> = pre @ js" using d by (auto simp: Cons.prems(2) intro!: arg_cong2 [where f = append] filter_True)
    finally show ?thesis using True Cons.IH Cons.prems by (simp add: erase_block_inv)
  next
    case False
    then show ?thesis using Cons.IH [of q "pre @ [j]"] Cons.prems by simp
  qed
qed simp

lemma erase_blocks_if_spans: "bq_inv q \<Longrightarrow> spans (erase_blocks_if P q) = filter (\<lambda>j. \<not> P j) (spans q)"
  unfolding erase_blocks_if_def using erase_fold_spans [of q "[]"] by simp

lemma find_inserted:
  assumes "start_block_height s \<notin> start_block_height ` set xs"
  shows "find (\<lambda>i. start_block_height i = start_block_height s \<and> connection_id i = connection_id s) (insert_span s xs) = Some s"
  using assms by (induction xs) (auto simp: not_less order.order_iff_strict)

lemma add_blocks_filled_inv:
  assumes "bq_inv q"
  shows "bq_inv (add_blocks_filled q height bcel conn r sz)"
proof (cases "find (\<lambda>i. start_block_height i = height) (spans q)")
  case None
  then show ?thesis using insert_span_inv [OF assms] by (simp add: add_blocks_filled_def remove_span_def)
next
  case (Some i)
  let ?e = "erase_block q i" and ?s = "filled_span height bcel conn r sz"
  let ?q = "?e\<lparr>spans := insert_span ?s (spans ?e), requested_hashes := requested_hashes ?e \<union> set (hashes i),
     have_blocks := have_blocks ?e \<union> set (hashes i)\<rparr>"
  have i: "i \<in> set (spans q)" "start_block_height i = height" using Some by (auto simp: find_Some_iff)
  have inv: "bq_inv ?e" by (rule erase_block_inv [OF assms i(1)])
  have hs: "hashes ?s = []" by (simp add: filled_span_def)
  have new: "start_block_height ?s \<notin> start_block_height ` set (spans ?e)"
    using erase_block_start [of i q] by (simp add: filled_span_def i(2))
  have "find (\<lambda>i. start_block_height i = height \<and> connection_id i = conn) (insert_span ?s (spans ?e)) = Some ?s"
    using find_inserted [OF new] by (simp add: filled_span_def)
  moreover have "start_block_height (?s\<lparr>hashes := hashes i\<rparr>) \<notin> start_block_height ` set (spans (erase_block ?q ?s))"
    using erase_block_start [of ?s ?q] by simp
  moreover have "requested_hashes ?e \<subseteq> span_hashes (spans (erase_block ?q ?s))"
  proof -
    have "set (spans ?e) \<subseteq> set (spans (erase_block ?q ?s))"
      using new insert_span_keeps [of "spans ?e" ?s]
      by (auto simp: erase_block_def [of ?q]) (metis imageI)
    then show ?thesis using span_hashes_mono inv unfolding bq_inv_def by blast
  qed
  moreover have "spans_sorted (spans (erase_block ?q ?s))"
    using inv by (simp add: erase_block_def [of ?q] bq_inv_def insert_span_sorted spans_sorted_filter)
  moreover have "requested_hashes (erase_block ?q ?s) = requested_hashes ?e \<union> set (hashes i)"
    "have_blocks (erase_block ?q ?s) = have_blocks ?e \<union> set (hashes i)"
    by (simp_all add: erase_block_def [of ?q] hs)
  moreover have "have_blocks ?e \<subseteq> requested_hashes ?e" using inv by (simp add: bq_inv_def)
  ultimately show ?thesis
    by (simp add: add_blocks_filled_def remove_span_def Some set_span_hashes_def Let_def bq_inv_def
        insert_span_sorted span_hashes_insert) blast
qed

text \<open>What \<open>reserve_span\<close> returns is either nothing, or a span it schedules.\<close>

lemma reserve_span_queue:
  assumes "reserve_span q f l conn r bhs t = Some (q', start, n)"
  shows "q' = q \<or> (\<exists>hs. q' = set_span_hashes (q\<lparr>spans := insert_span (scheduled_span start n conn t) (spans q)\<rparr>) start conn hs)"
  using assms unfolding reserve_span_def add_blocks_scheduled_def
  by (auto simp: Let_def split: if_splits prod.splits)

lemma bq_step_inv: "bq_step q q' \<Longrightarrow> bq_inv q \<Longrightarrow> bq_inv q'"
proof (induction rule: bq_step.induct)
  case (reserve q f l conn r bhs t q' res)
  then show ?case using reserve_span_queue [of q f l conn r bhs t q' "fst res" "snd res"]
    by (auto simp: set_span_hashes_inv insert_span_inv)
next
  case (reset_time q t q')
  then obtain i js where "spans q = i # js" "q' = q\<lparr>spans := i\<lparr>time := t\<rparr> # js\<rparr>"
    by (auto simp: reset_next_span_time_def split: list.splits if_splits)
  then show ?case using reset_time.prems by (auto simp: bq_inv_def spans_sorted_def span_hashes_def)
qed (auto simp: add_blocks_filled_inv add_blocks_scheduled_def insert_span_inv flush_spans_def flush_stale_spans_def
    remove_spans_def erase_all_inv remove_span_inv set_span_hashes_inv split: if_splits)

text \<open>C5: in every queue that any sequence of the operations builds from the empty queue, the spans are strictly
  ordered by their first height, every hash held is a requested one, and every requested hash belongs to a
  span of the queue.\<close>

theorem block_queue_invariant:
  assumes "bq_step\<^sup>*\<^sup>* empty_queue q"
  shows "spans_sorted (spans q) \<and> have_blocks q \<subseteq> requested_hashes q \<and> requested_hashes q \<subseteq> span_hashes (spans q)"
proof -
  have "bq_inv q"
    using assms by (induction rule: rtranclp_induct) (auto simp: bq_step_inv, simp add: bq_inv_def empty_queue_def spans_sorted_def)
  then show ?thesis by (simp add: bq_inv_def)
qed

lemma block_queue_invariant_witness:
  "have_blocks (add_blocks_filled empty_queue 5 [] [1] 0 0) \<subseteq> requested_hashes (add_blocks_filled empty_queue 5 [] [1] 0 0)"
  using block_queue_invariant [OF r_into_rtranclp [of bq_step, OF bq_step.add_filled [of empty_queue 5 "[]" "[1]" 0 0]]] by simp

section \<open>Reserving a span\<close>

lemma skip_requested_drop:
  "\<exists>k\<le>length xs. skip_requested q xs h = (drop k xs, h + of_nat k) \<and> (k < length xs \<longrightarrow> \<not> requested q (fst (xs ! k)))"
proof (induction xs arbitrary: h)
  case (Cons x xs)
  show ?case
  proof (cases "requested q (fst x)")
    case True
    obtain k where "k \<le> length xs" "skip_requested q xs (h + 1) = (drop k xs, h + 1 + of_nat k)"
      "k < length xs \<longrightarrow> \<not> requested q (fst (xs ! k))"
      using Cons.IH [of "h + 1"] by blast
    then show ?thesis using True by (intro exI [of _ "Suc k"]) (simp add: add.assoc)
  next
    case False
    then show ?thesis by (intro exI [of _ 0]) simp
  qed
qed simp

lemma collect_span_prefix:
  "collect_span r fp start xs n = map fst (take (length (collect_span r fp start xs n)) xs)"
  by (induction xs arbitrary: n) auto

lemma collect_span_length: "length (collect_span r fp start xs n) \<le> length xs"
  by (induction xs arbitrary: n) (auto intro: le_SucI)

lemma collect_span_each:
  assumes "j < length (collect_span r fp start xs n)"
  shows "n + of_nat j < sr_max_blocks r
    \<and> (sr_sync_pruned r \<or> has_unpruned_block (start + (n + of_nat j)) (sr_blockchain_height r) (sr_seed r))
    \<and> (sr_sync_pruned r \<longrightarrow> has_unpruned_block (start + (n + of_nat j)) (sr_blockchain_height r) (sr_local_seed r) = (\<not> fp))"
  using assms
proof (induction xs arbitrary: n j)
  case (Cons x xs)
  show ?case
  proof (cases j)
    case 0
    then show ?thesis using Cons.prems by (auto split: if_splits)
  next
    case (Suc i)
    then have "i < length (collect_span r fp start xs (n + 1))" using Cons.prems by (auto split: if_splits)
    then show ?thesis using Cons.IH [of i "n + 1"] by (simp add: Suc add.assoc)
  qed
qed simp

text \<open>A new span gets its hashes.\<close>

lemma schedule_new_span:
  fixes q start n conn t hs
  defines "s \<equiv> scheduled_span start n conn t"
  defines "q' \<equiv> set_span_hashes (q\<lparr>spans := insert_span s (spans q)\<rparr>) start conn hs"
  assumes new: "start \<notin> start_block_height ` set (spans q)"
  shows "set (spans q') = insert (s\<lparr>hashes := hs\<rparr>) (set (spans q))"
    and "requested_hashes q' = requested_hashes q \<union> set hs"
    and "have_blocks q' = have_blocks q"
proof -
  let ?q = "q\<lparr>spans := insert_span s (spans q)\<rparr>"
  have s: "start_block_height s = start" "connection_id s = conn" "hashes s = []"
    by (simp_all add: s_def scheduled_span_def)
  have new': "start_block_height s \<notin> start_block_height ` set (spans q)" using new s by simp
  have "find (\<lambda>i. start_block_height i = start \<and> connection_id i = conn) (insert_span s (spans q)) = Some s"
    using find_inserted [OF new'] s by simp
  then have q': "q' = (erase_block ?q s)\<lparr>requested_hashes := requested_hashes (erase_block ?q s) \<union> set hs,
      spans := insert_span (s\<lparr>hashes := hs\<rparr>) (spans (erase_block ?q s))\<rparr>"
    by (simp add: q'_def set_span_hashes_def Let_def)
  have "set (spans (erase_block ?q s)) = set (spans q)"
    using new' by (auto simp: erase_block_def set_insert_span) (metis imageI)
  moreover have "start_block_height (s\<lparr>hashes := hs\<rparr>) \<notin> start_block_height ` set (spans (erase_block ?q s))"
    using erase_block_start by simp
  ultimately show "set (spans q') = insert (s\<lparr>hashes := hs\<rparr>) (set (spans q))"
    using set_insert_span by (simp add: q')
  show "requested_hashes q' = requested_hashes q \<union> set hs" "have_blocks q' = have_blocks q"
    by (simp_all add: q' erase_block_def s)
qed

text \<open>Where a returned span lies in the list of hashes.\<close>

lemma reserve_span_cases:
  assumes res: "reserve_span q f l conn r bhs t = Some (q', start, n)" and n: "n \<noteq> 0"
  defines "b \<equiv> l - of_nat (length bhs) + 1"
  obtains s1 i fp where "of_nat (length bhs) \<le> l" "snd (skip_requested q bhs b) \<le> s1" "s1 < of_nat (length bhs) + b"
    "skip_requested q (drop (unat (s1 - b)) bhs) s1 = (i, start)" "n = of_nat (length (collect_span r fp start i 0))"
    "q' = set_span_hashes (q\<lparr>spans := insert_span (scheduled_span start n conn t) (spans q)\<rparr>) start conn (collect_span r fp start i 0)"
proof -
  define s0 where "s0 = snd (skip_requested q bhs b)"
  define nu where "nu = (ucast (ucast (get_next_unpruned_block_height s0 (sr_blockchain_height r) (sr_seed r)) :: u32) :: u64)"
  define s1 where "s1 = (if \<not> sr_sync_pruned r \<and> nu > s0 \<and> nu < s0 + of_nat CRYPTONOTE_PRUNING_STRIPE_SIZE then nu else s0)"
  obtain i st where i: "skip_requested q (drop (unat (s1 - b)) bhs) s1 = (i, st)" by fastforce
  define fp where "fp = (sr_sync_pruned r \<and> \<not> has_unpruned_block (st + 0) (sr_blockchain_height r) (sr_local_seed r))"
  note unfolded = res [unfolded reserve_span_def Let_def b_def [symmetric] case_prod_beta, folded s0_def, folded nu_def,
      folded s1_def, unfolded i fst_conv snd_conv, folded fp_def]
  have "s0 \<le> s1" by (auto simp: s1_def)
  moreover have "of_nat (length bhs) \<le> l" "s1 < of_nat (length bhs) + b" "st = start"
    "n = of_nat (length (collect_span r fp st i 0))"
    "q' = set_span_hashes (q\<lparr>spans := insert_span (scheduled_span st n conn t) (spans q)\<rparr>) st conn (collect_span r fp st i 0)"
    using unfolded n by (auto simp: add_blocks_scheduled_def split: if_splits)
  ultimately show thesis using i that unfolding s0_def by blast
qed

lemma reserve_span_slice:
  assumes res: "reserve_span q f l conn r bhs t = Some (q', start, n)" and n: "n \<noteq> 0"
    and l64: "unat l + 1 < 2 ^ 64" and len: "length bhs < 2 ^ 64"
  obtains k fp where "k < length bhs" "length bhs \<le> unat l" "unat start = unat l + 1 - length bhs + k"
    "\<not> requested q (fst (bhs ! k))" "unat n = length (collect_span r fp start (drop k bhs) 0)"
    "q' = set_span_hashes (q\<lparr>spans := insert_span (scheduled_span start n conn t) (spans q)\<rparr>) start conn
      (collect_span r fp start (drop k bhs) 0)"
proof -
  define b where "b = l - of_nat (length bhs) + 1"
  obtain s1 i fp where c: "of_nat (length bhs) \<le> l" "snd (skip_requested q bhs b) \<le> s1" "s1 < of_nat (length bhs) + b"
    "skip_requested q (drop (unat (s1 - b)) bhs) s1 = (i, start)" "n = of_nat (length (collect_span r fp start i 0))"
    "q' = set_span_hashes (q\<lparr>spans := insert_span (scheduled_span start n conn t) (spans q)\<rparr>) start conn (collect_span r fp start i 0)"
    using reserve_span_cases [OF res n, folded b_def] by metis
  have le: "length bhs \<le> unat l" using c(1) len by (simp add: word_le_nat_alt unat_of_nat_u64)
  have b: "unat b = unat l + 1 - length bhs"
    using le l64 c(1) len by (simp add: b_def unat_add_u64 unat_sub_u64 unat_of_nat_u64)
  have end_: "of_nat (length bhs) + b = l + 1" by (simp add: b_def)
  then have s1: "unat s1 \<le> unat l" using c(3) l64 by (simp add: word_less_nat_alt unat_add_u64)
  obtain k1 where k1: "k1 \<le> length bhs" "skip_requested q bhs b = (drop k1 bhs, b + of_nat k1)"
    using skip_requested_drop by blast
  have "unat (b + of_nat k1) = unat b + k1" using k1(1) b le l64 len by (simp add: unat_add_u64 unat_of_nat_u64)
  then have b_s1: "b \<le> s1" using c(2) by (simp add: k1(2) word_le_nat_alt)
  define d where "d = unat (s1 - b)"
  have d: "unat s1 = unat b + d" using b_s1 by (simp add: d_def unat_sub_u64 word_le_nat_alt)
  have dl: "d < length bhs" using d s1 b le by linarith
  obtain k2 where k2: "k2 \<le> length (drop d bhs)" "skip_requested q (drop d bhs) s1 = (drop k2 (drop d bhs), s1 + of_nat k2)"
    "k2 < length (drop d bhs) \<longrightarrow> \<not> requested q (fst (drop d bhs ! k2))"
    using skip_requested_drop by blast
  have i: "i = drop (d + k2) bhs" "start = s1 + of_nat k2" using c(4) k2(2) by (simp_all add: d_def add.commute)
  have k2': "d + k2 < length bhs"
  proof (rule ccontr)
    assume "\<not> d + k2 < length bhs"
    then have "i = []" by (simp add: i)
    then show False using c(5) n by simp
  qed
  show thesis
  proof (rule that [of "d + k2" fp])
    have "d + k2 < 2 ^ 64" using k2' len by simp
    then show "unat start = unat l + 1 - length bhs + (d + k2)"
      using k2' b d le l64 by (simp add: i(2) unat_add_u64 unat_of_nat_u64)
    show "unat n = length (collect_span r fp start (drop (d + k2) bhs) 0)"
      using collect_span_length [of r fp start "drop (d + k2) bhs" 0] len by (simp add: c(5) i(1) unat_of_nat_u64)
  qed (use k2' le k2 c(6) i in auto)
qed


lemma seed_0_unpruned: "has_unpruned_block h bh 0" "get_next_unpruned_block_height h bh 0 = h"
  by (simp_all add: has_unpruned_block_def get_next_unpruned_block_height_def get_pruning_stripe_of_seed_def)


section \<open>The next height needed\<close>

definition covers :: "span \<Rightarrow> u64 \<Rightarrow> bool" where
  "covers s h = (start_block_height s \<le> h \<and> unat h < unat (start_block_height s) + unat (nblocks s))"

lemma next_needed_loop_covered:
  assumes "\<forall>s\<in>set ss. unat (start_block_height s) + unat (nblocks s) < 2 ^ 64"
  shows "lst \<le> next_needed_loop bh ss lst first
    \<and> (\<forall>h. lst \<le> h \<and> h < next_needed_loop bh ss lst first \<longrightarrow> (\<exists>s\<in>set ss. covers s h))"
  using assms
proof (induction bh ss lst first rule: next_needed_loop.induct)
  case (2 bh s ss lst first)
  have add: "unat (start_block_height s + nblocks s) = unat (start_block_height s) + unat (nblocks s)"
    using 2(3) by (simp add: unat_add_u64)
  have "start_block_height s \<le> start_block_height s + nblocks s" by (simp add: word_le_nat_alt add)
  moreover have "covers s h" if "start_block_height s \<le> h" "h < start_block_height s + nblocks s" for h
    using that add by (simp add: covers_def word_less_nat_alt)
  moreover have "h < start_block_height s + nblocks s \<or> start_block_height s + nblocks s \<le> h" for h by auto
  ultimately show ?case using 2 by (auto simp del: not_less)
qed auto

lemma next_needed_loop_first:
  "next_needed_loop bh ss lst True \<noteq> lst \<Longrightarrow> \<exists>s\<in>set ss. start_block_height s = lst \<and> blocks s \<noteq> []"
  by (induction bh ss lst True rule: next_needed_loop.induct) (auto split: if_splits)

text \<open>C24: \<open>get_next_needed_height\<close> returns a height at or above the chain's; when it is above, a span that is
  filled starts at the chain's height, and every height in between belongs to a span of the queue.\<close>

theorem get_next_needed_height_correct:
  assumes "\<forall>s\<in>set (spans q). unat (start_block_height s) + unat (nblocks s) < 2 ^ 64"
  shows "bh \<le> get_next_needed_height q bh
    \<and> (get_next_needed_height q bh \<noteq> bh \<longrightarrow> (\<exists>s\<in>set (spans q). start_block_height s = bh \<and> blocks s \<noteq> []))
    \<and> (\<forall>h. bh \<le> h \<and> h < get_next_needed_height q bh \<longrightarrow> (\<exists>s\<in>set (spans q). covers s h))"
  using next_needed_loop_covered [OF assms, of bh bh True] next_needed_loop_first [of bh "spans q" bh]
  by (auto simp: get_next_needed_height_def)

lemma get_next_needed_height_correct_witness:
  "5 \<le> get_next_needed_height (add_blocks_filled empty_queue 5
     [\<lparr>bce_pruned = False, bce_block = [], bce_block_weight = 0, bce_txs = []\<rparr>] [1] 0 0) 5"
proof -
  let ?q = "add_blocks_filled empty_queue 5 [\<lparr>bce_pruned = False, bce_block = [], bce_block_weight = 0, bce_txs = []\<rparr>] [1] 0 0"
  have "\<forall>s\<in>set (spans ?q). unat (start_block_height s) + unat (nblocks s) < 2 ^ 64"
    by (simp add: add_blocks_filled_def remove_span_def empty_queue_def filled_span_def)
  from get_next_needed_height_correct [OF this, of 5] show ?thesis by simp
qed

end
