(* ===== verification/Portable_Storage.thy ===== *)
theory Portable_Storage
  imports Std_Map Codec "HOL-Library.List_Lexorder" "HOL-Library.Monad_Syntax"
begin

text \<open>
  The binary storage format of the peer protocol, \<open>contrib/epee/include/storages\<close>:
  \<open>portable_storage_base.h\<close> (the tree), \<open>portable_storage_to_bin.h\<close> (the writer),
  \<open>portable_storage_from_bin.h\<close> (the reader with its limits) and the parts of \<open>portable_storage.h\<close>
  that store and load a whole tree. Signed numbers and doubles are kept as their bit patterns, a
  \<open>std::map\<close> as an ascending list. The host is little-endian, so \<open>CONVERT_POD\<close> does nothing. An exception
  is \<open>None\<close>.
\<close>

section \<open>Definitions\<close>

subsection \<open>The tree\<close>

datatype storage_entry =
    SE_uint64 u64 | SE_uint32 u32 | SE_uint16 u16 | SE_uint8 u8
  | SE_int64 u64 | SE_int32 u32 | SE_int16 u16 | SE_int8 u8
  | SE_double u64 | SE_bool bool | SE_string bytes | SE_section ps_section | SE_array array_entry
and ps_section = Section (m_entries: "(bytes \<times> storage_entry) list")
and array_entry =
    AE_section "ps_section list"
  | AE_uint64 "u64 list" | AE_uint32 "u32 list" | AE_uint16 "u16 list" | AE_uint8 "u8 list"
  | AE_int64 "u64 list" | AE_int32 "u32 list" | AE_int16 "u16 list" | AE_int8 "u8 list"
  | AE_double "u64 list" | AE_bool "bool list" | AE_string "bytes list" | AE_array "array_entry list"

definition SERIALIZE_TYPE_INT64 :: u8 where "SERIALIZE_TYPE_INT64 = 1"
definition SERIALIZE_TYPE_INT32 :: u8 where "SERIALIZE_TYPE_INT32 = 2"
definition SERIALIZE_TYPE_INT16 :: u8 where "SERIALIZE_TYPE_INT16 = 3"
definition SERIALIZE_TYPE_INT8 :: u8 where "SERIALIZE_TYPE_INT8 = 4"
definition SERIALIZE_TYPE_UINT64 :: u8 where "SERIALIZE_TYPE_UINT64 = 5"
definition SERIALIZE_TYPE_UINT32 :: u8 where "SERIALIZE_TYPE_UINT32 = 6"
definition SERIALIZE_TYPE_UINT16 :: u8 where "SERIALIZE_TYPE_UINT16 = 7"
definition SERIALIZE_TYPE_UINT8 :: u8 where "SERIALIZE_TYPE_UINT8 = 8"
definition SERIALIZE_TYPE_DUOBLE :: u8 where "SERIALIZE_TYPE_DUOBLE = 9"
definition SERIALIZE_TYPE_STRING :: u8 where "SERIALIZE_TYPE_STRING = 10"
definition SERIALIZE_TYPE_BOOL :: u8 where "SERIALIZE_TYPE_BOOL = 11"
definition SERIALIZE_TYPE_OBJECT :: u8 where "SERIALIZE_TYPE_OBJECT = 12"
definition SERIALIZE_TYPE_ARRAY :: u8 where "SERIALIZE_TYPE_ARRAY = 13"
definition SERIALIZE_FLAG_ARRAY :: u8 where "SERIALIZE_FLAG_ARRAY = 0x80"

lemmas serialize_types =
  SERIALIZE_TYPE_INT64_def SERIALIZE_TYPE_INT32_def SERIALIZE_TYPE_INT16_def SERIALIZE_TYPE_INT8_def
  SERIALIZE_TYPE_UINT64_def SERIALIZE_TYPE_UINT32_def SERIALIZE_TYPE_UINT16_def SERIALIZE_TYPE_UINT8_def
  SERIALIZE_TYPE_DUOBLE_def SERIALIZE_TYPE_STRING_def SERIALIZE_TYPE_BOOL_def SERIALIZE_TYPE_OBJECT_def
  SERIALIZE_TYPE_ARRAY_def SERIALIZE_FLAG_ARRAY_def

definition PORTABLE_RAW_SIZE_MARK_BYTE :: u8 where "PORTABLE_RAW_SIZE_MARK_BYTE = 0"
definition PORTABLE_RAW_SIZE_MARK_WORD :: u8 where "PORTABLE_RAW_SIZE_MARK_WORD = 1"
definition PORTABLE_RAW_SIZE_MARK_DWORD :: u8 where "PORTABLE_RAW_SIZE_MARK_DWORD = 2"
definition PORTABLE_RAW_SIZE_MARK_INT64 :: u8 where "PORTABLE_RAW_SIZE_MARK_INT64 = 3"
definition PORTABLE_RAW_SIZE_MARK_MASK :: u8 where "PORTABLE_RAW_SIZE_MARK_MASK = 3"
definition MAX_STRING_LEN_POSSIBLE :: u64 where "MAX_STRING_LEN_POSSIBLE = 2000000000"

lemmas size_marks =
  PORTABLE_RAW_SIZE_MARK_BYTE_def PORTABLE_RAW_SIZE_MARK_WORD_def PORTABLE_RAW_SIZE_MARK_DWORD_def
  PORTABLE_RAW_SIZE_MARK_INT64_def PORTABLE_RAW_SIZE_MARK_MASK_def

subsection \<open>The writer\<close>

text \<open>The value shifted by two, cut to the packed type of \<open>n\<close> bytes, with the mark of that type.\<close>

definition pack_varint_t :: "nat \<Rightarrow> u8 \<Rightarrow> u64 \<Rightarrow> bytes" where
  "pack_varint_t n type_or pv = le_split n (push_bit 2 pv OR ucast type_or)"

definition pack_varint :: "u64 \<Rightarrow> bytes option" where
  "pack_varint val =
    (if val \<le> 63 then Some (pack_varint_t 1 PORTABLE_RAW_SIZE_MARK_BYTE val)
     else if val \<le> 16383 then Some (pack_varint_t 2 PORTABLE_RAW_SIZE_MARK_WORD val)
     else if val \<le> 1073741823 then Some (pack_varint_t 4 PORTABLE_RAW_SIZE_MARK_DWORD val)
     else if \<not> val \<le> 4611686018427387903 then None
     else Some (pack_varint_t 8 PORTABLE_RAW_SIZE_MARK_INT64 val))"

definition put_string :: "bytes \<Rightarrow> bytes option" where
  "put_string v = do { n \<leftarrow> pack_varint (of_nat (length v)); Some (n @ v) }"

fun put_strings :: "bytes list \<Rightarrow> bytes option" where
  "put_strings [] = Some []"
| "put_strings (s # ss) = do { x \<leftarrow> put_string s; y \<leftarrow> put_strings ss; Some (x @ y) }"

definition put_bool :: "bool \<Rightarrow> bytes" where
  "put_bool b = [if b then 1 else 0]"

definition pack_pod_type :: "u8 \<Rightarrow> bytes \<Rightarrow> bytes option" where
  "pack_pod_type t v = Some (t # v)"

definition pack_array_head :: "u8 \<Rightarrow> nat \<Rightarrow> bytes option" where
  "pack_array_head contained_type n =
    do { k \<leftarrow> pack_varint (of_nat n); Some ((contained_type OR SERIALIZE_FLAG_ARRAY) # k) }"

definition pack_pod_array_type :: "u8 \<Rightarrow> ('a \<Rightarrow> bytes) \<Rightarrow> 'a list \<Rightarrow> bytes option" where
  "pack_pod_array_type contained_type put xs =
    do { h \<leftarrow> pack_array_head contained_type (length xs); Some (h @ concat (map put xs)) }"

definition pack_name :: "bytes \<Rightarrow> bytes option" where
  "pack_name name =
    (if name = [] then None else if \<not> length name < 255 then None
     else Some (of_nat (length name) # name))"

fun pack_entry :: "storage_entry \<Rightarrow> bytes option"
  and pack_section :: "ps_section \<Rightarrow> bytes option"
  and pack_array :: "array_entry \<Rightarrow> bytes option"
  and pack_entries :: "(bytes \<times> storage_entry) list \<Rightarrow> bytes option"
  and pack_sections :: "ps_section list \<Rightarrow> bytes option"
  and pack_arrays :: "array_entry list \<Rightarrow> bytes option" where
  "pack_entry (SE_uint64 v) = pack_pod_type SERIALIZE_TYPE_UINT64 (le_split 8 v)"
| "pack_entry (SE_uint32 v) = pack_pod_type SERIALIZE_TYPE_UINT32 (le_split 4 v)"
| "pack_entry (SE_uint16 v) = pack_pod_type SERIALIZE_TYPE_UINT16 (le_split 2 v)"
| "pack_entry (SE_uint8 v) = pack_pod_type SERIALIZE_TYPE_UINT8 (le_split 1 v)"
| "pack_entry (SE_int64 v) = pack_pod_type SERIALIZE_TYPE_INT64 (le_split 8 v)"
| "pack_entry (SE_int32 v) = pack_pod_type SERIALIZE_TYPE_INT32 (le_split 4 v)"
| "pack_entry (SE_int16 v) = pack_pod_type SERIALIZE_TYPE_INT16 (le_split 2 v)"
| "pack_entry (SE_int8 v) = pack_pod_type SERIALIZE_TYPE_INT8 (le_split 1 v)"
| "pack_entry (SE_double v) = pack_pod_type SERIALIZE_TYPE_DUOBLE (le_split 8 v)"
| "pack_entry (SE_bool v) = pack_pod_type SERIALIZE_TYPE_BOOL (put_bool v)"
| "pack_entry (SE_string v) = do { x \<leftarrow> put_string v; Some (SERIALIZE_TYPE_STRING # x) }"
| "pack_entry (SE_section v) = do { x \<leftarrow> pack_section v; Some (SERIALIZE_TYPE_OBJECT # x) }"
| "pack_entry (SE_array v) = pack_array v"
| "pack_section (Section es) =
    do { n \<leftarrow> pack_varint (of_nat (length es)); x \<leftarrow> pack_entries es; Some (n @ x) }"
| "pack_array (AE_uint64 v) = pack_pod_array_type SERIALIZE_TYPE_UINT64 (le_split 8) v"
| "pack_array (AE_uint32 v) = pack_pod_array_type SERIALIZE_TYPE_UINT32 (le_split 4) v"
| "pack_array (AE_uint16 v) = pack_pod_array_type SERIALIZE_TYPE_UINT16 (le_split 2) v"
| "pack_array (AE_uint8 v) = pack_pod_array_type SERIALIZE_TYPE_UINT8 (le_split 1) v"
| "pack_array (AE_int64 v) = pack_pod_array_type SERIALIZE_TYPE_INT64 (le_split 8) v"
| "pack_array (AE_int32 v) = pack_pod_array_type SERIALIZE_TYPE_INT32 (le_split 4) v"
| "pack_array (AE_int16 v) = pack_pod_array_type SERIALIZE_TYPE_INT16 (le_split 2) v"
| "pack_array (AE_int8 v) = pack_pod_array_type SERIALIZE_TYPE_INT8 (le_split 1) v"
| "pack_array (AE_double v) = pack_pod_array_type SERIALIZE_TYPE_DUOBLE (le_split 8) v"
| "pack_array (AE_bool v) = pack_pod_array_type SERIALIZE_TYPE_BOOL put_bool v"
| "pack_array (AE_string v) =
    do { h \<leftarrow> pack_array_head SERIALIZE_TYPE_STRING (length v); x \<leftarrow> put_strings v; Some (h @ x) }"
| "pack_array (AE_section v) =
    do { h \<leftarrow> pack_array_head SERIALIZE_TYPE_OBJECT (length v); x \<leftarrow> pack_sections v; Some (h @ x) }"
| "pack_array (AE_array v) =
    do { h \<leftarrow> pack_array_head SERIALIZE_TYPE_ARRAY (length v); x \<leftarrow> pack_arrays v; Some (h @ x) }"
| "pack_entries [] = Some []"
| "pack_entries ((name, e) # es) =
    do { n \<leftarrow> pack_name name; x \<leftarrow> pack_entry e; y \<leftarrow> pack_entries es; Some (n @ x @ y) }"
| "pack_sections [] = Some []"
| "pack_sections (s # ss) = do { x \<leftarrow> pack_section s; y \<leftarrow> pack_sections ss; Some (x @ y) }"
| "pack_arrays [] = Some []"
| "pack_arrays (a # as) = do { x \<leftarrow> pack_array a; y \<leftarrow> pack_arrays as; Some (x @ y) }"

definition PORTABLE_STORAGE_SIGNATUREA :: u32 where "PORTABLE_STORAGE_SIGNATUREA = 0x01011101"
definition PORTABLE_STORAGE_SIGNATUREB :: u32 where "PORTABLE_STORAGE_SIGNATUREB = 0x01020101"
definition PORTABLE_STORAGE_FORMAT_VER :: u8 where "PORTABLE_STORAGE_FORMAT_VER = 1"

definition storage_block_header :: bytes where
  "storage_block_header =
    le_split 4 PORTABLE_STORAGE_SIGNATUREA @ le_split 4 PORTABLE_STORAGE_SIGNATUREB @ [PORTABLE_STORAGE_FORMAT_VER]"

definition store_to_binary :: "ps_section \<Rightarrow> bytes option" where
  "store_to_binary m_root = do { x \<leftarrow> pack_section m_root; Some (storage_block_header @ x) }"

subsection \<open>The reader\<close>

text \<open>The buffer that is left, whose length is \<open>m_count\<close>, and the counters. The counters are kept within
  their limits by the checks that precede every increment, so the differences from the limits do not wrap.
  \<open>m_recursion_count\<close>, which a guard increments on entry and restores on exit of every function, is
  their first argument.\<close>

record throwable_buffer_reader =
  m_ptr :: bytes
  m_objects :: nat
  m_fields :: nat
  m_array_elements :: nat

definition RECURSION_LIMIT :: nat where "RECURSION_LIMIT = 100"
definition OBJECT_LIMIT :: nat where "OBJECT_LIMIT = 65536"
definition OBJECT_FIELD_LIMIT :: nat where "OBJECT_FIELD_LIMIT = 262144"
definition ARRAY_ELEMENT_LIMIT :: nat where "ARRAY_ELEMENT_LIMIT = 65536"

definition recursion_guard :: "nat \<Rightarrow> nat option" where
  "recursion_guard counter = (if counter + 1 < RECURSION_LIMIT then Some (counter + 1) else None)"

type_synonym 'a read = "throwable_buffer_reader \<Rightarrow> ('a \<times> throwable_buffer_reader) option"

definition new_reader :: "bytes \<Rightarrow> throwable_buffer_reader option" where
  "new_reader p = (if p = [] then None else Some \<lparr>m_ptr = p, m_objects = 0, m_fields = 0, m_array_elements = 0\<rparr>)"

definition read_mem :: "nat \<Rightarrow> nat \<Rightarrow> bytes read" where
  "read_mem c count r =
    do { c \<leftarrow> recursion_guard c;
         if \<not> length (m_ptr r) \<ge> count then None
         else Some (take count (m_ptr r), r\<lparr>m_ptr := drop count (m_ptr r)\<rparr>) }"

text \<open>\<open>read(t_pod_type&)\<close> and \<open>read<t_type>()\<close> for types of \<open>n\<close> bytes, before the bytes are read as a value.\<close>

definition read_pod :: "nat \<Rightarrow> nat \<Rightarrow> bytes read" where
  "read_pod c n r = do { c \<leftarrow> recursion_guard c; read_mem c n r }"

definition read_value :: "nat \<Rightarrow> nat \<Rightarrow> bytes read" where
  "read_value c n r = do { c \<leftarrow> recursion_guard c; read_pod c n r }"

definition read_sec_name :: "nat \<Rightarrow> bytes read" where
  "read_sec_name c r =
    do { c \<leftarrow> recursion_guard c;
         (name_len, r) \<leftarrow> read_pod c 1 r;
         if \<not> hd name_len > 0 then None else read_mem c (unat (hd name_len)) r }"

definition reader_read_varint :: "nat \<Rightarrow> u64 read" where
  "reader_read_varint c r =
    do { c \<leftarrow> recursion_guard c;
         if \<not> length (m_ptr r) \<ge> 1 then None
         else
           let size_mask = hd (m_ptr r) AND PORTABLE_RAW_SIZE_MARK_MASK
           in do { (v, r) \<leftarrow> (if size_mask = PORTABLE_RAW_SIZE_MARK_BYTE then read_value c 1 r
                             else if size_mask = PORTABLE_RAW_SIZE_MARK_WORD then read_value c 2 r
                             else if size_mask = PORTABLE_RAW_SIZE_MARK_DWORD then read_value c 4 r
                             else if size_mask = PORTABLE_RAW_SIZE_MARK_INT64 then read_value c 8 r
                             else None);
                   Some (drop_bit 2 (le_word v), r) } }"

definition read_string :: "nat \<Rightarrow> bytes read" where
  "read_string c r =
    do { c \<leftarrow> recursion_guard c;
         (len, r) \<leftarrow> reader_read_varint c r;
         if \<not> len < MAX_STRING_LEN_POSSIBLE then None
         else if \<not> length (m_ptr r) \<ge> unat len then None
         else Some (take (unat len) (m_ptr r), r\<lparr>m_ptr := drop (unat len) (m_ptr r)\<rparr>) }"

text \<open>A byte read as a \<open>bool\<close>: the writer only writes 0 and 1.\<close>

definition get_bool :: "bytes \<Rightarrow> bool" where
  "get_bool b = (hd b \<noteq> 0)"

text \<open>A loop of \<open>n\<close> rounds that may throw.\<close>

primrec repeat_m :: "nat \<Rightarrow> ('s \<Rightarrow> 's option) \<Rightarrow> 's \<Rightarrow> 's option" where
  "repeat_m 0 f s = Some s"
| "repeat_m (Suc n) f s = do { s \<leftarrow> f s; repeat_m n f s }"

definition push_back_read :: "'a read \<Rightarrow> ('a list \<times> throwable_buffer_reader) \<Rightarrow> ('a list \<times> throwable_buffer_reader) option" where
  "push_back_read f = (\<lambda>(xs, r). do { (x, r) \<leftarrow> f r; Some (xs @ [x], r) })"

text \<open>The size of an array and the checks on it. \<open>strict\<close> and \<open>rough\<close> are the values of \<open>ps_min_bytes\<close> for the type
  of the elements.\<close>

definition read_ae_size :: "nat \<Rightarrow> nat \<Rightarrow> bool \<Rightarrow> nat \<Rightarrow> nat read" where
  "read_ae_size strict rough is_section c r =
    do { (sz, r) \<leftarrow> reader_read_varint c r;
         let n = unat sz
         in if \<not> n < ARRAY_ELEMENT_LIMIT - m_array_elements r then None
            else let r = r\<lparr>m_array_elements := m_array_elements r + n\<rparr>
            in if \<not> n \<le> length (m_ptr r) div strict then None
            else if is_section \<and> \<not> n \<le> OBJECT_LIMIT - m_objects r then None
            else let r = (if is_section then r\<lparr>m_objects := m_objects r + n\<rparr> else r);
                     threshold = 16384 - min (m_array_elements r) 16384
            in if \<not> (n \<le> threshold \<or> n \<le> length (m_ptr r) div rough) then None
            else Some (n, r) }"

definition read_ae_pod :: "nat \<Rightarrow> (bytes \<Rightarrow> 'a) \<Rightarrow> ('a list \<Rightarrow> array_entry) \<Rightarrow> nat \<Rightarrow> storage_entry read" where
  "read_ae_pod n get mk c r =
    do { c \<leftarrow> recursion_guard c;
         (sz, r) \<leftarrow> read_ae_size n n False c r;
         (xs, r) \<leftarrow> repeat_m sz (push_back_read (\<lambda>r. do { (b, r) \<leftarrow> read_value c n r; Some (get b, r) })) ([], r);
         Some (SE_array (mk xs), r) }"

definition read_ae_string :: "nat \<Rightarrow> storage_entry read" where
  "read_ae_string c r =
    do { c \<leftarrow> recursion_guard c;
         (sz, r) \<leftarrow> read_ae_size 2 16 False c r;
         (xs, r) \<leftarrow> repeat_m sz (push_back_read (\<lambda>r. do { c \<leftarrow> recursion_guard c; read_string c r })) ([], r);
         Some (SE_array (AE_string xs), r) }"

text \<open>\<open>read(array_entry&)\<close> always throws.\<close>

definition read_ae_array :: "nat \<Rightarrow> storage_entry read" where
  "read_ae_array c r =
    do { c \<leftarrow> recursion_guard c;
         (sz, r) \<leftarrow> read_ae_size 1 128 False c r;
         if sz > 0 then None else Some (SE_array (AE_array []), r) }"

definition read_se_pod :: "nat \<Rightarrow> (bytes \<Rightarrow> storage_entry) \<Rightarrow> nat \<Rightarrow> storage_entry read" where
  "read_se_pod n mk c r =
    do { c \<leftarrow> recursion_guard c; (b, r) \<leftarrow> read_pod c n r; Some (mk b, r) }"

definition read_se_string :: "nat \<Rightarrow> storage_entry read" where
  "read_se_string c r =
    do { c \<leftarrow> recursion_guard c; c \<leftarrow> recursion_guard c; (s, r) \<leftarrow> read_string c r; Some (SE_string s, r) }"

function read_section :: "nat \<Rightarrow> ps_section read"
  and load_storage_entry :: "nat \<Rightarrow> storage_entry read"
  and load_storage_array_entry :: "nat \<Rightarrow> u8 \<Rightarrow> storage_entry read" where
  "read_section c r =
    do { c \<leftarrow> recursion_guard c;
         (count, r) \<leftarrow> reader_read_varint c r;
         if \<not> unat count \<le> OBJECT_FIELD_LIMIT - m_fields r then None
         else do {
           (es, r) \<leftarrow> repeat_m (unat count)
             (\<lambda>(es, r). do {
                (sec_name, r) \<leftarrow> read_sec_name c r;
                if map_find es sec_name \<noteq> None then None
                else do { (e, r) \<leftarrow> load_storage_entry c r; Some (map_put es sec_name e, r) } })
             ([], r\<lparr>m_fields := m_fields r + unat count\<rparr>);
           Some (Section es, r) } }"
| "load_storage_entry c r =
    do { c \<leftarrow> recursion_guard c;
         (b, r) \<leftarrow> read_pod c 1 r;
         let ent_type = hd b
         in if ent_type AND SERIALIZE_FLAG_ARRAY \<noteq> 0 then load_storage_array_entry c ent_type r
            else if ent_type = SERIALIZE_TYPE_INT64 then read_se_pod 8 (\<lambda>b. SE_int64 (le_word b)) c r
            else if ent_type = SERIALIZE_TYPE_INT32 then read_se_pod 4 (\<lambda>b. SE_int32 (le_word b)) c r
            else if ent_type = SERIALIZE_TYPE_INT16 then read_se_pod 2 (\<lambda>b. SE_int16 (le_word b)) c r
            else if ent_type = SERIALIZE_TYPE_INT8 then read_se_pod 1 (\<lambda>b. SE_int8 (le_word b)) c r
            else if ent_type = SERIALIZE_TYPE_UINT64 then read_se_pod 8 (\<lambda>b. SE_uint64 (le_word b)) c r
            else if ent_type = SERIALIZE_TYPE_UINT32 then read_se_pod 4 (\<lambda>b. SE_uint32 (le_word b)) c r
            else if ent_type = SERIALIZE_TYPE_UINT16 then read_se_pod 2 (\<lambda>b. SE_uint16 (le_word b)) c r
            else if ent_type = SERIALIZE_TYPE_UINT8 then read_se_pod 1 (\<lambda>b. SE_uint8 (le_word b)) c r
            else if ent_type = SERIALIZE_TYPE_DUOBLE then read_se_pod 8 (\<lambda>b. SE_double (le_word b)) c r
            else if ent_type = SERIALIZE_TYPE_BOOL then read_se_pod 1 (\<lambda>b. SE_bool (get_bool b)) c r
            else if ent_type = SERIALIZE_TYPE_STRING then read_se_string c r
            else if ent_type = SERIALIZE_TYPE_OBJECT then
              do { c \<leftarrow> recursion_guard c;
                   if \<not> m_objects r < OBJECT_LIMIT then None
                   else do { (s, r) \<leftarrow> read_section c (r\<lparr>m_objects := m_objects r + 1\<rparr>); Some (SE_section s, r) } }
            else if ent_type = SERIALIZE_TYPE_ARRAY then
              do { c \<leftarrow> recursion_guard c;
                   (b, r) \<leftarrow> read_pod c 1 r;
                   if \<not> hd b AND SERIALIZE_FLAG_ARRAY \<noteq> 0 then None
                   else load_storage_array_entry c (hd b) r }
            else None }"
| "load_storage_array_entry c t r =
    do { c \<leftarrow> recursion_guard c;
         let t = t AND NOT SERIALIZE_FLAG_ARRAY
         in if t = SERIALIZE_TYPE_INT64 then read_ae_pod 8 le_word AE_int64 c r
            else if t = SERIALIZE_TYPE_INT32 then read_ae_pod 4 le_word AE_int32 c r
            else if t = SERIALIZE_TYPE_INT16 then read_ae_pod 2 le_word AE_int16 c r
            else if t = SERIALIZE_TYPE_INT8 then read_ae_pod 1 le_word AE_int8 c r
            else if t = SERIALIZE_TYPE_UINT64 then read_ae_pod 8 le_word AE_uint64 c r
            else if t = SERIALIZE_TYPE_UINT32 then read_ae_pod 4 le_word AE_uint32 c r
            else if t = SERIALIZE_TYPE_UINT16 then read_ae_pod 2 le_word AE_uint16 c r
            else if t = SERIALIZE_TYPE_UINT8 then read_ae_pod 1 le_word AE_uint8 c r
            else if t = SERIALIZE_TYPE_DUOBLE then read_ae_pod 8 le_word AE_double c r
            else if t = SERIALIZE_TYPE_BOOL then read_ae_pod 1 get_bool AE_bool c r
            else if t = SERIALIZE_TYPE_STRING then read_ae_string c r
            else if t = SERIALIZE_TYPE_OBJECT then
              do { c \<leftarrow> recursion_guard c;
                   (sz, r) \<leftarrow> read_ae_size 1 256 True c r;
                   (xs, r) \<leftarrow> repeat_m sz (push_back_read (\<lambda>r. do { c \<leftarrow> recursion_guard c; read_section c r })) ([], r);
                   Some (SE_array (AE_section xs), r) }
            else if t = SERIALIZE_TYPE_ARRAY then read_ae_array c r
            else None }"
  by pat_completeness auto

termination
  by (relation "measure (case_sum (\<lambda>(c, r). RECURSION_LIMIT - c)
       (case_sum (\<lambda>(c, r). RECURSION_LIMIT - c) (\<lambda>(c, t, r). RECURSION_LIMIT - c)))")
     (auto simp: recursion_guard_def split: if_splits)

definition load_from_binary :: "bytes \<Rightarrow> ps_section option" where
  "load_from_binary source =
    (if length source < 9 then None
     else if le_word (take 4 source) \<noteq> PORTABLE_STORAGE_SIGNATUREA
          \<or> le_word (take 4 (drop 4 source)) \<noteq> PORTABLE_STORAGE_SIGNATUREB then None
     else if source ! 8 \<noteq> PORTABLE_STORAGE_FORMAT_VER then None
     else do { buf_reader \<leftarrow> new_reader (drop 9 source); (m_root, _) \<leftarrow> read_section 0 buf_reader; Some m_root })"

declare read_section.simps [simp del] load_storage_entry.simps [simp del] load_storage_array_entry.simps [simp del]

subsection \<open>What can be loaded\<close>

text \<open>The number of fields, of sections below the given one, and of array elements of a tree.\<close>

fun fields_e :: "storage_entry \<Rightarrow> nat" and fields_s :: "ps_section \<Rightarrow> nat" and fields_a :: "array_entry \<Rightarrow> nat" where
  "fields_e (SE_section s) = fields_s s"
| "fields_e (SE_array a) = fields_a a"
| "fields_e _ = 0"
| "fields_s (Section es) = length es + (\<Sum>(name, e)\<leftarrow>es. fields_e e)"
| "fields_a (AE_section ss) = (\<Sum>s\<leftarrow>ss. fields_s s)"
| "fields_a (AE_array as) = (\<Sum>a\<leftarrow>as. fields_a a)"
| "fields_a _ = 0"

fun objects_e :: "storage_entry \<Rightarrow> nat" and objects_s :: "ps_section \<Rightarrow> nat" and objects_a :: "array_entry \<Rightarrow> nat" where
  "objects_e (SE_section s) = 1 + objects_s s"
| "objects_e (SE_array a) = objects_a a"
| "objects_e _ = 0"
| "objects_s (Section es) = (\<Sum>(name, e)\<leftarrow>es. objects_e e)"
| "objects_a (AE_section ss) = length ss + (\<Sum>s\<leftarrow>ss. objects_s s)"
| "objects_a (AE_array as) = (\<Sum>a\<leftarrow>as. objects_a a)"
| "objects_a _ = 0"

fun elements_e :: "storage_entry \<Rightarrow> nat" and elements_s :: "ps_section \<Rightarrow> nat" and elements_a :: "array_entry \<Rightarrow> nat" where
  "elements_e (SE_section s) = elements_s s"
| "elements_e (SE_array a) = elements_a a"
| "elements_e _ = 0"
| "elements_s (Section es) = (\<Sum>(name, e)\<leftarrow>es. elements_e e)"
| "elements_a (AE_uint64 v) = length v"
| "elements_a (AE_uint32 v) = length v"
| "elements_a (AE_uint16 v) = length v"
| "elements_a (AE_uint8 v) = length v"
| "elements_a (AE_int64 v) = length v"
| "elements_a (AE_int32 v) = length v"
| "elements_a (AE_int16 v) = length v"
| "elements_a (AE_int8 v) = length v"
| "elements_a (AE_double v) = length v"
| "elements_a (AE_bool v) = length v"
| "elements_a (AE_string v) = length v"
| "elements_a (AE_section ss) = length ss + (\<Sum>s\<leftarrow>ss. elements_s s)"
| "elements_a (AE_array as) = length as + (\<Sum>a\<leftarrow>as. elements_a a)"

text \<open>A tree whose sections are maps with names of the right length, whose strings are shorter than the
  limit, that has no arrays of arrays and no empty string in an array. \<open>c\<close> is the recursion count at which the
  reader meets the section: a section in a section is met three levels further down, a section in an array
  five levels, and a section with plain entries needs ten.\<close>

fun loadable_e :: "nat \<Rightarrow> storage_entry \<Rightarrow> bool" and loadable_s :: "nat \<Rightarrow> ps_section \<Rightarrow> bool"
  and loadable_a :: "nat \<Rightarrow> array_entry \<Rightarrow> bool" where
  "loadable_e c (SE_section s) = loadable_s (c + 3) s"
| "loadable_e c (SE_array a) = loadable_a c a"
| "loadable_e c (SE_string v) = (length v < 2000000000)"
| "loadable_e c _ = True"
| "loadable_s c (Section es) = (c + 10 < RECURSION_LIMIT \<and> map_wf es
    \<and> list_all (\<lambda>(name, e). 0 < length name \<and> length name < 255 \<and> loadable_e c e) es)"
| "loadable_a c (AE_section ss) = list_all (loadable_s (c + 5)) ss"
| "loadable_a c (AE_string vs) = list_all (\<lambda>v. 0 < length v \<and> length v < 2000000000) vs"
| "loadable_a c (AE_array as) = (as = [])"
| "loadable_a c _ = True"

section \<open>Reading back what was written\<close>

subsection \<open>The pieces\<close>

definition rdr :: "bytes \<Rightarrow> nat \<Rightarrow> nat \<Rightarrow> nat \<Rightarrow> throwable_buffer_reader" where
  "rdr p ob f a = \<lparr>m_ptr = p, m_objects = ob, m_fields = f, m_array_elements = a\<rparr>"

lemma rdr_simps [simp]:
  "m_ptr (rdr p ob f a) = p" "m_objects (rdr p ob f a) = ob" "m_fields (rdr p ob f a) = f"
  "m_array_elements (rdr p ob f a) = a" "(rdr p ob f a)\<lparr>m_ptr := p'\<rparr> = rdr p' ob f a"
  "(rdr p ob f a)\<lparr>m_objects := ob'\<rparr> = rdr p ob' f a" "(rdr p ob f a)\<lparr>m_fields := f'\<rparr> = rdr p ob f' a"
  "(rdr p ob f a)\<lparr>m_array_elements := a'\<rparr> = rdr p ob f a'"
  by (simp_all add: rdr_def)

lemma recursion_guard_Some [simp]: "c + 1 < RECURSION_LIMIT \<Longrightarrow> recursion_guard c = Some (Suc c)"
  by (simp add: recursion_guard_def)

lemma read_mem_rdr [simp]:
  "length xs = n \<Longrightarrow> c + 1 < RECURSION_LIMIT \<Longrightarrow> read_mem c n (rdr (xs @ p) ob f a) = Some (xs, rdr p ob f a)"
  by (simp add: read_mem_def)

lemma read_pod_rdr [simp]:
  "length xs = n \<Longrightarrow> c + 2 < RECURSION_LIMIT \<Longrightarrow> read_pod c n (rdr (xs @ p) ob f a) = Some (xs, rdr p ob f a)"
  by (simp add: read_pod_def)

lemma read_value_rdr [simp]:
  "length xs = n \<Longrightarrow> c + 3 < RECURSION_LIMIT \<Longrightarrow> read_value c n (rdr (xs @ p) ob f a) = Some (xs, rdr p ob f a)"
  by (simp add: read_value_def)

lemma le_word_split_full [simp]: "8 * n = LENGTH('a) \<Longrightarrow> le_word (le_split n x) = (x :: 'a :: len word)"
  by (simp add: le_word_le_split take_bit_word_eq_self)

text \<open>The marked size, whatever its width.\<close>

lemma pack_varint_t_read:
  assumes n: "n \<in> {1, 2, 4, 8}" and v: "unat v < 2 ^ (8 * n - 2)" and t: "t = take_bit 2 t"
  shows "hd (pack_varint_t n t v) AND PORTABLE_RAW_SIZE_MARK_MASK = t"
    and "drop_bit 2 (le_word (pack_varint_t n t v)) = v"
proof -
  have t': "bit t k \<Longrightarrow> k < 2" for k using bit_take_bit_iff [of 2 t k] t by auto
  have v': "v = take_bit (8 * n - 2) v"
    using v by (simp add: word_unat_eq_iff unsigned_take_bit_eq take_bit_nat_eq_self)
  then have bv: "bit v k \<Longrightarrow> k + 2 < 8 * n" for k using bit_take_bit_iff [of "8 * n - 2" v k] by auto
  have b62: "bit v k \<Longrightarrow> k < 62" for k using bv [of k] n by auto
  have three: "(3 :: u8) = mask 2" by (simp add: mask_eq_exp_minus_1)
  have "n = Suc (n - 1)" using n by auto
  then have "hd (pack_varint_t n t v) = ucast (push_bit 2 v OR ucast t)"
    by (subst \<open>n = Suc (n - 1)\<close>) (simp add: pack_varint_t_def le_split_def upt_conv_Cons del: upt_Suc)
  then show "hd (pack_varint_t n t v) AND PORTABLE_RAW_SIZE_MARK_MASK = t"
    by (auto intro!: bit_word_eqI simp: size_marks three bit_simps dest: t')
  show "drop_bit 2 (le_word (pack_varint_t n t v)) = v"
    unfolding pack_varint_t_def le_word_le_split
    by (rule bit_word_eqI) (auto simp: bit_simps dest: t' bv b62)
qed

lemma length_pack_varint_t [simp]: "length (pack_varint_t n t v) = n"
  by (simp add: pack_varint_t_def)

lemma read_varint_mark:
  assumes "n \<in> {1, 2, 4, 8}" "unat v < 2 ^ (8 * n - 2)" "t = take_bit 2 t" "c + 4 < RECURSION_LIMIT"
    "n = (if t = PORTABLE_RAW_SIZE_MARK_BYTE then 1 else if t = PORTABLE_RAW_SIZE_MARK_WORD then 2
          else if t = PORTABLE_RAW_SIZE_MARK_DWORD then 4 else 8)"
    "t = PORTABLE_RAW_SIZE_MARK_BYTE \<or> t = PORTABLE_RAW_SIZE_MARK_WORD \<or> t = PORTABLE_RAW_SIZE_MARK_DWORD
      \<or> t = PORTABLE_RAW_SIZE_MARK_INT64"
  shows "reader_read_varint c (rdr (pack_varint_t n t v @ p) ob f a) = Some (v, rdr p ob f a)"
proof -
  have l: "Suc 0 \<le> n" using assms(1) by auto
  then have "pack_varint_t n t v \<noteq> []" by (metis length_pack_varint_t list.size(3) not_less_eq_eq le0)
  then have "hd (pack_varint_t n t v @ p) = hd (pack_varint_t n t v)" by simp
  then have "hd (pack_varint_t n t v @ p) AND PORTABLE_RAW_SIZE_MARK_MASK = t"
    using pack_varint_t_read(1) [OF assms(1-3)] by simp
  then show ?thesis
    using assms(4-6) l pack_varint_t_read(2) [OF assms(1-3)]
    by (auto simp: reader_read_varint_def Let_def split: if_splits)
qed

lemma read_varint_rdr [simp]:
  assumes "pack_varint v = Some bs" "c + 4 < RECURSION_LIMIT"
  shows "reader_read_varint c (rdr (bs @ p) ob f a) = Some (v, rdr p ob f a)"
  using assms
  by (auto simp: pack_varint_def word_le_nat_alt split: if_splits intro!: read_varint_mark)
     (simp_all add: size_marks)

lemma read_string_rdr [simp]:
  assumes "put_string v = Some bs" "length v < 2000000000" "c + 5 < RECURSION_LIMIT"
  shows "read_string c (rdr (bs @ p) ob f a) = Some (v, rdr p ob f a)"
proof -
  have n: "unat (of_nat (length v) :: u64) = length v" using assms(2) by (intro unat_of_nat_u64) simp
  then have "(of_nat (length v) :: u64) < MAX_STRING_LEN_POSSIBLE"
    using assms(2) by (simp add: MAX_STRING_LEN_POSSIBLE_def word_less_nat_alt)
  then show ?thesis using assms n by (auto simp: put_string_def read_string_def split: bind_splits)
qed

lemma read_sec_name_rdr [simp]:
  assumes "pack_name name = Some bs" "c + 3 < RECURSION_LIMIT"
  shows "read_sec_name c (rdr (bs @ p) ob f a) = Some (name, rdr p ob f a)"
proof -
  have n: "bs = [of_nat (length name)] @ name" "name \<noteq> []" "length name < 255"
    using assms(1) by (auto simp: pack_name_def split: if_splits)
  moreover have "unat (of_nat (length name) :: u8) = length name"
    using n(3) by (simp add: unat_of_nat)
  moreover from this have "(of_nat (length name) :: u8) > 0"
    using n(2) by (simp add: word_less_nat_alt)
  ultimately show ?thesis using assms(2) read_pod_rdr [of "[of_nat (length name)]" 1 "Suc c" "name @ p" ob f a]
    by (simp add: read_sec_name_def del: read_pod_rdr)
qed

lemma repeat_push_back:
  assumes "\<And>x p. x \<in> set xs \<Longrightarrow> g (rdr (enc x @ p) ob f a) = Some (x, rdr p ob f a)"
  shows "repeat_m (length xs) (push_back_read g) (acc, rdr (concat (map enc xs) @ p) ob f a) = Some (acc @ xs, rdr p ob f a)"
  using assms by (induction xs arbitrary: acc) (simp_all add: push_back_read_def)

lemma repeat_read_strings:
  assumes "put_strings xs = Some bs" "list_all (\<lambda>v. 0 < length v \<and> length v < 2000000000) xs" "c + 6 < RECURSION_LIMIT"
  shows "repeat_m (length xs) (push_back_read (\<lambda>r. do { c \<leftarrow> recursion_guard c; read_string c r })) (acc, rdr (bs @ p) ob f a)
    = Some (acc @ xs, rdr p ob f a)"
  using assms
  by (induction xs arbitrary: acc bs) (auto simp: push_back_read_def split: bind_splits)

text \<open>The checks on the size of an array pass when the elements are there.\<close>

lemma read_ae_size_rdr:
  assumes "pack_varint (of_nat n) = Some k" "a + n \<le> 8192" "c + 4 < RECURSION_LIMIT" "0 < strict" "n * strict \<le> length p"
    and "is_sec \<Longrightarrow> ob + n \<le> OBJECT_LIMIT"
  shows "read_ae_size strict rough is_sec c (rdr (k @ p) ob f a)
    = Some (n, rdr p (if is_sec then ob + n else ob) f (a + n))"
proof -
  have n: "unat (of_nat n :: u64) = n" using assms(2) by (intro unat_of_nat_u64) simp
  have "n \<le> length p div strict" using assms(4,5) by (simp add: less_eq_div_iff_mult_less_eq)
  moreover have "n \<le> 16384 - min (a + n) 16384" "n < ARRAY_ELEMENT_LIMIT - a" using assms(2) by (simp_all add: ARRAY_ELEMENT_LIMIT_def)
  moreover have "is_sec \<Longrightarrow> n \<le> OBJECT_LIMIT - ob" using assms(6) by linarith
  ultimately show ?thesis using assms(1,3) by (simp add: read_ae_size_def n Let_def)
qed

lemma pack_varint_length: "pack_varint v = Some k \<Longrightarrow> 1 \<le> length k"
  by (auto simp: pack_varint_def split: if_splits)

lemma put_string_length: "put_string v = Some x \<Longrightarrow> 1 + length v \<le> length x"
  by (auto simp: put_string_def split: bind_splits dest: pack_varint_length)

lemma put_strings_length: "put_strings xs = Some bs \<Longrightarrow> list_all (\<lambda>v. 0 < length v \<and> P v) xs \<Longrightarrow> length xs * 2 \<le> length bs"
proof (induction xs arbitrary: bs)
  case (Cons v xs)
  obtain x y where "put_string v = Some x" "put_strings xs = Some y" "bs = x @ y"
    using Cons.prems(1) by (auto split: bind_splits)
  then show ?case using Cons.IH [of y] Cons.prems(2) put_string_length [of v x]
    by (cases v) auto
qed simp

lemma read_ae_pod_rdr:
  assumes "pack_varint (of_nat (length xs)) = Some k" "a + length xs \<le> 8192" "c + 5 < RECURSION_LIMIT" "0 < n"
    and "\<And>x. length (put x) = n" "\<And>x. get (put x) = x"
  shows "read_ae_pod n get mk c (rdr (k @ concat (map put xs) @ p) ob f a) = Some (SE_array (mk xs), rdr p ob f (a + length xs))"
proof -
  have "length (concat (map put xs)) = length xs * n" using assms(5) by (induction xs) auto
  then have "read_ae_size n n False (Suc c) (rdr (k @ concat (map put xs) @ p) ob f a)
      = Some (length xs, rdr (concat (map put xs) @ p) ob f (a + length xs))"
    using assms by (subst read_ae_size_rdr) auto
  moreover have "repeat_m (length xs) (push_back_read (\<lambda>r. do { (b, r) \<leftarrow> read_value (Suc c) n r; Some (get b, r) }))
      ([], rdr (concat (map put xs) @ p) ob f (a + length xs)) = Some ([] @ xs, rdr p ob f (a + length xs))"
    using assms by (intro repeat_push_back) simp
  ultimately show ?thesis using assms(3) by (simp add: read_ae_pod_def)
qed

subsection \<open>Entries without sections\<close>

lemma read_pod_byte [simp]: "c + 2 < RECURSION_LIMIT \<Longrightarrow> read_pod c (Suc 0) (rdr (t # p) ob f a) = Some ([t], rdr p ob f a)"
  using read_pod_rdr [of "[t]" 1 c p] by simp

lemma get_put_bool [simp]: "get_bool (put_bool b) = b" "length (put_bool b) = Suc 0"
  by (simp_all add: get_bool_def put_bool_def)

lemma read_se_pod_rdr [simp]:
  "length xs = n \<Longrightarrow> c + 3 < RECURSION_LIMIT \<Longrightarrow> read_se_pod n mk c (rdr (xs @ p) ob f a) = Some (mk xs, rdr p ob f a)"
  by (simp add: read_se_pod_def)

lemma read_se_string_rdr [simp]:
  "put_string v = Some bs \<Longrightarrow> length v < 2000000000 \<Longrightarrow> c + 7 < RECURSION_LIMIT \<Longrightarrow>
    read_se_string c (rdr (bs @ p) ob f a) = Some (SE_string v, rdr p ob f a)"
  by (simp add: read_se_string_def)

lemma read_ae_string_rdr:
  assumes "pack_varint (of_nat (length xs)) = Some k" "put_strings xs = Some bs" "a + length xs \<le> 8192"
    "list_all (\<lambda>v. 0 < length v \<and> length v < 2000000000) xs" "c + 7 < RECURSION_LIMIT"
  shows "read_ae_string c (rdr (k @ bs @ p) ob f a) = Some (SE_array (AE_string xs), rdr p ob f (a + length xs))"
proof -
  have "read_ae_size 2 16 False (Suc c) (rdr (k @ bs @ p) ob f a) = Some (length xs, rdr (bs @ p) ob f (a + length xs))"
    using assms put_strings_length [OF assms(2,4)] by (subst read_ae_size_rdr) auto
  then show ?thesis using assms repeat_read_strings [OF assms(2,4), of "Suc c" "[]"] by (simp add: read_ae_string_def)
qed

text \<open>The reader that the type of an entry selects.\<close>

lemma load_entry_type:
  assumes "t AND SERIALIZE_FLAG_ARRAY = 0" "c + 3 < RECURSION_LIMIT"
  shows "load_storage_entry c (rdr (t # p) ob f a)
    = (if t = SERIALIZE_TYPE_INT64 then read_se_pod 8 (\<lambda>b. SE_int64 (le_word b)) (Suc c) (rdr p ob f a)
       else if t = SERIALIZE_TYPE_INT32 then read_se_pod 4 (\<lambda>b. SE_int32 (le_word b)) (Suc c) (rdr p ob f a)
       else if t = SERIALIZE_TYPE_INT16 then read_se_pod 2 (\<lambda>b. SE_int16 (le_word b)) (Suc c) (rdr p ob f a)
       else if t = SERIALIZE_TYPE_INT8 then read_se_pod 1 (\<lambda>b. SE_int8 (le_word b)) (Suc c) (rdr p ob f a)
       else if t = SERIALIZE_TYPE_UINT64 then read_se_pod 8 (\<lambda>b. SE_uint64 (le_word b)) (Suc c) (rdr p ob f a)
       else if t = SERIALIZE_TYPE_UINT32 then read_se_pod 4 (\<lambda>b. SE_uint32 (le_word b)) (Suc c) (rdr p ob f a)
       else if t = SERIALIZE_TYPE_UINT16 then read_se_pod 2 (\<lambda>b. SE_uint16 (le_word b)) (Suc c) (rdr p ob f a)
       else if t = SERIALIZE_TYPE_UINT8 then read_se_pod 1 (\<lambda>b. SE_uint8 (le_word b)) (Suc c) (rdr p ob f a)
       else if t = SERIALIZE_TYPE_DUOBLE then read_se_pod 8 (\<lambda>b. SE_double (le_word b)) (Suc c) (rdr p ob f a)
       else if t = SERIALIZE_TYPE_BOOL then read_se_pod 1 (\<lambda>b. SE_bool (get_bool b)) (Suc c) (rdr p ob f a)
       else if t = SERIALIZE_TYPE_STRING then read_se_string (Suc c) (rdr p ob f a)
       else if t = SERIALIZE_TYPE_OBJECT then
         (if \<not> ob < OBJECT_LIMIT then None
          else do { (s, r) \<leftarrow> read_section (Suc (Suc c)) (rdr p (ob + 1) f a); Some (SE_section s, r) })
       else if t = SERIALIZE_TYPE_ARRAY then
         do { (b, r) \<leftarrow> read_pod (Suc (Suc c)) 1 (rdr p ob f a);
              if \<not> hd b AND SERIALIZE_FLAG_ARRAY \<noteq> 0 then None else load_storage_array_entry (Suc (Suc c)) (hd b) r }
       else None)"
  using assms by (simp add: load_storage_entry.simps [of c] Let_def)

text \<open>The type byte of an array.\<close>

lemma array_type_byte:
  "t = take_bit 7 t \<Longrightarrow> (t OR SERIALIZE_FLAG_ARRAY) AND NOT SERIALIZE_FLAG_ARRAY = t"
  "(t OR SERIALIZE_FLAG_ARRAY) AND SERIALIZE_FLAG_ARRAY \<noteq> 0"
proof -
  have F7: "SERIALIZE_FLAG_ARRAY = 2 ^ 7" by (simp add: SERIALIZE_FLAG_ARRAY_def)
  have F: "bit SERIALIZE_FLAG_ARRAY k \<longleftrightarrow> k = 7" for k unfolding F7 bit_exp_iff by auto
  show "(t OR SERIALIZE_FLAG_ARRAY) AND NOT SERIALIZE_FLAG_ARRAY = t" if "t = take_bit 7 t"
  proof (rule bit_word_eqI)
    fix k assume "k < LENGTH(8)"
    have "bit t k \<Longrightarrow> k < 7" using bit_take_bit_iff [of 7 t k] that by auto
    then show "bit ((t OR SERIALIZE_FLAG_ARRAY) AND NOT SERIALIZE_FLAG_ARRAY) k = bit t k"
      using \<open>k < LENGTH(8)\<close> by (auto simp: F bit_simps)
  qed
  have "bit ((t OR SERIALIZE_FLAG_ARRAY) AND SERIALIZE_FLAG_ARRAY) 7" by (simp add: F bit_simps)
  then show "(t OR SERIALIZE_FLAG_ARRAY) AND SERIALIZE_FLAG_ARRAY \<noteq> 0" by (metis bit_0_eq bot_apply bot_bool_def)
qed

lemma load_array_head:
  assumes "c + 3 < RECURSION_LIMIT"
  shows "load_storage_entry c (rdr ((t OR SERIALIZE_FLAG_ARRAY) # p) ob f a)
    = load_storage_array_entry (Suc c) (t OR SERIALIZE_FLAG_ARRAY) (rdr p ob f a)"
  using assms array_type_byte(2) [of t] by (simp add: load_storage_entry.simps [of c] Let_def)

lemma pack_array_head_Some:
  "pack_array_head t n = Some h \<longleftrightarrow> (\<exists>k. pack_varint (of_nat n) = Some k \<and> h = (t OR SERIALIZE_FLAG_ARRAY) # k)"
  by (auto simp: pack_array_head_def split: bind_splits)

text \<open>The reader that the type of an array selects.\<close>

lemma type_codes:
  "SERIALIZE_TYPE_UINT64 = take_bit 7 SERIALIZE_TYPE_UINT64" "SERIALIZE_TYPE_UINT32 = take_bit 7 SERIALIZE_TYPE_UINT32"
  "SERIALIZE_TYPE_UINT16 = take_bit 7 SERIALIZE_TYPE_UINT16" "SERIALIZE_TYPE_UINT8 = take_bit 7 SERIALIZE_TYPE_UINT8"
  "SERIALIZE_TYPE_INT64 = take_bit 7 SERIALIZE_TYPE_INT64" "SERIALIZE_TYPE_INT32 = take_bit 7 SERIALIZE_TYPE_INT32"
  "SERIALIZE_TYPE_INT16 = take_bit 7 SERIALIZE_TYPE_INT16" "SERIALIZE_TYPE_INT8 = take_bit 7 SERIALIZE_TYPE_INT8"
  "SERIALIZE_TYPE_DUOBLE = take_bit 7 SERIALIZE_TYPE_DUOBLE" "SERIALIZE_TYPE_BOOL = take_bit 7 SERIALIZE_TYPE_BOOL"
  "SERIALIZE_TYPE_STRING = take_bit 7 SERIALIZE_TYPE_STRING" "SERIALIZE_TYPE_OBJECT = take_bit 7 SERIALIZE_TYPE_OBJECT"
  "SERIALIZE_TYPE_ARRAY = take_bit 7 SERIALIZE_TYPE_ARRAY"
  by (simp_all add: serialize_types)

lemma load_array_type:
  assumes "c + 1 < RECURSION_LIMIT" "t = take_bit 7 t"
  shows "load_storage_array_entry c (t OR SERIALIZE_FLAG_ARRAY) r
    = (if t = SERIALIZE_TYPE_INT64 then read_ae_pod 8 le_word AE_int64 (Suc c) r
       else if t = SERIALIZE_TYPE_INT32 then read_ae_pod 4 le_word AE_int32 (Suc c) r
       else if t = SERIALIZE_TYPE_INT16 then read_ae_pod 2 le_word AE_int16 (Suc c) r
       else if t = SERIALIZE_TYPE_INT8 then read_ae_pod 1 le_word AE_int8 (Suc c) r
       else if t = SERIALIZE_TYPE_UINT64 then read_ae_pod 8 le_word AE_uint64 (Suc c) r
       else if t = SERIALIZE_TYPE_UINT32 then read_ae_pod 4 le_word AE_uint32 (Suc c) r
       else if t = SERIALIZE_TYPE_UINT16 then read_ae_pod 2 le_word AE_uint16 (Suc c) r
       else if t = SERIALIZE_TYPE_UINT8 then read_ae_pod 1 le_word AE_uint8 (Suc c) r
       else if t = SERIALIZE_TYPE_DUOBLE then read_ae_pod 8 le_word AE_double (Suc c) r
       else if t = SERIALIZE_TYPE_BOOL then read_ae_pod 1 get_bool AE_bool (Suc c) r
       else if t = SERIALIZE_TYPE_STRING then read_ae_string (Suc c) r
       else if t = SERIALIZE_TYPE_OBJECT then
         do { c \<leftarrow> recursion_guard (Suc c);
              (sz, r) \<leftarrow> read_ae_size 1 256 True c r;
              (xs, r) \<leftarrow> repeat_m sz (push_back_read (\<lambda>r. do { c \<leftarrow> recursion_guard c; read_section c r })) ([], r);
              Some (SE_array (AE_section xs), r) }
       else if t = SERIALIZE_TYPE_ARRAY then read_ae_array (Suc c) r
       else None)"
  using assms(1) array_type_byte(1) [OF assms(2)] by (simp add: load_storage_array_entry.simps [of c] Let_def)

lemma load_array_select:
  assumes "c + 2 < RECURSION_LIMIT"
  shows "load_storage_array_entry c (SERIALIZE_TYPE_STRING OR SERIALIZE_FLAG_ARRAY) r = read_ae_string (Suc c) r"
    "load_storage_array_entry c (SERIALIZE_TYPE_OBJECT OR SERIALIZE_FLAG_ARRAY) r =
       do { (sz, r) \<leftarrow> read_ae_size 1 256 True (Suc (Suc c)) r;
            (xs, r) \<leftarrow> repeat_m sz (push_back_read (\<lambda>r. do { c \<leftarrow> recursion_guard (Suc (Suc c)); read_section c r })) ([], r);
            Some (SE_array (AE_section xs), r) }"
    "load_storage_array_entry c (SERIALIZE_TYPE_ARRAY OR SERIALIZE_FLAG_ARRAY) r = read_ae_array (Suc c) r"
  using assms load_array_type [OF _ type_codes(11), of c r] load_array_type [OF _ type_codes(12), of c r]
    load_array_type [OF _ type_codes(13), of c r]
  by (simp_all add: serialize_types)

definition pod_array :: "u8 \<Rightarrow> nat \<Rightarrow> ('a \<Rightarrow> bytes) \<Rightarrow> (bytes \<Rightarrow> 'a) \<Rightarrow> ('a list \<Rightarrow> array_entry) \<Rightarrow> bool" where
  "pod_array t n put get mk \<longleftrightarrow> t = take_bit 7 t \<and> 0 < n \<and> (\<forall>x. length (put x) = n \<and> get (put x) = x)
    \<and> (\<forall>c r. c + 1 < RECURSION_LIMIT \<longrightarrow> load_storage_array_entry c (t OR SERIALIZE_FLAG_ARRAY) r = read_ae_pod n get mk (Suc c) r)"

lemma pod_arrays:
  "pod_array SERIALIZE_TYPE_UINT64 8 (le_split 8) le_word AE_uint64"
  "pod_array SERIALIZE_TYPE_UINT32 4 (le_split 4) le_word AE_uint32"
  "pod_array SERIALIZE_TYPE_UINT16 2 (le_split 2) le_word AE_uint16"
  "pod_array SERIALIZE_TYPE_UINT8 1 (le_split 1) le_word AE_uint8"
  "pod_array SERIALIZE_TYPE_INT64 8 (le_split 8) le_word AE_int64"
  "pod_array SERIALIZE_TYPE_INT32 4 (le_split 4) le_word AE_int32"
  "pod_array SERIALIZE_TYPE_INT16 2 (le_split 2) le_word AE_int16"
  "pod_array SERIALIZE_TYPE_INT8 1 (le_split 1) le_word AE_int8"
  "pod_array SERIALIZE_TYPE_DUOBLE 8 (le_split 8) le_word AE_double"
  "pod_array SERIALIZE_TYPE_BOOL 1 put_bool get_bool AE_bool"
  unfolding pod_array_def using type_codes type_codes [THEN load_array_type [rotated]] by (simp_all add: serialize_types)

lemma load_pod_array:
  assumes pod: "pod_array t n put get mk" and bs: "pack_pod_array_type t put xs = Some bs"
    and lim: "a + length xs \<le> 8192" "c + 8 < RECURSION_LIMIT"
  shows "load_storage_entry c (rdr (bs @ p) ob f a) = Some (SE_array (mk xs), rdr p ob f (a + length xs))"
proof -
  obtain k where k: "pack_varint (of_nat (length xs)) = Some k" "bs = (t OR SERIALIZE_FLAG_ARRAY) # k @ concat (map put xs)"
    using bs by (auto simp: pack_pod_array_type_def pack_array_head_Some split: bind_splits)
  have "load_storage_array_entry (Suc c) (t OR SERIALIZE_FLAG_ARRAY) r = read_ae_pod n get mk (Suc (Suc c)) r" for r
    using pod lim(2) by (simp add: pod_array_def)
  then show ?thesis
    using read_ae_pod_rdr [OF k(1) lim(1), of "Suc (Suc c)" n put get mk] lim(2) pod by (simp add: k(2) load_array_head pod_array_def)
qed

subsection \<open>Sections\<close>

definition field_step :: "nat \<Rightarrow> (bytes \<times> storage_entry) list \<times> throwable_buffer_reader
    \<Rightarrow> ((bytes \<times> storage_entry) list \<times> throwable_buffer_reader) option" where
  "field_step c = (\<lambda>(es, r). do {
     (sec_name, r) \<leftarrow> read_sec_name c r;
     if map_find es sec_name \<noteq> None then None
     else do { (e, r) \<leftarrow> load_storage_entry c r; Some (map_put es sec_name e, r) } })"

lemma read_section_fields:
  assumes "c + 1 < RECURSION_LIMIT"
  shows "read_section c r =
    do { (count, r) \<leftarrow> reader_read_varint (Suc c) r;
         if \<not> unat count \<le> OBJECT_FIELD_LIMIT - m_fields r then None
         else do { (es, r) \<leftarrow> repeat_m (unat count) (field_step (Suc c)) ([], r\<lparr>m_fields := m_fields r + unat count\<rparr>);
                   Some (Section es, r) } }"
  unfolding field_step_def using assms by (simp add: read_section.simps [of c])

lemma map_put_last: "list_all (\<lambda>(n, e). n < name) es \<Longrightarrow> map_put es name v = es @ [(name, v)]"
  by (induction es) auto

lemma map_find_fresh: "list_all (\<lambda>(n, e). n < (name :: 'k :: linorder)) es \<Longrightarrow> map_find es name = None"
  by (induction es) (auto simp: map_find_def)

definition fits :: "nat \<Rightarrow> nat \<Rightarrow> nat \<Rightarrow> bool" where
  "fits ob f a = (ob \<le> OBJECT_LIMIT \<and> f \<le> OBJECT_FIELD_LIMIT \<and> a \<le> 8192)"

lemma pack_section_length: "pack_section s = Some bs \<Longrightarrow> 1 \<le> length bs"
  by (cases s) (auto split: bind_splits dest: pack_varint_length)

lemma pack_sections_length: "pack_sections ss = Some bs \<Longrightarrow> length ss \<le> length bs"
proof (induction ss arbitrary: bs)
  case (Cons s ss)
  then obtain x y where "pack_section s = Some x" "pack_sections ss = Some y" "bs = x @ y" by (auto split: bind_splits)
  then show ?case using Cons.IH [of y] pack_section_length [of s x] by simp
qed simp

text \<open>One field, one section, one array of strings and one array of sections.\<close>

lemma field_step_append:
  assumes "pack_name name = Some n" "list_all (\<lambda>(n, e). n < name) acc" "c + 10 < RECURSION_LIMIT"
    "load_storage_entry (Suc c) (rdr p ob f a) = Some (e, r)"
  shows "field_step (Suc c) (acc, rdr (n @ p) ob f a) = Some (acc @ [(name, e)], r)"
  using assms by (simp add: field_step_def map_find_fresh map_put_last)

lemma read_section_loop:
  assumes k: "pack_varint (of_nat (length es)) = Some k" and c: "c + 10 < RECURSION_LIMIT" and f: "f + length es \<le> OBJECT_FIELD_LIMIT"
    and loop: "repeat_m (length es) (field_step (Suc c)) ([], rdr p ob (f + length es) a) = Some (es, r)"
  shows "read_section c (rdr (k @ p) ob f a) = Some (Section es, r)"
proof -
  have "length es \<le> OBJECT_FIELD_LIMIT - f" "unat (of_nat (length es) :: u64) = length es"
    using f by (auto intro!: unat_of_nat_u64 simp: OBJECT_FIELD_LIMIT_def)
  then show ?thesis using k c loop by (simp add: read_section_fields)
qed

lemma load_string_array:
  assumes "pack_varint (of_nat (length v)) = Some k" "put_strings v = Some x" "a + length v \<le> 8192"
    "list_all (\<lambda>v. 0 < length v \<and> length v < 2000000000) v" "c + 10 < RECURSION_LIMIT"
  shows "load_storage_entry (Suc c) (rdr ((SERIALIZE_TYPE_STRING OR SERIALIZE_FLAG_ARRAY) # k @ x @ p) ob f a)
    = Some (SE_array (AE_string v), rdr p ob f (a + length v))"
  using assms read_ae_string_rdr [OF assms(1-4)] by (simp add: load_array_head load_array_select)

lemma load_section_array:
  assumes "pack_varint (of_nat (length v)) = Some k" "pack_sections v = Some x" "a + length v \<le> 8192" "ob + length v \<le> OBJECT_LIMIT"
    "c + 9 < RECURSION_LIMIT"
    "repeat_m (length v) (push_back_read (\<lambda>r. do { c \<leftarrow> recursion_guard (Suc (Suc (Suc c))); read_section c r }))
      ([], rdr (x @ p) (ob + length v) f (a + length v)) = Some (v, r)"
  shows "load_storage_entry c (rdr ((SERIALIZE_TYPE_OBJECT OR SERIALIZE_FLAG_ARRAY) # k @ x @ p) ob f a) = Some (SE_array (AE_section v), r)"
proof -
  have "read_ae_size 1 256 True (Suc (Suc (Suc c))) (rdr (k @ x @ p) ob f a)
      = Some (length v, rdr (x @ p) (ob + length v) f (a + length v))"
    using assms(3-5) pack_sections_length [OF assms(2)] by (subst read_ae_size_rdr [OF assms(1)]) auto
  then show ?thesis using assms(5,6) by (simp add: load_array_head load_array_select)
qed

lemma storage_roundtrip_induct:
  fixes e :: storage_entry and s :: ps_section and ar :: array_entry and es :: "(bytes \<times> storage_entry) list"
    and ss :: "ps_section list" and ars :: "array_entry list"
  shows "\<And>c bs p ob f a. pack_entry e = Some bs \<Longrightarrow> loadable_e c e \<Longrightarrow> c + 10 < RECURSION_LIMIT \<Longrightarrow>
      fits (ob + objects_e e) (f + fields_e e) (a + elements_e e) \<Longrightarrow>
      load_storage_entry (Suc c) (rdr (bs @ p) ob f a) = Some (e, rdr p (ob + objects_e e) (f + fields_e e) (a + elements_e e))"
    and "\<And>c bs p ob f a. pack_section s = Some bs \<Longrightarrow> loadable_s c s \<Longrightarrow>
      fits (ob + objects_s s) (f + fields_s s) (a + elements_s s) \<Longrightarrow>
      read_section c (rdr (bs @ p) ob f a) = Some (s, rdr p (ob + objects_s s) (f + fields_s s) (a + elements_s s))"
    and "\<And>c bs p ob f a. pack_array ar = Some bs \<Longrightarrow> loadable_a c ar \<Longrightarrow> c + 10 < RECURSION_LIMIT \<Longrightarrow>
      fits (ob + objects_a ar) (f + fields_a ar) (a + elements_a ar) \<Longrightarrow>
      load_storage_entry (Suc c) (rdr (bs @ p) ob f a)
        = Some (SE_array ar, rdr p (ob + objects_a ar) (f + fields_a ar) (a + elements_a ar))"
    and "\<And>c bs p ob f a acc. pack_entries es = Some bs \<Longrightarrow> loadable_s c (Section es) \<Longrightarrow>
      list_all (\<lambda>(n, e). list_all (\<lambda>(n', e'). n < n') es) acc \<Longrightarrow>
      fits (ob + objects_s (Section es)) (f + (\<Sum>(name, e)\<leftarrow>es. fields_e e)) (a + elements_s (Section es)) \<Longrightarrow>
      repeat_m (length es) (field_step (Suc c)) (acc, rdr (bs @ p) ob f a)
        = Some (acc @ es, rdr p (ob + objects_s (Section es)) (f + (\<Sum>(name, e)\<leftarrow>es. fields_e e)) (a + elements_s (Section es)))"
    and "\<And>c bs p ob f a acc. pack_sections ss = Some bs \<Longrightarrow> list_all (loadable_s (Suc c)) ss \<Longrightarrow> c + 1 < RECURSION_LIMIT \<Longrightarrow>
      fits (ob + (\<Sum>s\<leftarrow>ss. objects_s s)) (f + (\<Sum>s\<leftarrow>ss. fields_s s)) (a + (\<Sum>s\<leftarrow>ss. elements_s s)) \<Longrightarrow>
      repeat_m (length ss) (push_back_read (\<lambda>r. do { c \<leftarrow> recursion_guard c; read_section c r })) (acc, rdr (bs @ p) ob f a)
        = Some (acc @ ss, rdr p (ob + (\<Sum>s\<leftarrow>ss. objects_s s)) (f + (\<Sum>s\<leftarrow>ss. fields_s s)) (a + (\<Sum>s\<leftarrow>ss. elements_s s)))"
    and "True"
proof (induction e and s and ar and es and ss and ars rule: pack_entry_pack_section_pack_array_pack_entries_pack_sections_pack_arrays.induct)
  case (11 v)
  then show ?case by (auto simp: load_entry_type serialize_types split: bind_splits)
next
  case (12 v c bs p ob f a)
  then obtain x where x: "pack_section v = Some x" "bs = SERIALIZE_TYPE_OBJECT # x" by (auto split: bind_splits)
  have "read_section (c + 3) (rdr (x @ p) (ob + 1) f a)
      = Some (v, rdr p (ob + 1 + objects_s v) (f + fields_s v) (a + elements_s v))"
    using 12 x by simp
  then show ?case using 12(4,5) x(2) by (simp add: load_entry_type serialize_types fits_def numeral_3_eq_3)
next
  case (14 es c bs p ob f a)
  then obtain k x where x: "pack_varint (of_nat (length es)) = Some k" "pack_entries es = Some x" "bs = k @ x"
    by (auto split: bind_splits)
  have "repeat_m (length es) (field_step (Suc c)) ([], rdr (x @ p) ob (f + length es) a)
      = Some (es, rdr p (ob + objects_s (Section es)) (f + fields_s (Section es)) (a + elements_s (Section es)))"
    using 14(1) [OF x(1,2) 14(3), of "[]" ob "f + length es" a p] 14(4) by (simp add: add.assoc)
  then show ?case using read_section_loop [OF x(1)] 14(3,4) by (simp add: x(3) fits_def)
next
  case (25 v c bs p ob f a)
  then show ?case by (auto simp: pack_array_head_Some fits_def load_string_array split: bind_splits)
next
  case (26 v c bs p ob f a)
  then obtain k x where x: "pack_varint (of_nat (length v)) = Some k" "pack_sections v = Some x"
    "bs = (SERIALIZE_TYPE_OBJECT OR SERIALIZE_FLAG_ARRAY) # k @ x" "pack_array_head SERIALIZE_TYPE_OBJECT (length v)
      = Some ((SERIALIZE_TYPE_OBJECT OR SERIALIZE_FLAG_ARRAY) # k)"
    by (auto simp: pack_array_head_Some split: bind_splits)
  have c: "c + 5 = Suc (Suc (Suc (Suc (Suc c))))" by simp
  have l: "list_all (loadable_s (Suc (Suc (Suc (Suc (Suc c)))))) v" using 26(3) by (simp only: loadable_a.simps c)
  have "repeat_m (length v) (push_back_read (\<lambda>r. do { c \<leftarrow> recursion_guard (Suc (Suc (Suc (Suc c)))); read_section c r }))
      ([], rdr (x @ p) (ob + length v) f (a + length v))
    = Some (v, rdr p (ob + objects_a (AE_section v)) (f + fields_a (AE_section v)) (a + elements_a (AE_section v)))"
    using 26(1) [OF x(4,2) l, of "ob + length v" f "a + length v" "[]" p] 26(4,5) by (simp add: add.assoc)
  then show ?case using load_section_array [OF x(1,2), of a ob "Suc c"] 26(4,5) by (simp add: x(3) fits_def)
next
  case (27 v c bs p ob f a)
  then obtain k where k: "v = []" "pack_varint (of_nat 0) = Some k" "bs = (SERIALIZE_TYPE_ARRAY OR SERIALIZE_FLAG_ARRAY) # k"
    by (auto simp: pack_array_head_Some split: bind_splits)
  then have "read_ae_size 1 128 False (Suc (Suc (Suc (Suc c)))) (rdr (k @ p) ob f a) = Some (0, rdr p ob f a)"
    using 27(4,5) by (subst read_ae_size_rdr [OF k(2)]) (auto simp: fits_def)
  then show ?case using 27(4) k(1,3)
    by (simp add: load_array_head load_array_select read_ae_array_def)
next
  case (29 name e es c bs p ob f a acc)
  then obtain n x y where x: "pack_name name = Some n" "pack_entry e = Some x" "pack_entries es = Some y" "bs = n @ x @ y"
    by (auto split: bind_splits)
  have c: "c + 10 < RECURSION_LIMIT" and e: "loadable_e c e" and es: "loadable_s c (Section es)"
    and less: "list_all (\<lambda>(n', e'). name < n') es"
    using 29(4) by (auto simp: map_wf_def list_all_iff)
  have fresh: "list_all (\<lambda>(n, e). n < name) acc" and acc: "list_all (\<lambda>(n, e). list_all (\<lambda>(n', e'). n < n') es) acc"
    using 29(5) by (auto simp: list_all_iff)
  have "load_storage_entry (Suc c) (rdr (x @ y @ p) ob f a)
      = Some (e, rdr (y @ p) (ob + objects_e e) (f + fields_e e) (a + elements_e e))"
    using 29(6) by (intro 29(1) [OF x(1,2) e c]) (simp add: fits_def)
  then show ?case
    using 29(2) [OF x(1-3) es, of "acc @ [(name, e)]" "ob + objects_e e" "f + fields_e e" "a + elements_e e" p] acc less 29(6)
    by (simp add: field_step_append [OF x(1) fresh] c x(4) add.assoc)
next
  case (31 s ss c bs p ob f a acc)
  then obtain x y where x: "pack_section s = Some x" "pack_sections ss = Some y" "bs = x @ y"
    by (auto split: bind_splits)
  let ?ob = "ob + objects_s s" and ?f = "f + fields_s s" and ?a = "a + elements_s s"
  have "read_section (Suc c) (rdr (x @ y @ p) ob f a) = Some (s, rdr (y @ p) ?ob ?f ?a)"
    using 31(4,6) by (intro 31(1) [OF x(1)]) (simp_all add: fits_def)
  then show ?case using 31(2) [OF x(1,2), of c ?ob ?f ?a "acc @ [s]" p] 31(4-6)
    by (simp add: push_back_read_def x(3) add.assoc)
qed (auto simp: pack_pod_type_def load_entry_type serialize_types load_pod_array [OF pod_arrays(1)]
    load_pod_array [OF pod_arrays(2)] load_pod_array [OF pod_arrays(3)] load_pod_array [OF pod_arrays(4)] load_pod_array [OF pod_arrays(5)]
    load_pod_array [OF pod_arrays(6)] load_pod_array [OF pod_arrays(7)] load_pod_array [OF pod_arrays(8)] load_pod_array [OF pod_arrays(9)]
    load_pod_array [OF pod_arrays(10)] fits_def)

subsection \<open>The writer does not throw\<close>

lemma pack_varint_small: "n < 2 ^ 62 \<Longrightarrow> \<exists>k. pack_varint (of_nat n) = Some k"
  using unat_of_nat_u64 [of n] by (auto simp: pack_varint_def word_le_nat_alt)

lemma pack_array_head_small: "n \<le> 8192 \<Longrightarrow> \<exists>h. pack_array_head t n = Some h"
  using pack_varint_small [of n] by (auto simp: pack_array_head_Some)

lemma pack_pod_array_small: "length xs \<le> 8192 \<Longrightarrow> \<exists>bs. pack_pod_array_type t put xs = Some bs"
  using pack_array_head_small [of "length xs" t] by (auto simp: pack_pod_array_type_def)

lemma put_string_small: "length v < 2000000000 \<Longrightarrow> \<exists>bs. put_string v = Some bs"
  using pack_varint_small [of "length v"] by (auto simp: put_string_def)

lemma put_strings_small:
  "list_all (\<lambda>v. 0 < length v \<and> length v < 2000000000) vs \<Longrightarrow> \<exists>bs. put_strings vs = Some bs"
proof (induction vs)
  case (Cons v vs)
  then show ?case using put_string_small [of v] by auto
qed simp

lemma pack_total:
  fixes e :: storage_entry and s :: ps_section and ar :: array_entry and es :: "(bytes \<times> storage_entry) list"
    and ss :: "ps_section list" and ars :: "array_entry list"
  shows "\<And>c. loadable_e c e \<Longrightarrow> fields_e e \<le> OBJECT_FIELD_LIMIT \<Longrightarrow> elements_e e \<le> 8192 \<Longrightarrow> \<exists>bs. pack_entry e = Some bs"
    and "\<And>c. loadable_s c s \<Longrightarrow> fields_s s \<le> OBJECT_FIELD_LIMIT \<Longrightarrow> elements_s s \<le> 8192 \<Longrightarrow> \<exists>bs. pack_section s = Some bs"
    and "\<And>c. loadable_a c ar \<Longrightarrow> fields_a ar \<le> OBJECT_FIELD_LIMIT \<Longrightarrow> elements_a ar \<le> 8192 \<Longrightarrow> \<exists>bs. pack_array ar = Some bs"
    and "\<And>c. loadable_s c (Section es) \<Longrightarrow> fields_s (Section es) \<le> OBJECT_FIELD_LIMIT \<Longrightarrow> elements_s (Section es) \<le> 8192
      \<Longrightarrow> \<exists>bs. pack_entries es = Some bs"
    and "\<And>c. list_all (loadable_s c) ss \<Longrightarrow> (\<Sum>s\<leftarrow>ss. fields_s s) \<le> OBJECT_FIELD_LIMIT
      \<Longrightarrow> (\<Sum>s\<leftarrow>ss. elements_s s) \<le> 8192 \<Longrightarrow> \<exists>bs. pack_sections ss = Some bs"
    and "ars = [] \<Longrightarrow> \<exists>bs. pack_arrays ars = Some bs"
proof (induction e and s and ar and es and ss and ars rule: pack_entry_pack_section_pack_array_pack_entries_pack_sections_pack_arrays.induct)
  case (11 v)
  then show ?case using put_string_small [of v] by auto
next
  case (14 es c)
  then obtain k where k: "pack_varint (of_nat (length es)) = Some k"
    using pack_varint_small [of "length es"] by (auto simp: OBJECT_FIELD_LIMIT_def)
  then show ?case using 14(1) [OF k 14(2-4)] by auto
next
  case (25 v)
  then show ?case using pack_array_head_small [of "length v" SERIALIZE_TYPE_STRING] put_strings_small [of v] by auto
next
  case (26 v c)
  then obtain h where h: "pack_array_head SERIALIZE_TYPE_OBJECT (length v) = Some h"
    using pack_array_head_small [of "length v" SERIALIZE_TYPE_OBJECT] by auto
  then show ?case using 26(1) [OF h, of "c + 5"] 26(2-4) by auto
next
  case (27 v)
  then show ?case using pack_array_head_small [of 0 SERIALIZE_TYPE_ARRAY] by auto
next
  case (29 name e es)
  obtain n where n: "pack_name name = Some n" using 29(3) by (auto simp: pack_name_def)
  have "\<exists>x. pack_entry e = Some x" using 29(3-5) by (intro 29(1) [OF n]) auto
  moreover have "\<exists>y. pack_entries es = Some y" if "pack_entry e = Some x" for x
    using 29(3-5) by (intro 29(2) [OF n that]) (auto simp: map_wf_def)
  ultimately show ?case using n by auto
next
  case (12 v c)
  then have "\<exists>x. pack_section v = Some x" by (intro 12(1) [of "c + 3"]) auto
  then show ?case by auto
next
  case (31 s ss c)
  have "\<exists>x. pack_section s = Some x" using 31(3-5) by (intro 31(1) [of c]) auto
  moreover have "\<exists>y. pack_sections ss = Some y" if "pack_section s = Some x" for x
    using 31(3-5) by (intro 31(2) [OF that, of c]) auto
  ultimately show ?case by auto
qed (auto simp: pack_pod_type_def pack_pod_array_small)

text \<open>C2: a tree with well-formed names, nested and filled within the limits of the reader, can be stored, and loading the
  stored bytes gives the tree back.\<close>

theorem storage_roundtrip:
  assumes "loadable_s 0 s" "fields_s s \<le> OBJECT_FIELD_LIMIT" "objects_s s \<le> OBJECT_LIMIT" "elements_s s \<le> 8192"
  shows "\<exists>bs. store_to_binary s = Some bs \<and> load_from_binary bs = Some s"
proof -
  obtain x where x: "pack_section s = Some x" using pack_total(2) assms by blast
  have ne: "x \<noteq> []" using pack_section_length [OF x] by auto
  have h: "length storage_block_header = 9" "take 4 (storage_block_header @ x) = le_split 4 PORTABLE_STORAGE_SIGNATUREA"
    "take 4 (drop 4 (storage_block_header @ x)) = le_split 4 PORTABLE_STORAGE_SIGNATUREB"
    "(storage_block_header @ x) ! 8 = PORTABLE_STORAGE_FORMAT_VER"
    by (simp_all add: storage_block_header_def nth_append)
  have "read_section 0 (rdr (x @ []) 0 0 0) = Some (s, rdr [] (0 + objects_s s) (0 + fields_s s) (0 + elements_s s))"
    using assms by (intro storage_roundtrip_induct(2) [OF x]) (simp_all add: fits_def)
  then show ?thesis
    using h x ne by (simp add: store_to_binary_def load_from_binary_def new_reader_def flip: rdr_def)
qed

lemma storage_roundtrip_witness:
  "\<exists>bs. store_to_binary (Section [([97], SE_uint64 5), ([98], SE_array (AE_string [[1]]))]) = Some bs
    \<and> load_from_binary bs = Some (Section [([97], SE_uint64 5), ([98], SE_array (AE_string [[1]]))])"
  by (rule storage_roundtrip) (simp_all add: RECURSION_LIMIT_def OBJECT_FIELD_LIMIT_def OBJECT_LIMIT_def map_wf_def)


section \<open>What the reader accepts\<close>

fun wf_e :: "storage_entry \<Rightarrow> bool" and wf_s :: "ps_section \<Rightarrow> bool" and wf_a :: "array_entry \<Rightarrow> bool" where
  "wf_e (SE_section s) = wf_s s"
| "wf_e (SE_array a) = wf_a a"
| "wf_e (SE_string v) = (length v < 2000000000)"
| "wf_e _ = True"
| "wf_s (Section es) = (map_wf es \<and> list_all (\<lambda>(name, e). 0 < length name \<and> length name \<le> 255 \<and> wf_e e) es)"
| "wf_a (AE_section ss) = list_all wf_s ss"
| "wf_a (AE_string vs) = list_all (\<lambda>v. length v < 2000000000) vs"
| "wf_a (AE_array as) = (as = [])"
| "wf_a _ = True"

definition within :: "throwable_buffer_reader \<Rightarrow> bool" where
  "within r = (m_objects r \<le> OBJECT_LIMIT \<and> m_fields r \<le> OBJECT_FIELD_LIMIT \<and> m_array_elements r < ARRAY_ELEMENT_LIMIT)"

text \<open>The counters grow by the given numbers and stay within the limits.\<close>

definition grows_by :: "throwable_buffer_reader \<Rightarrow> throwable_buffer_reader \<Rightarrow> nat \<Rightarrow> nat \<Rightarrow> nat \<Rightarrow> bool" where
  "grows_by r r' ob f a = (m_objects r' = m_objects r + ob \<and> m_fields r' = m_fields r + f
    \<and> m_array_elements r' = m_array_elements r + a \<and> (within r \<longrightarrow> within r'))"

lemma grows_by_trans: "grows_by r r' ob f a \<Longrightarrow> grows_by r' r'' ob' f' a' \<Longrightarrow> grows_by r r'' (ob + ob') (f + f') (a + a')"
  by (auto simp: grows_by_def)

lemma read_mem_grows: "read_mem c n r = Some (b, r') \<Longrightarrow> grows_by r r' 0 0 0 \<and> length b = n"
  by (auto simp: read_mem_def grows_by_def within_def split: bind_splits if_splits)

lemma read_pod_grows: "read_pod c n r = Some (b, r') \<Longrightarrow> grows_by r r' 0 0 0 \<and> length b = n"
  by (auto simp: read_pod_def split: bind_splits dest: read_mem_grows)

lemma read_value_grows: "read_value c n r = Some (b, r') \<Longrightarrow> grows_by r r' 0 0 0 \<and> length b = n"
  by (auto simp: read_value_def split: bind_splits dest: read_pod_grows)

lemma read_varint_grows: "reader_read_varint c r = Some (v, r') \<Longrightarrow> grows_by r r' 0 0 0"
  by (auto simp: reader_read_varint_def Let_def split: bind_splits if_splits dest: read_value_grows)

lemma read_string_grows: "read_string c r = Some (v, r') \<Longrightarrow> grows_by r r' 0 0 0 \<and> length v < 2000000000"
  by (auto simp: read_string_def MAX_STRING_LEN_POSSIBLE_def word_less_nat_alt split: bind_splits if_splits prod.splits
      dest!: read_varint_grows) (auto simp: grows_by_def within_def)

lemma read_sec_name_grows: "read_sec_name c r = Some (v, r') \<Longrightarrow> grows_by r r' 0 0 0 \<and> 0 < length v \<and> length v \<le> 255"
proof -
  assume "read_sec_name c r = Some (v, r')"
  then obtain c' b r1 where b: "read_pod c' 1 r = Some (b, r1)" "hd b > 0" "read_mem c' (unat (hd b)) r1 = Some (v, r')"
    by (auto simp: read_sec_name_def split: bind_splits if_splits)
  have "0 < unat (hd b)" "unat (hd b) \<le> 255" using b(2) unat_u8_bound [of "hd b"] by (auto simp: word_less_nat_alt)
  then show ?thesis using read_pod_grows [OF b(1)] read_mem_grows [OF b(3)] grows_by_trans [of r r1 0 0 0 r' 0 0 0] by auto
qed

lemma push_back_grows:
  assumes "\<And>r x r'. g r = Some (x, r') \<Longrightarrow> grows_by r r' (nob x) (nf x) (na x) \<and> Q x"
    and "repeat_m n (push_back_read g) (xs, r) = Some (ys, r')"
  shows "\<exists>zs. ys = xs @ zs \<and> length zs = n \<and> list_all Q zs
    \<and> grows_by r r' (\<Sum>x\<leftarrow>zs. nob x) (\<Sum>x\<leftarrow>zs. nf x) (\<Sum>x\<leftarrow>zs. na x)"
  using assms(2)
proof (induction n arbitrary: xs r)
  case 0
  then show ?case by (simp add: grows_by_def)
next
  case (Suc n)
  then obtain x r1 where x: "g r = Some (x, r1)" "repeat_m n (push_back_read g) (xs @ [x], r1) = Some (ys, r')"
    by (auto simp: push_back_read_def split: bind_splits)
  obtain zs where "ys = (xs @ [x]) @ zs" "length zs = n" "list_all Q zs"
    "grows_by r1 r' (\<Sum>x\<leftarrow>zs. nob x) (\<Sum>x\<leftarrow>zs. nf x) (\<Sum>x\<leftarrow>zs. na x)"
    using Suc.IH [OF x(2)] by blast
  then show ?case using assms(1) [OF x(1)] grows_by_trans by (intro exI [of _ "x # zs"]) auto
qed

lemma read_ae_size_grows:
  assumes "read_ae_size strict rough is_sec c r = Some (n, r')"
  shows "grows_by r r' (if is_sec then n else 0) 0 n"
  using assms
  by (auto simp: read_ae_size_def Let_def split: bind_splits if_splits prod.splits dest!: read_varint_grows)
     (auto simp: grows_by_def within_def)

definition entry_read :: "throwable_buffer_reader \<Rightarrow> storage_entry \<times> throwable_buffer_reader \<Rightarrow> bool" where
  "entry_read r er \<longleftrightarrow> wf_e (fst er) \<and> grows_by r (snd er) (objects_e (fst er)) (fields_e (fst er)) (elements_e (fst er))"

lemma read_ae_pod_grows:
  assumes "read_ae_pod n get mk c r = Some er"
    "\<And>xs. wf_a (mk xs) \<and> objects_a (mk xs) = 0 \<and> fields_a (mk xs) = 0 \<and> elements_a (mk xs) = length xs"
  shows "entry_read r er"
proof -
  obtain c' sz r1 xs r2 where a: "read_ae_size n n False c' r = Some (sz, r1)"
    "repeat_m sz (push_back_read (\<lambda>r. do { (b, r) \<leftarrow> read_value c' n r; Some (get b, r) })) ([], r1) = Some (xs, r2)"
    "er = (SE_array (mk xs), r2)"
    using assms(1) by (auto simp: read_ae_pod_def split: bind_splits)
  have "grows_by r r' 0 0 0 \<and> True" if "do { (b, r) \<leftarrow> read_value c' n r; Some (get b, r) } = Some (x, r')" for r x r'
    using that by (auto split: bind_splits dest!: read_value_grows)
  from push_back_grows [OF this a(2)] have "length xs = sz \<and> grows_by r1 r2 0 0 0" by auto
  then show ?thesis using read_ae_size_grows [OF a(1)] assms(2) grows_by_trans by (fastforce simp: a(3) entry_read_def)
qed

lemma read_ae_string_grows:
  assumes "read_ae_string c r = Some er"
  shows "entry_read r er"
proof -
  obtain c' sz r1 xs r2 where a: "read_ae_size 2 16 False c' r = Some (sz, r1)"
    "repeat_m sz (push_back_read (\<lambda>r. do { c \<leftarrow> recursion_guard c'; read_string c r })) ([], r1) = Some (xs, r2)"
    "er = (SE_array (AE_string xs), r2)"
    using assms by (auto simp: read_ae_string_def split: bind_splits)
  have "grows_by r r' 0 0 0 \<and> length x < 2000000000" if "do { c \<leftarrow> recursion_guard c'; read_string c r } = Some (x, r')" for r x r'
    using that by (auto split: bind_splits dest!: read_string_grows)
  from push_back_grows [OF this a(2)]
  have "length xs = sz \<and> list_all (\<lambda>v. length v < 2000000000) xs \<and> grows_by r1 r2 0 0 0" by auto
  then show ?thesis using read_ae_size_grows [OF a(1)] grows_by_trans by (fastforce simp: a(3) entry_read_def)
qed

lemma read_ae_array_grows: "read_ae_array c r = Some er \<Longrightarrow> entry_read r er"
  by (auto simp: read_ae_array_def entry_read_def split: bind_splits if_splits dest!: read_ae_size_grows)

lemma read_se_pod_grows:
  assumes "read_se_pod n mk c r = Some er"
    "\<And>b. wf_e (mk b) \<and> objects_e (mk b) = 0 \<and> fields_e (mk b) = 0 \<and> elements_e (mk b) = 0"
  shows "entry_read r er"
  using assms by (auto simp: read_se_pod_def entry_read_def split: bind_splits dest!: read_pod_grows)

lemma read_se_string_grows: "read_se_string c r = Some er \<Longrightarrow> entry_read r er"
  by (auto simp: read_se_string_def entry_read_def split: bind_splits dest!: read_string_grows)

definition section_read :: "throwable_buffer_reader \<Rightarrow> ps_section \<times> throwable_buffer_reader \<Rightarrow> bool" where
  "section_read r sr \<longleftrightarrow> wf_s (fst sr) \<and> grows_by r (snd sr) (objects_s (fst sr)) (fields_s (fst sr)) (elements_s (fst sr))"

lemma read_ae_section_grows:
  assumes "do { (sz, r) \<leftarrow> read_ae_size 1 256 True c r;
                (xs, r) \<leftarrow> repeat_m sz (push_back_read (\<lambda>r. do { c \<leftarrow> recursion_guard c; read_section c r })) ([], r);
                Some (SE_array (AE_section xs), r) } = Some er"
    and IH: "\<And>r sr. read_section (Suc c) r = Some sr \<Longrightarrow> section_read r sr"
  shows "entry_read r er"
proof -
  obtain sz r1 xs r2 where a: "read_ae_size 1 256 True c r = Some (sz, r1)"
    "repeat_m sz (push_back_read (\<lambda>r. do { c \<leftarrow> recursion_guard c; read_section c r })) ([], r1) = Some (xs, r2)"
    "er = (SE_array (AE_section xs), r2)"
    using assms(1) by (auto split: bind_splits)
  have "grows_by r r' (objects_s x) (fields_s x) (elements_s x) \<and> wf_s x"
    if "do { c \<leftarrow> recursion_guard c; read_section c r } = Some (x, r')" for r x r'
    using that IH [of r "(x, r')"] by (auto simp: recursion_guard_def section_read_def split: bind_splits if_splits)
  from push_back_grows [OF this a(2)] show ?thesis
    using read_ae_size_grows [OF a(1)] grows_by_trans by (fastforce simp: a(3) entry_read_def)
qed

lemma load_array_grows:
  assumes "load_storage_array_entry c t r = Some er"
    and IH: "\<And>c' r sr. c < c' \<Longrightarrow> read_section c' r = Some sr \<Longrightarrow> section_read r sr"
  shows "entry_read r er"
proof -
  have "\<And>r sr. read_section (Suc (Suc (Suc c))) r = Some sr \<Longrightarrow> section_read r sr" by (rule IH) auto
  note sec = read_ae_section_grows [OF _ this]
  show ?thesis using assms(1)
    by (auto simp: load_storage_array_entry.simps [of c] Let_def recursion_guard_def split: if_splits
        elim!: read_ae_pod_grows read_ae_string_grows read_ae_array_grows)
       (auto intro!: sec simp: recursion_guard_def)
qed

lemma entry_read_shift: "grows_by r r1 0 0 0 \<Longrightarrow> entry_read r1 er \<Longrightarrow> entry_read r er"
  using grows_by_trans [of r r1 0 0 0] by (auto simp: entry_read_def)

lemma read_se_section_grows:
  assumes "m_objects r < OBJECT_LIMIT"
    "do { (s, r) \<leftarrow> read_section c (r\<lparr>m_objects := Suc (m_objects r)\<rparr>); Some (SE_section s, r) } = Some er"
    and IH: "\<And>r sr. read_section c r = Some sr \<Longrightarrow> section_read r sr"
  shows "entry_read r er"
proof -
  obtain s r2 where s: "read_section c (r\<lparr>m_objects := Suc (m_objects r)\<rparr>) = Some (s, r2)" "er = (SE_section s, r2)"
    using assms(2) by (auto split: bind_splits)
  have "grows_by r (r\<lparr>m_objects := Suc (m_objects r)\<rparr>) 1 0 0" using assms(1) by (simp add: grows_by_def within_def)
  from grows_by_trans [OF this] IH [OF s(1)] show ?thesis by (simp add: section_read_def entry_read_def s(2))
qed

lemma load_entry_grows:
  assumes "load_storage_entry c r = Some er"
    and IH: "\<And>c' r sr. c < c' \<Longrightarrow> read_section c' r = Some sr \<Longrightarrow> section_read r sr"
  shows "entry_read r er"
proof -
  have arr: "entry_read r er" if "load_storage_array_entry c' t r = Some er" "c < c'" for c' t r
    using load_array_grows [OF that(1)] IH that(2) by (meson order.strict_trans)
  have "\<And>r sr. read_section (Suc (Suc c)) r = Some sr \<Longrightarrow> section_read r sr" by (rule IH) auto
  note sec = read_se_section_grows [OF _ _ this]
  have nested: "entry_read r er"
    if "do { (b, r) \<leftarrow> read_pod c' (Suc 0) r;
             if hd b AND SERIALIZE_FLAG_ARRAY = 0 then None else load_storage_array_entry c' (hd b) r } = Some er" "c < c'" for c' r
    using that by (auto split: bind_splits if_splits dest!: read_pod_grows)
      (metis entry_read_shift arr)
  obtain b r1 where b: "read_pod (Suc c) 1 r = Some (b, r1)" "c + 1 < RECURSION_LIMIT"
    using assms(1) by (auto simp: load_storage_entry.simps [of c] recursion_guard_def split: bind_splits if_splits)
  have "entry_read r1 er" using assms(1) b
    by (auto simp: load_storage_entry.simps [of c] Let_def recursion_guard_def split: if_splits
        elim!: read_se_pod_grows read_se_string_grows arr)
       (erule (1) sec, assumption, erule nested, simp)
  then show ?thesis using entry_read_shift read_pod_grows [OF b(1)] by blast
qed

text \<open>Inserting a new field.\<close>

lemma map_put_fresh:
  assumes "map_find es name = None"
  shows "length (map_put es name e) = Suc (length es)"
    and "(\<Sum>(n, e)\<leftarrow>map_put es name e. g e) = g e + (\<Sum>(n, e)\<leftarrow>es. (g e :: nat))"
    and "list_all P (map_put es name e) \<longleftrightarrow> P (name, e) \<and> list_all P es"
  using assms by (induction es name e rule: map_put.induct) (auto simp: map_find_def split: if_splits)

lemma fields_loop_grows:
  assumes IH: "\<And>r er. load_storage_entry c r = Some er \<Longrightarrow> entry_read r er"
    and "repeat_m n (field_step c) (es, r) = Some (es', r')" "wf_s (Section es)"
  shows "wf_s (Section es') \<and> length es' = length es + n
    \<and> (\<exists>ob f a. objects_s (Section es') = objects_s (Section es) + ob \<and> fields_s (Section es') = fields_s (Section es) + n + f
      \<and> elements_s (Section es') = elements_s (Section es) + a \<and> grows_by r r' ob f a)"
  using assms(2,3)
proof (induction n arbitrary: es r)
  case 0
  then show ?case by (auto simp: grows_by_def)
next
  case (Suc n)
  obtain name r1 e r2 where f: "read_sec_name c r = Some (name, r1)" "map_find es name = None"
    "load_storage_entry c r1 = Some (e, r2)" "repeat_m n (field_step c) (map_put es name e, r2) = Some (es', r')"
    using Suc.prems(1) by (auto simp: field_step_def split: bind_splits if_splits)
  note e = IH [OF f(3), unfolded entry_read_def fst_conv snd_conv]
  have step: "grows_by r r2 (objects_e e) (fields_e e) (elements_e e)"
    using read_sec_name_grows [OF f(1)] e grows_by_trans [of r r1 0 0 0 r2] by auto
  have wf: "wf_s (Section (map_put es name e))"
    using Suc.prems(2) e read_sec_name_grows [OF f(1)] by (simp add: map_wf_put map_put_fresh [OF f(2)])
  from Suc.IH [OF f(4) this] obtain ob ff a where "grows_by r2 r' ob ff a" "wf_s (Section es')" "length es' = length es + Suc n"
    "objects_s (Section es') = objects_s (Section es) + (objects_e e + ob)"
    "fields_s (Section es') = fields_s (Section es) + Suc n + (fields_e e + ff)"
    "elements_s (Section es') = elements_s (Section es) + (elements_e e + a)"
    by (auto simp: map_put_fresh [OF f(2)])
  then show ?case using grows_by_trans [OF step] by blast
qed

lemma read_section_grows: "read_section c r = Some sr \<Longrightarrow> section_read r sr"
proof (induction "RECURSION_LIMIT - c" arbitrary: c r sr rule: less_induct)
  case less
  have c: "c + 1 < RECURSION_LIMIT"
    using less.prems by (auto simp: read_section.simps [of c] recursion_guard_def split: bind_splits if_splits)
  obtain count r1 es r2 where s: "reader_read_varint (Suc c) r = Some (count, r1)" "unat count \<le> OBJECT_FIELD_LIMIT - m_fields r1"
    "repeat_m (unat count) (field_step (Suc c)) ([], r1\<lparr>m_fields := m_fields r1 + unat count\<rparr>) = Some (es, r2)"
    "sr = (Section es, r2)"
    using less.prems by (auto simp: read_section_fields [OF c] split: bind_splits if_splits)
  have "section_read r sr" if "Suc c < c'" "read_section c' r = Some sr" for c' r sr
    using less.hyps [of c' r sr] that c by simp
  then have IH: "entry_read r er" if "load_storage_entry (Suc c) r = Some er" for r er
    using load_entry_grows [OF that] by blast
  have "grows_by r (r1\<lparr>m_fields := m_fields r1 + unat count\<rparr>) 0 (unat count) 0"
    using read_varint_grows [OF s(1)] s(2) by (auto simp: grows_by_def within_def)
  then show ?case
    using fields_loop_grows [OF IH s(3)] grows_by_trans by (fastforce simp: section_read_def s(4) map_wf_def)
qed



end
