(* ===== verification/Block_Info.thy ===== *)
theory Block_Info
  imports Prelude "HOL-Library.Monad_Syntax"
begin

text \<open>
  The table of block infos of the database, which the consensus rules read
  (\<open>src/blockchain_db/lmdb/db_lmdb.cpp\<close>): one row per block, the genesis block first. A thrown \<open>BLOCK_DNE\<close>
  or \<open>DB_ERROR\<close> is \<open>None\<close>. Cursors, pages and transactions of LMDB are not modelled.
\<close>

section \<open>Definitions\<close>

record mdb_block_info =
  bi_height :: u64
  bi_timestamp :: u64
  bi_coins :: u64
  bi_weight :: u64
  bi_diff_hi :: u64
  bi_diff_lo :: u64
  bi_hash :: hash
  bi_cum_rct :: u64
  bi_long_term_block_weight :: u64

type_synonym chain = "mdb_block_info list"

text \<open>The cumulative difficulty, from its two halves.\<close>

definition bi_diff :: "mdb_block_info \<Rightarrow> u128" where
  "bi_diff bi = push_bit 64 (ucast (bi_diff_hi bi)) OR ucast (bi_diff_lo bi)"

definition null_hash :: hash where
  "null_hash = replicate 32 0"

definition info_height :: "chain \<Rightarrow> u64" where
  "info_height ch = of_nat (length ch)"

definition info_at :: "chain \<Rightarrow> u64 \<Rightarrow> mdb_block_info option" where
  "info_at ch height = (if unat height < length ch then Some (ch ! unat height) else None)"

definition get_block_timestamp :: "chain \<Rightarrow> u64 \<Rightarrow> u64 option" where
  "get_block_timestamp ch height = map_option bi_timestamp (info_at ch height)"

definition get_block_cumulative_difficulty :: "chain \<Rightarrow> u64 \<Rightarrow> u128 option" where
  "get_block_cumulative_difficulty ch height = map_option bi_diff (info_at ch height)"

definition get_block_already_generated_coins :: "chain \<Rightarrow> u64 \<Rightarrow> u64 option" where
  "get_block_already_generated_coins ch height = map_option bi_coins (info_at ch height)"

definition get_block_difficulty :: "chain \<Rightarrow> u64 \<Rightarrow> u64 option" where
  "get_block_difficulty ch height =
    do { diff1 \<leftarrow> get_block_cumulative_difficulty ch height;
         diff2 \<leftarrow> (if height \<noteq> 0 then get_block_cumulative_difficulty ch (height - 1) else Some 0);
         Some (ucast (diff1 - diff2)) }"

definition get_top_block_timestamp :: "chain \<Rightarrow> u64 option" where
  "get_top_block_timestamp ch =
    (let m_height = info_height ch in if m_height = 0 then Some 0 else get_block_timestamp ch (m_height - 1))"

definition get_block_weight :: "chain \<Rightarrow> u64 \<Rightarrow> u64 option" where
  "get_block_weight ch height = map_option bi_weight (info_at ch height)"

definition get_block_long_term_weight :: "chain \<Rightarrow> u64 \<Rightarrow> u64 option" where
  "get_block_long_term_weight ch height = map_option bi_long_term_block_weight (info_at ch height)"

definition get_block_hash_from_height :: "chain \<Rightarrow> u64 \<Rightarrow> hash option" where
  "get_block_hash_from_height ch height = map_option bi_hash (info_at ch height)"

definition top_block_hash :: "chain \<Rightarrow> (hash \<times> u64) option" where
  "top_block_hash ch =
    (let m_height = info_height ch
     in if m_height \<noteq> 0 then map_option (\<lambda>h. (h, m_height - 1)) (get_block_hash_from_height ch (m_height - 1))
        else Some (null_hash, m_height - 1))"

text \<open>The height of the block with a hash.\<close>

definition block_exists :: "chain \<Rightarrow> hash \<Rightarrow> u64 option" where
  "block_exists ch h = map_option of_nat (find (\<lambda>i. bi_hash (ch ! i) = h) [0..<length ch])"

text \<open>Up to \<open>count\<close> values of a field from \<open>start_height\<close> on.\<close>

definition get_block_info_64bit_fields :: "chain \<Rightarrow> u64 \<Rightarrow> nat \<Rightarrow> (mdb_block_info \<Rightarrow> u64) \<Rightarrow> u64 list option" where
  "get_block_info_64bit_fields ch start_height count field =
    (if start_height \<ge> info_height ch then None
     else Some (map field (take count (drop (unat start_height) ch))))"

definition get_block_weights :: "chain \<Rightarrow> u64 \<Rightarrow> nat \<Rightarrow> u64 list option" where
  "get_block_weights ch start_height count = get_block_info_64bit_fields ch start_height count bi_weight"

definition get_long_term_block_weights :: "chain \<Rightarrow> u64 \<Rightarrow> nat \<Rightarrow> u64 list option" where
  "get_long_term_block_weights ch start_height count =
    get_block_info_64bit_fields ch start_height count bi_long_term_block_weight"

section \<open>The halves of a difficulty\<close>

lemma all_ones: "(0xffffffffffffffff :: u128) = mask 64"
  by (simp add: mask_eq_exp_minus_1)

lemma low_half: "ucast (w AND 0xffffffffffffffff :: u128) = (ucast w :: u64)"
  unfolding all_ones by (rule bit_eqI) (simp add: bit_simps)

lemma high_half: "drop_bit 64 w AND 0xffffffffffffffff = drop_bit 64 (w :: u128)"
  unfolding all_ones by (rule bit_eqI) (auto simp: bit_simps dest: bit_imp_le_length)

lemma join_halves: "push_bit 64 (ucast (ucast (drop_bit 64 w) :: u64)) OR ucast (ucast w :: u64) = (w :: u128)"
  by (rule bit_eqI) (auto simp: bit_simps)

section \<open>Chains of a size that fits\<close>

definition chain_fits :: "chain \<Rightarrow> bool" where
  "chain_fits ch \<longleftrightarrow> ch \<noteq> [] \<and> length ch < 2 ^ 63"

lemma unat_info_height: "length ch < 2 ^ 64 \<Longrightarrow> unat (info_height ch) = length ch"
  by (simp add: info_height_def unat_of_nat_u64)

lemma info_at_of_nat: "i < length ch \<Longrightarrow> length ch < 2 ^ 64 \<Longrightarrow> info_at ch (of_nat i) = Some (ch ! i)"
  by (simp add: info_at_def unat_of_nat_u64)

lemma top_block_hash_fits:
  assumes "chain_fits ch"
  shows "top_block_hash ch = Some (bi_hash (last ch), info_height ch - 1)" "unat (info_height ch - 1) = length ch - 1"
proof -
  have n: "unat (info_height ch) = length ch" "0 < length ch"
    using assms by (auto simp: chain_fits_def unat_info_height)
  then have "1 \<le> info_height ch" by (simp add: word_le_nat_alt Suc_le_eq)
  then show u: "unat (info_height ch - 1) = length ch - 1" using n by (simp add: unat_sub_u64)
  have "info_height ch \<noteq> 0" using n by auto
  then show "top_block_hash ch = Some (bi_hash (last ch), info_height ch - 1)"
    using n u by (simp add: top_block_hash_def get_block_hash_from_height_def info_at_def last_conv_nth Let_def)
qed

section \<open>Block hashes that identify chains\<close>

text \<open>No two chains of the set share a block hash unless they agree up to that block, and none has the null hash.\<close>

definition ids_identify :: "chain set \<Rightarrow> bool" where
  "ids_identify H \<longleftrightarrow> (\<forall>ch\<in>H. chain_fits ch \<and> (\<forall>b\<in>set ch. bi_hash b \<noteq> null_hash)
    \<and> (\<forall>ch'\<in>H. \<forall>i<length ch. \<forall>j<length ch'. bi_hash (ch ! i) = bi_hash (ch' ! j) \<longrightarrow> take (Suc i) ch = take (Suc j) ch'))"

lemma ids_identifyD:
  assumes "ids_identify H" "ch \<in> H"
  shows "chain_fits ch" "b \<in> set ch \<Longrightarrow> bi_hash b \<noteq> null_hash"
    and "ch' \<in> H \<Longrightarrow> i < length ch \<Longrightarrow> j < length ch' \<Longrightarrow> bi_hash (ch ! i) = bi_hash (ch' ! j) \<Longrightarrow>
      take (Suc i) ch = take (Suc j) ch'"
  using assms unfolding ids_identify_def by blast+

lemma same_top_same_chain:
  assumes "ids_identify H" "ch \<in> H" "ch' \<in> H" "bi_hash (last ch) = bi_hash (last ch')"
  shows "ch = ch'"
proof -
  have ne: "ch \<noteq> []" "ch' \<noteq> []" using assms(1-3) by (auto simp: ids_identify_def chain_fits_def)
  then have "take (Suc (length ch - 1)) ch = take (Suc (length ch' - 1)) ch'"
    using assms(4) by (intro ids_identifyD(3) [OF assms(1-3)]) (simp_all add: last_conv_nth)
  then show ?thesis using ne by simp
qed

lemma ids_identifyI:
  assumes "\<And>ch. ch \<in> H \<Longrightarrow> chain_fits ch" "\<And>ch b. ch \<in> H \<Longrightarrow> b \<in> set ch \<Longrightarrow> bi_hash b \<noteq> null_hash"
    and "\<And>ch i. ch \<in> H \<Longrightarrow> i < length ch \<Longrightarrow> chain_of (bi_hash (ch ! i)) = take (Suc i) ch"
  shows "ids_identify H"
  unfolding ids_identify_def using assms by metis

section \<open>Two sample chains\<close>

definition sample_block :: "nat \<Rightarrow> u64 \<Rightarrow> mdb_block_info" where
  "sample_block n t = \<lparr>bi_height = 0, bi_timestamp = t, bi_coins = 0, bi_weight = 0, bi_diff_hi = 0, bi_diff_lo = of_nat n * 100,
     bi_hash = of_nat n # replicate 31 7, bi_cum_rct = 0, bi_long_term_block_weight = 0\<rparr>"

definition sample_chain :: chain where
  "sample_chain = [sample_block 1 0, sample_block 2 60, sample_block 3 120]"

definition forked_chain :: chain where
  "forked_chain = [sample_block 1 0, sample_block 2 60, sample_block 4 150]"

definition sample_chain_of :: "hash \<Rightarrow> chain" where
  "sample_chain_of h = (if hd h = 4 then forked_chain else take (unat (hd h)) sample_chain)"

lemma sample_ids_identify: "ids_identify {take 2 sample_chain, sample_chain, forked_chain}"
proof (rule ids_identifyI [where chain_of = sample_chain_of])
  show "sample_chain_of (bi_hash (ch ! i)) = take (Suc i) ch"
    if "ch \<in> {take 2 sample_chain, sample_chain, forked_chain}" "i < length ch" for ch i
  proof -
    have "i = 0 \<or> i = 1 \<or> i = 2" using that by (auto simp: sample_chain_def forked_chain_def)
    then show ?thesis
      using that by (auto simp: sample_chain_of_def sample_chain_def forked_chain_def sample_block_def)
  qed
next
  show "bi_hash b \<noteq> null_hash"
    if "ch \<in> {take 2 sample_chain, sample_chain, forked_chain}" "b \<in> set ch" for ch b
  proof -
    have "hd (bi_hash b) \<noteq> 0"
      using that by (auto simp: sample_chain_def forked_chain_def sample_block_def)
    then show ?thesis by (auto simp: null_hash_def)
  qed
qed (auto simp: chain_fits_def sample_chain_def forked_chain_def)

end
