(* ===== verification/Block_Table.thy ===== *)
theory Block_Table
  imports Block_Info
begin

text \<open>
  The two tables of \<open>src/blockchain_db/lmdb/db_lmdb.cpp\<close> that hold the chain: \<open>block_info\<close>, one record per height,
  and \<open>block_heights\<close>, the height of each block hash. \<open>add_block\<close> and \<open>remove_block\<close> write both, in one transaction
  that is dropped when they throw (\<open>None\<close>). The other theories read the chain from \<open>block_info\<close> alone; the property
  at the end says that they may. The block blobs and the statistics for the size of a batch are left out.
\<close>

section \<open>Definitions\<close>

record block_tables =
  block_info :: chain
  block_heights :: "hash \<rightharpoonup> u64"

definition no_blocks :: block_tables where
  "no_blocks = \<lparr>block_info = [], block_heights = Map.empty\<rparr>"

record new_block =
  nb_prev_id :: hash
  nb_timestamp :: u64
  nb_block_weight :: u64
  nb_long_term_block_weight :: u64
  nb_cumulative_difficulty :: u128
  nb_coins_generated :: u64
  nb_num_rct_outs :: u64
  nb_blk_hash :: hash

definition parent_on_top :: "block_tables \<Rightarrow> hash \<Rightarrow> bool" where
  "parent_on_top t prev_id =
    (let m_height = info_height (block_info t)
     in if m_height > 0
        then (case block_heights t prev_id of None \<Rightarrow> False | Some prev_height \<Rightarrow> prev_height = m_height - 1)
        else True)"

definition new_info :: "u64 \<Rightarrow> new_block \<Rightarrow> u64 \<Rightarrow> mdb_block_info" where
  "new_info m_height b cum_rct =
    \<lparr>bi_height = m_height, bi_timestamp = nb_timestamp b, bi_coins = nb_coins_generated b, bi_weight = nb_block_weight b,
     bi_diff_hi = ucast (drop_bit 64 (nb_cumulative_difficulty b) AND 0xffffffffffffffff),
     bi_diff_lo = ucast (nb_cumulative_difficulty b AND 0xffffffffffffffff),
     bi_hash = nb_blk_hash b, bi_cum_rct = cum_rct, bi_long_term_block_weight = nb_long_term_block_weight b\<rparr>"

definition add_block :: "block_tables \<Rightarrow> new_block \<Rightarrow> block_tables option" where
  "add_block t b =
    (let m_height = info_height (block_info t)
     in if block_heights t (nb_blk_hash b) \<noteq> None then None
        else if \<not> parent_on_top t (nb_prev_id b) then None
        else do {
          cum_rct \<leftarrow> (if m_height \<ge> 1
             then do { bi_prev \<leftarrow> info_at (block_info t) (m_height - 1); Some (nb_num_rct_outs b + bi_cum_rct bi_prev) }
             else Some (nb_num_rct_outs b));
          Some \<lparr>block_info = block_info t @ [new_info m_height b cum_rct], block_heights = (block_heights t)(nb_blk_hash b \<mapsto> m_height)\<rparr> })"

definition remove_block :: "block_tables \<Rightarrow> block_tables option" where
  "remove_block t =
    (let m_height = info_height (block_info t)
     in if m_height = 0 then None
        else do {
          bi \<leftarrow> info_at (block_info t) (m_height - 1);
          _ \<leftarrow> block_heights t (bi_hash bi);
          Some \<lparr>block_info = butlast (block_info t), block_heights = (block_heights t)(bi_hash bi := None)\<rparr> })"

text \<open>The cumulative counts of outputs at some heights: all of them must be on the chain.\<close>

definition get_block_cumulative_rct_outputs :: "chain \<Rightarrow> u64 list \<Rightarrow> u64 list option" where
  "get_block_cumulative_rct_outputs ch heights =
    (if heights = [] then Some []
     else if \<exists>h \<in> set heights. h \<ge> info_height ch then None
     else Some (map (\<lambda>h. bi_cum_rct (ch ! unat h)) heights))"

datatype table_op = Add_Block new_block | Remove_Block

fun table_step :: "block_tables \<Rightarrow> table_op \<Rightarrow> block_tables" where
  "table_step t (Add_Block b) = (case add_block t b of None \<Rightarrow> t | Some t' \<Rightarrow> t')"
| "table_step t Remove_Block = (case remove_block t of None \<Rightarrow> t | Some t' \<Rightarrow> t')"

section \<open>The invariant\<close>

definition tables_ok :: "block_tables \<Rightarrow> bool" where
  "tables_ok t \<longleftrightarrow> length (block_info t) < 2 ^ 64 \<and> distinct (map bi_hash (block_info t))
    \<and> map bi_height (block_info t) = map of_nat [0..<length (block_info t)]
    \<and> block_heights t = map_of (map (\<lambda>bi. (bi_hash bi, bi_height bi)) (block_info t))"

lemma tables_ok_no_blocks: "tables_ok no_blocks"
  by (simp add: tables_ok_def no_blocks_def)

lemma heights_lookup: "tables_ok t \<Longrightarrow> block_heights t h \<noteq> None \<longleftrightarrow> h \<in> bi_hash ` set (block_info t)"
  by (auto simp: tables_ok_def map_of_eq_None_iff image_image)

lemma map_of_snoc_distinct: "x \<notin> fst ` set xs \<Longrightarrow> [x \<mapsto> y] ++ map_of xs = (map_of xs)(x \<mapsto> y)"
  by (induction xs) (auto simp: fun_upd_twist)

lemma map_of_butlast_distinct:
  assumes "distinct (map fst (xs @ [(x, y)]))"
  shows "(map_of (xs @ [(x, y)]))(x := None) = map_of xs"
proof -
  have x: "x \<notin> fst ` set xs" using assms by auto
  then have "map_of xs x = None" by (simp add: map_of_eq_None_iff)
  then show ?thesis by (simp add: map_of_snoc_distinct [OF x] fun_upd_idem)
qed

lemma new_info_fields:
  "bi_hash (new_info n b c) = nb_blk_hash b" "bi_height (new_info n b c) = n"
  "bi_diff (new_info n b c) = nb_cumulative_difficulty b"
  by (simp_all add: new_info_def bi_diff_def low_half high_half join_halves)

lemma add_block_ok:
  assumes ok: "tables_ok t" and add: "add_block t b = Some t'" and fits: "length (block_info t) + 1 < 2 ^ 64"
  shows "tables_ok t' \<and> (\<exists>bi. block_info t' = block_info t @ [bi] \<and> bi_hash bi = nb_blk_hash b \<and> bi_diff bi = nb_cumulative_difficulty b)"
proof -
  let ?n = "info_height (block_info t)"
  obtain bi where bi: "bi_hash bi = nb_blk_hash b" "bi_height bi = ?n" "bi_diff bi = nb_cumulative_difficulty b"
    and t': "t' = \<lparr>block_info = block_info t @ [bi], block_heights = (block_heights t)(nb_blk_hash b \<mapsto> ?n)\<rparr>"
    and new: "block_heights t (nb_blk_hash b) = None"
    using add that [OF new_info_fields] by (auto simp: add_block_def Let_def split: bind_splits if_splits)
  have "nb_blk_hash b \<notin> bi_hash ` set (block_info t)" using heights_lookup [OF ok] new by blast
  then show ?thesis
    using ok bi fits unfolding t'
    by (auto simp: tables_ok_def map_of_snoc_distinct image_image info_height_def)
qed

lemma remove_block_ok:
  assumes ok: "tables_ok t" and rm: "remove_block t = Some t'"
  shows "tables_ok t' \<and> block_info t \<noteq> [] \<and> block_info t' = butlast (block_info t)"
proof -
  have n: "unat (info_height (block_info t)) = length (block_info t)"
    using ok by (simp add: tables_ok_def unat_info_height)
  have ne: "info_height (block_info t) \<noteq> 0" using rm by (auto simp: remove_block_def Let_def split: if_splits)
  then have ne': "block_info t \<noteq> []" using n by (auto simp: info_height_def)
  then obtain bis bi where bis: "block_info t = bis @ [bi]" by (meson rev_exhaust)
  have "1 \<le> info_height (block_info t)" using n ne' by (simp add: word_le_nat_alt Suc_le_eq)
  then have "unat (info_height (block_info t) - 1) = length bis" using n bis by (simp add: unat_sub_u64)
  then have "info_at (block_info t) (info_height (block_info t) - 1) = Some bi" using bis by (simp add: info_at_def)
  then have t': "t' = \<lparr>block_info = bis, block_heights = (block_heights t)(bi_hash bi := None)\<rparr>"
    using rm ne bis by (auto simp: remove_block_def Let_def split: bind_splits)
  have heights: "(block_heights t)(bi_hash bi := None) = map_of (map (\<lambda>bi. (bi_hash bi, bi_height bi)) bis)"
    using ok bis map_of_butlast_distinct [of "map (\<lambda>bi. (bi_hash bi, bi_height bi)) bis" "bi_hash bi" "bi_height bi"]
    by (simp add: tables_ok_def comp_def)
  then show ?thesis
    using ok ne' bis unfolding t' by (auto simp: tables_ok_def)
qed

lemma table_step_ok:
  assumes "tables_ok t" "length (block_info t) + 1 < 2 ^ 64"
  shows "tables_ok (table_step t op) \<and> length (block_info (table_step t op)) \<le> length (block_info t) + 1"
proof (cases op)
  case (Add_Block b)
  show ?thesis
  proof (cases "add_block t b")
    case (Some t')
    from add_block_ok [OF assms(1) this assms(2)] show ?thesis using Add_Block Some by auto
  qed (use assms Add_Block in simp)
next
  case Remove_Block
  show ?thesis
  proof (cases "remove_block t")
    case (Some t')
    from remove_block_ok [OF assms(1) this] show ?thesis using Remove_Block Some by auto
  qed (use assms Remove_Block in simp)
qed

lemma table_steps_ok:
  "tables_ok t \<Longrightarrow> length (block_info t) + length ops < 2 ^ 64 \<Longrightarrow> tables_ok (foldl table_step t ops)"
proof (induction ops arbitrary: t)
  case (Cons op ops)
  then have "tables_ok (table_step t op) \<and> length (block_info (table_step t op)) \<le> length (block_info t) + 1"
    by (intro table_step_ok) auto
  then show ?case using Cons by simp
qed simp

lemma table_steps_length:
  "tables_ok t \<Longrightarrow> length (block_info t) + length ops < 2 ^ 64 \<Longrightarrow>
    length (block_info (foldl table_step t ops)) \<le> length (block_info t) + length ops"
proof (induction ops arbitrary: t)
  case (Cons op ops)
  then have step: "tables_ok (table_step t op) \<and> length (block_info (table_step t op)) \<le> length (block_info t) + 1"
    by (intro table_step_ok) auto
  then have "length (block_info (foldl table_step (table_step t op) ops)) \<le> length (block_info (table_step t op)) + length ops"
    using Cons by auto
  then show ?case using step by simp
qed simp

text \<open>The table of heights answers what a search of the chain does.\<close>

lemma block_heights_block_exists:
  assumes "tables_ok t"
  shows "block_heights t h = block_exists (block_info t) h"
proof (cases "find (\<lambda>i. bi_hash (block_info t ! i) = h) [0..<length (block_info t)]")
  case None
  then have "h \<notin> bi_hash ` set (block_info t)" by (auto simp: find_None_iff in_set_conv_nth)
  then have "block_heights t h = None" using heights_lookup [OF assms] by blast
  then show ?thesis using None by (simp add: block_exists_def)
next
  case (Some i)
  then have i: "i < length (block_info t)" "bi_hash (block_info t ! i) = h" by (auto simp: find_Some_iff)
  have "map bi_height (block_info t) ! i = map of_nat [0..<length (block_info t)] ! i"
    using assms by (simp only: tables_ok_def)
  then have "(h, of_nat i) = (\<lambda>bi. (bi_hash bi, bi_height bi)) (block_info t ! i)" using i by simp
  then have "(h, of_nat i) \<in> set (map (\<lambda>bi. (bi_hash bi, bi_height bi)) (block_info t))"
    using nth_mem [OF i(1)] by (simp only: set_map) (rule image_eqI, rule refl)
  moreover have "distinct (map fst (map (\<lambda>bi. (bi_hash bi, bi_height bi)) (block_info t)))"
    using assms by (simp add: tables_ok_def comp_def)
  ultimately have "map_of (map (\<lambda>bi. (bi_hash bi, bi_height bi)) (block_info t)) h = Some (of_nat i)"
    by (intro map_of_is_SomeI)
  then show ?thesis using assms Some by (simp add: tables_ok_def block_exists_def)
qed

lemma remove_after_add:
  assumes ok: "tables_ok t" and add: "add_block t b = Some t'" and fits: "length (block_info t) + 1 < 2 ^ 64"
  shows "remove_block t' = Some t"
proof -
  obtain bi where ok': "tables_ok t'" and bi: "block_info t' = block_info t @ [bi]"
    using add_block_ok [OF assms] by blast
  have n: "unat (info_height (block_info t')) = length (block_info t) + 1"
    using ok' bi by (simp add: tables_ok_def unat_info_height)
  then have ne: "info_height (block_info t') \<noteq> 0" "1 \<le> info_height (block_info t')" by (auto simp: word_le_nat_alt)
  then have "unat (info_height (block_info t') - 1) = length (block_info t)" using n by (simp add: unat_sub_u64)
  then have "info_at (block_info t') (info_height (block_info t') - 1) = Some bi" using bi by (simp add: info_at_def)
  moreover have "block_heights t' (bi_hash bi) \<noteq> None" using heights_lookup [OF ok'] bi by simp
  ultimately obtain t'' where t'': "remove_block t' = Some t''" using ne by (auto simp: remove_block_def Let_def)
  have "tables_ok t''" "block_info t'' = block_info t" using remove_block_ok [OF ok' t''] bi by auto
  then have "t'' = t" using ok by (simp add: tables_ok_def)
  then show ?thesis using t'' by simp
qed

section \<open>Properties\<close>

text \<open>
  C0: after every sequence of fewer than \<open>2 ^ 64 - 1\<close> additions and removals, failed ones included, the two tables agree: no
  hash is stored twice, the record at index \<open>i\<close> has height \<open>i\<close>, and the table of heights gives for every hash what a
  search of the records gives. Removing a block right after it was added restores both tables, and the stored halves
  of the cumulative difficulty are read back as the one that was given.
\<close>

theorem block_tables_consistent:
  assumes "length ops + 1 < 2 ^ 64" "t = foldl table_step no_blocks ops"
  shows "distinct (map bi_hash (block_info t)) \<and> map bi_height (block_info t) = map of_nat [0..<length (block_info t)]
    \<and> block_heights t = block_exists (block_info t)
    \<and> (\<forall>b t'. add_block t b = Some t' \<longrightarrow> remove_block t' = Some t
        \<and> get_block_cumulative_difficulty (block_info t') (info_height (block_info t)) = Some (nb_cumulative_difficulty b))"
proof -
  have ok: "tables_ok t" and len: "length (block_info t) \<le> length ops"
    using table_steps_ok [OF tables_ok_no_blocks, of ops] table_steps_length [OF tables_ok_no_blocks, of ops] assms
    by (simp_all add: no_blocks_def)
  have "remove_block t' = Some t \<and> get_block_cumulative_difficulty (block_info t') (info_height (block_info t)) = Some (nb_cumulative_difficulty b)"
    if add: "add_block t b = Some t'" for b t'
  proof -
    have fits: "length (block_info t) + 1 < 2 ^ 64" using len assms(1) by linarith
    then have "unat (info_height (block_info t)) = length (block_info t)" by (simp add: unat_info_height)
    then show ?thesis
      using remove_after_add [OF ok add fits] add_block_ok [OF ok add fits]
      by (auto simp: get_block_cumulative_difficulty_def info_at_def)
  qed
  then show ?thesis using ok block_heights_block_exists [OF ok] by (auto simp: tables_ok_def)
qed

definition sample_new_block :: "hash \<Rightarrow> hash \<Rightarrow> new_block" where
  "sample_new_block prev h = \<lparr>nb_prev_id = prev, nb_timestamp = 60, nb_block_weight = 1000, nb_long_term_block_weight = 1000,
     nb_cumulative_difficulty = 2 ^ 64 + 5, nb_coins_generated = 7, nb_num_rct_outs = 3, nb_blk_hash = h\<rparr>"

theorem block_tables_consistent_witness:
  "block_heights (foldl table_step no_blocks
      [Add_Block (sample_new_block [] [1]), Remove_Block, Add_Block (sample_new_block [] [2]), Add_Block (sample_new_block [2] [3])])
    = block_exists (block_info (foldl table_step no_blocks
      [Add_Block (sample_new_block [] [1]), Remove_Block, Add_Block (sample_new_block [] [2]), Add_Block (sample_new_block [2] [3])]))"
  using block_tables_consistent [of "[Add_Block (sample_new_block [] [1]), Remove_Block, Add_Block (sample_new_block [] [2]), Add_Block (sample_new_block [2] [3])]", OF _ refl]
  by simp

end
