(* ===== verification/Difficulty_Cache.thy ===== *)
theory Difficulty_Cache
  imports Difficulty Block_Info "HOL-Library.Monad_Syntax"
begin

text \<open>
  \<open>Blockchain::get_difficulty_for_next_block\<close> (\<open>src/cryptonote_core/blockchain.cpp\<close>) with its two caches: the
  last answer, keyed by the hash of the top block, and the window of timestamps and cumulative difficulties,
  which is moved on by one block when the chain has grown by one. The chain is read anew at each call, and may have
  been reorganised in between. \<open>next_difficulty_v6\<close>, which computes with floating point numbers, is the
  parameter \<open>v6\<close>; the hard fork version in force on a chain is the parameter \<open>ver\<close>.
\<close>

section \<open>Definitions\<close>

definition DIFFICULTY_LAG :: nat where "DIFFICULTY_LAG = 15"
definition DIFFICULTY_BLOCKS_COUNT :: nat where "DIFFICULTY_BLOCKS_COUNT = DIFFICULTY_WINDOW + DIFFICULTY_LAG"
definition DIFFICULTY_WINDOW_V6 :: nat where "DIFFICULTY_WINDOW_V6 = 60"
definition DIFFICULTY_BLOCKS_COUNT_V6 :: nat where "DIFFICULTY_BLOCKS_COUNT_V6 = DIFFICULTY_WINDOW_V6 + 1"

record difficulty_cache =
  m_difficulty_for_next_block_top_hash :: hash
  m_difficulty_for_next_block :: u64
  m_timestamps_and_difficulties_height :: u64
  m_timestamps_and_difficulties_top_hash :: hash
  m_timestamps :: "u64 list"
  m_difficulties :: "u128 list"

definition new_difficulty_cache :: difficulty_cache where
  "new_difficulty_cache =
    \<lparr>m_difficulty_for_next_block_top_hash = null_hash, m_difficulty_for_next_block = 1,
     m_timestamps_and_difficulties_height = 0, m_timestamps_and_difficulties_top_hash = null_hash,
     m_timestamps = [], m_difficulties = []\<rparr>"

text \<open>What a reorganisation and the removal of blocks do to the cache.\<close>

definition reset_difficulty_window :: "difficulty_cache \<Rightarrow> difficulty_cache" where
  "reset_difficulty_window c = c\<lparr>m_timestamps_and_difficulties_height := 0\<rparr>"

definition difficulty_blocks_count :: "u8 \<Rightarrow> nat" where
  "difficulty_blocks_count version =
    (if version = 1 then DIFFICULTY_BLOCKS_COUNT
     else if version = 2 then DIFFICULTY_BLOCKS_COUNT_V2
     else if version < 6 then DIFFICULTY_BLOCKS_COUNT_V3
     else DIFFICULTY_BLOCKS_COUNT_V6)"

definition difficulty_of_window :: "(u64 list \<Rightarrow> u128 list \<Rightarrow> u64 \<Rightarrow> u64) \<Rightarrow> u8 \<Rightarrow> u64 list \<Rightarrow> u128 list \<Rightarrow> u64 option" where
  "difficulty_of_window v6 version timestamps difficulties =
    (let target = DIFFICULTY_TARGET
     in if version = 1 then next_difficulty timestamps difficulties target
        else if version = 2 then next_difficulty_v2 timestamps difficulties target
        else if version = 3 then next_difficulty_v3 timestamps difficulties target False
        else if version < 6 then next_difficulty_v3 timestamps difficulties target True
        else Some (v6 timestamps difficulties target))"

text \<open>The two loops that erase from the front until the window has the right size.\<close>

function trim_front :: "nat \<Rightarrow> 'a list \<Rightarrow> 'a list" where
  "trim_front n xs = (if length xs > n then trim_front n (drop 1 xs) else xs)"
  by pat_completeness auto
termination
  by (relation "measure (\<lambda>(n, xs). length xs)") auto

text \<open>The loop that reads the window from the database.\<close>

function read_window :: "chain \<Rightarrow> u64 \<Rightarrow> u64 \<Rightarrow> u64 list \<Rightarrow> u128 list \<Rightarrow> (u64 list \<times> u128 list) option" where
  "read_window ch offset height timestamps difficulties =
    (if offset < height
     then do { t \<leftarrow> get_block_timestamp ch offset;
               d \<leftarrow> get_block_cumulative_difficulty ch offset;
               read_window ch (offset + 1) height (timestamps @ [t]) (difficulties @ [d]) }
     else Some (timestamps, difficulties))"
  by pat_completeness auto
termination
proof (relation "measure (\<lambda>(ch, offset, height, ts, ds). unat (height - offset))")
  fix offset height :: u64
  assume "offset < height"
  moreover have o: "unat (offset + 1) = unat offset + 1"
    using calculation unat_u64_bound [of height] by (simp add: unat_add_u64 word_less_nat_alt)
  moreover have "offset + 1 \<le> height" using calculation by (simp add: word_le_nat_alt word_less_nat_alt)
  ultimately have "unat (height - (offset + 1)) < unat (height - offset)"
    using unat_sub_u64 [of offset height] by (simp add: unat_sub_u64 o word_less_nat_alt word_le_nat_alt)
  then show "((ch, offset + 1, height, ts @ [t], ds @ [d]), ch, offset, height, ts, ds)
      \<in> measure (\<lambda>(ch, offset, height, ts, ds). unat (height - offset))"
    for ch :: chain and ts :: "u64 list" and ds :: "u128 list" and t d by simp
qed simp

text \<open>Whether the cached window is that of the parent of the top block, and the window, by extending the cached one or from the database.\<close>

definition window_hit :: "difficulty_cache \<Rightarrow> chain \<Rightarrow> u64 \<Rightarrow> nat \<Rightarrow> bool option" where
  "window_hit c ch height cnt = (if m_timestamps_and_difficulties_height c \<noteq> 0
       \<and> height - m_timestamps_and_difficulties_height c = 1 \<and> length (m_timestamps c) \<ge> cnt
     then do { h \<leftarrow> get_block_hash_from_height ch (height - 2); Some (h = m_timestamps_and_difficulties_top_hash c) }
     else Some False)"

definition window_read :: "difficulty_cache \<Rightarrow> chain \<Rightarrow> u64 \<Rightarrow> nat \<Rightarrow> bool \<Rightarrow> (u64 list \<times> u128 list) option" where
  "window_read c ch height cnt hit = (if hit
     then do { t \<leftarrow> get_block_timestamp ch (height - 1); d \<leftarrow> get_block_cumulative_difficulty ch (height - 1);
               Some (trim_front cnt (m_timestamps c @ [t]), trim_front cnt (m_difficulties c @ [d])) }
     else let offset = height - min height (of_nat cnt);
              offset = (if offset = 0 then offset + 1 else offset)
          in read_window ch offset height [] [])"

definition get_difficulty_for_next_block :: "(u64 list \<Rightarrow> u128 list \<Rightarrow> u64 \<Rightarrow> u64) \<Rightarrow> (chain \<Rightarrow> u8) \<Rightarrow> u64
    \<Rightarrow> difficulty_cache \<Rightarrow> chain \<Rightarrow> (u64 \<times> difficulty_cache) option" where
  "get_difficulty_for_next_block v6 ver m_fixed_difficulty c ch =
    (if m_fixed_difficulty \<noteq> 0 then Some (if info_height ch \<noteq> 0 then m_fixed_difficulty else 1, c)
     else do {
       (top_hash, top) \<leftarrow> top_block_hash ch;
       if top_hash = m_difficulty_for_next_block_top_hash c then Some (m_difficulty_for_next_block c, c)
       else do {
         let height = top + 1;
         let version = ver ch;
         let cnt = difficulty_blocks_count version;
         hit \<leftarrow> window_hit c ch height cnt;
         (timestamps, difficulties) \<leftarrow> window_read c ch height cnt hit;
         let c = c\<lparr>m_timestamps_and_difficulties_height := height, m_timestamps_and_difficulties_top_hash := top_hash,
                   m_timestamps := timestamps, m_difficulties := difficulties\<rparr>;
         diff \<leftarrow> difficulty_of_window v6 version timestamps difficulties;
         Some (diff, c\<lparr>m_difficulty_for_next_block_top_hash := top_hash, m_difficulty_for_next_block := diff\<rparr>) } })"

declare trim_front.simps [simp del] read_window.simps [simp del]

section \<open>The window\<close>

text \<open>What the caches stand for: the last \<open>cnt\<close> blocks, without the genesis block, and the difficulty computed from them.\<close>

definition difficulty_window :: "nat \<Rightarrow> chain \<Rightarrow> chain" where
  "difficulty_window cnt ch = drop (max 1 (length ch - cnt)) ch"

definition fresh_difficulty :: "(u64 list \<Rightarrow> u128 list \<Rightarrow> u64 \<Rightarrow> u64) \<Rightarrow> (chain \<Rightarrow> u8) \<Rightarrow> chain \<Rightarrow> u64 option" where
  "fresh_difficulty v6 ver ch =
    (let w = difficulty_window (difficulty_blocks_count (ver ch)) ch
     in difficulty_of_window v6 (ver ch) (map bi_timestamp w) (map bi_diff w))"

lemma trim_front_drop: "trim_front n xs = drop (length xs - n) xs"
proof (induction n xs rule: trim_front.induct)
  case (1 n xs)
  show ?case
  proof (cases "length xs > n")
    case True
    then have "trim_front n xs = drop (length (drop 1 xs) - n) (drop 1 xs)"
      using 1 by (subst trim_front.simps) simp
    also have "\<dots> = drop (length xs - n) xs" using True by (simp add: Suc_diff_Suc)
    finally show ?thesis .
  next
    case False
    then show ?thesis by (subst trim_front.simps) simp
  qed
qed

lemma read_window_drop:
  assumes "off \<le> length ch" "length ch < 2 ^ 64"
  shows "read_window ch (of_nat off) (of_nat (length ch)) ts ds
    = Some (ts @ map bi_timestamp (drop off ch), ds @ map bi_diff (drop off ch))"
  using assms(1)
proof (induction "length ch - off" arbitrary: off ts ds)
  case 0
  then show ?case by (subst read_window.simps) simp
next
  case (Suc n)
  then have off: "off < length ch" by simp
  have "(of_nat off :: u64) < of_nat (length ch)"
    using off assms(2) by (simp add: word_less_nat_alt unat_of_nat_u64)
  moreover have "(of_nat off + 1 :: u64) = of_nat (Suc off)" by simp
  moreover have "read_window ch (of_nat (Suc off)) (of_nat (length ch)) (ts @ [bi_timestamp (ch ! off)]) (ds @ [bi_diff (ch ! off)])
      = Some ((ts @ [bi_timestamp (ch ! off)]) @ map bi_timestamp (drop (Suc off) ch), (ds @ [bi_diff (ch ! off)]) @ map bi_diff (drop (Suc off) ch))"
    using Suc off by (intro Suc.hyps(1)) auto
  ultimately show ?case using off assms(2)
    by (subst read_window.simps)
       (simp add: get_block_timestamp_def get_block_cumulative_difficulty_def info_at_of_nat Cons_nth_drop_Suc [symmetric] del: of_nat_Suc)
qed

lemma difficulty_blocks_count_bound: "0 < difficulty_blocks_count v" "difficulty_blocks_count v < 2 ^ 63"
  by (simp_all add: difficulty_blocks_count_def DIFFICULTY_BLOCKS_COUNT_def DIFFICULTY_LAG_def DIFFICULTY_BLOCKS_COUNT_V6_def
      DIFFICULTY_WINDOW_V6_def difficulty_constants)

text \<open>The offset from which the window is read.\<close>

lemma window_offset:
  assumes "chain_fits ch" "cnt < 2 ^ 63"
  defines "off \<equiv> info_height ch - min (info_height ch) (of_nat cnt)"
  shows "(if off = 0 then off + 1 else off) = of_nat (max 1 (length ch - cnt))"
proof -
  have u: "unat (info_height ch) = length ch" "unat (of_nat cnt :: u64) = cnt"
    using assms by (simp_all add: chain_fits_def unat_info_height unat_of_nat_u64)
  have "unat off = length ch - cnt"
    using u by (auto simp: off_def min_def word_le_nat_alt unat_sub_u64)
  then have "off = of_nat (length ch - cnt)" by (metis of_nat_unat ucast_id)
  then show ?thesis using \<open>unat off = _\<close> by (cases "length ch - cnt") (auto simp: max_def)
qed

section \<open>The caches\<close>

text \<open>What the cached answer and the cached window are, in terms of the chains the node has seen.\<close>

definition answer_ok :: "(u64 list \<Rightarrow> u128 list \<Rightarrow> u64 \<Rightarrow> u64) \<Rightarrow> (chain \<Rightarrow> u8) \<Rightarrow> chain set \<Rightarrow> difficulty_cache \<Rightarrow> bool" where
  "answer_ok v6 ver H c \<longleftrightarrow> m_difficulty_for_next_block_top_hash c = null_hash
    \<or> (\<exists>ch\<in>H. bi_hash (last ch) = m_difficulty_for_next_block_top_hash c
        \<and> fresh_difficulty v6 ver ch = Some (m_difficulty_for_next_block c))"

definition window_ok :: "chain set \<Rightarrow> difficulty_cache \<Rightarrow> bool" where
  "window_ok H c \<longleftrightarrow> m_timestamps_and_difficulties_height c = 0
    \<or> (\<exists>ch\<in>H. \<exists>n. bi_hash (last ch) = m_timestamps_and_difficulties_top_hash c
        \<and> info_height ch = m_timestamps_and_difficulties_height c
        \<and> m_timestamps c = map bi_timestamp (difficulty_window n ch) \<and> m_difficulties c = map bi_diff (difficulty_window n ch))"

text \<open>Moving the window on by one block.\<close>

lemma window_moves_on:
  assumes "length (difficulty_window n ch) \<ge> cnt" "0 < cnt"
  shows "trim_front cnt (map g (difficulty_window n ch) @ [g b]) = map g (difficulty_window cnt (ch @ [b]))"
proof -
  define k where "k = max 1 (length ch - n)"
  have k: "k + cnt \<le> length ch" using assms by (simp add: difficulty_window_def k_def)
  have "map g (difficulty_window n ch) @ [g b] = map g (drop k (ch @ [b]))"
    using k by (simp add: difficulty_window_def k_def)
  moreover have "length ch + 1 - k - cnt + k = length (ch @ [b]) - cnt" using k by simp
  moreover have "max 1 (length (ch @ [b]) - cnt) = length (ch @ [b]) - cnt" using k by simp
  ultimately show ?thesis
    by (simp only: trim_front_drop length_map length_drop length_append drop_map drop_drop difficulty_window_def) (simp add: drop_map)
qed

lemma grown_by_one:
  assumes "ids_identify H" "ch \<in> H" "old \<in> H" "length ch = Suc (length old)"
    "bi_hash (ch ! (length old - 1)) = bi_hash (last old)"
  shows "ch = old @ [last ch]"
proof -
  have ne: "old \<noteq> []" using assms(1,3) by (auto simp: ids_identify_def chain_fits_def)
  then have "take (Suc (length old - 1)) ch = take (Suc (length old - 1)) old"
    using assms(4,5) by (intro ids_identifyD(3) [OF assms(1-3)]) (simp_all add: last_conv_nth)
  then have "take (length old) ch = old" using ne by simp
  then show ?thesis using assms(4) by (metis append_butlast_last_id butlast_conv_take diff_Suc_1 length_0_conv nat.distinct(1))
qed

lemma height_steps:
  assumes "chain_fits ch" "chain_fits old" "info_height ch - info_height old = 1"
  shows "length ch = Suc (length old)" "unat (info_height ch - 2) = length old - 1" "unat (info_height ch - 1) = length old"
proof -
  have u: "unat (info_height ch) = length ch" "unat (info_height old) = length old" "0 < length old"
    using assms by (auto simp: chain_fits_def unat_info_height)
  have "info_height ch = info_height old + 1" using assms(3) by (simp add: algebra_simps)
  then have "length ch = (length old + 1) mod 2 ^ 64" using u by (metis unat_1 unat_add_u64)
  then show l: "length ch = Suc (length old)" using assms(2) by (simp add: chain_fits_def)
  have "(2 :: u64) \<le> info_height ch" "(1 :: u64) \<le> info_height ch" using l u by (simp_all add: word_le_nat_alt Suc_le_eq)
  then show "unat (info_height ch - 2) = length old - 1" "unat (info_height ch - 1) = length old"
    using l u by (simp_all add: unat_sub_u64)
qed

text \<open>Whichever way it is computed, the window is that of the chain.\<close>

lemma window_computed:
  assumes H: "ids_identify H" "ch \<in> H" and c: "window_ok H c" and cnt: "0 < cnt" "cnt < 2 ^ 63"
  shows "\<exists>hit. window_hit c ch (info_height ch) cnt = Some hit \<and> window_read c ch (info_height ch) cnt hit
    = Some (map bi_timestamp (difficulty_window cnt ch), map bi_diff (difficulty_window cnt ch))"
proof -
  note fits = ids_identifyD(1) [OF H]
  have "window_read c ch (info_height ch) cnt False = Some (map bi_timestamp (difficulty_window cnt ch), map bi_diff (difficulty_window cnt ch))"
    using window_offset [OF fits cnt(2)] read_window_drop [of "max 1 (length ch - cnt)" ch "[]" "[]"] fits
    by (auto simp: window_read_def difficulty_window_def Let_def chain_fits_def info_height_def Suc_le_eq max_def)
  then have fresh: ?thesis if "window_hit c ch (info_height ch) cnt = Some False" using that by blast
  show ?thesis
  proof (cases "m_timestamps_and_difficulties_height c \<noteq> 0
      \<and> info_height ch - m_timestamps_and_difficulties_height c = 1 \<and> length (m_timestamps c) \<ge> cnt")
    case False
    then have "window_hit c ch (info_height ch) cnt = Some False" unfolding window_hit_def by (simp only: if_False)
    then show ?thesis by (rule fresh)
  next
    case True
    then obtain old n where old: "old \<in> H" "bi_hash (last old) = m_timestamps_and_difficulties_top_hash c"
      "info_height old = m_timestamps_and_difficulties_height c"
      "m_timestamps c = map bi_timestamp (difficulty_window n old)" "m_difficulties c = map bi_diff (difficulty_window n old)"
      using c by (auto simp: window_ok_def)
    note st = height_steps [OF fits ids_identifyD(1) [OF H(1) old(1)]]
    have st: "length ch = Suc (length old)" "unat (info_height ch - 2) = length old - 1" "unat (info_height ch - 1) = length old"
      using st True old(3) by simp_all
    have hit: "window_hit c ch (info_height ch) cnt = Some (bi_hash (ch ! (length old - 1)) = bi_hash (last old))"
      using True st old(2) by (simp add: window_hit_def get_block_hash_from_height_def info_at_def)
    show ?thesis
    proof (cases "bi_hash (ch ! (length old - 1)) = bi_hash (last old)")
      case same: True
      have ch: "ch = old @ [last ch]" by (rule grown_by_one [OF H(1,2) old(1) st(1) same])
      then have "ch ! length old = last ch" by (metis nth_append_length)
      then have "window_read c ch (info_height ch) cnt True = Some (map bi_timestamp (difficulty_window cnt (old @ [last ch])), map bi_diff (difficulty_window cnt (old @ [last ch])))"
        using st window_moves_on [of cnt n old bi_timestamp] window_moves_on [of cnt n old bi_diff] True cnt old(4,5)
        by (simp add: window_read_def get_block_timestamp_def get_block_cumulative_difficulty_def info_at_def)
      then show ?thesis using hit same ch by auto
    qed (use hit fresh in simp)
  qed
qed

lemma difficulty_step:
  assumes H: "ids_identify H" "ch \<in> H" and ok: "answer_ok v6 ver H c" "window_ok H c"
  shows "case fresh_difficulty v6 ver ch of None \<Rightarrow> get_difficulty_for_next_block v6 ver 0 c ch = None
    | Some d \<Rightarrow> \<exists>c'. get_difficulty_for_next_block v6 ver 0 c ch = Some (d, c') \<and> answer_ok v6 ver H c' \<and> window_ok H c'"
proof (cases "bi_hash (last ch) = m_difficulty_for_next_block_top_hash c")
  case True
  have "last ch \<in> set ch" using ids_identifyD(1) [OF H] by (simp add: chain_fits_def)
  then have "bi_hash (last ch) \<noteq> null_hash" using ids_identifyD(2) [OF H] by blast
  then obtain ch' where "ch' \<in> H" "bi_hash (last ch') = bi_hash (last ch)"
    "fresh_difficulty v6 ver ch' = Some (m_difficulty_for_next_block c)"
    using ok(1) True by (auto simp: answer_ok_def)
  then have "fresh_difficulty v6 ver ch = Some (m_difficulty_for_next_block c)"
    using same_top_same_chain [OF H(1)] H(2) by metis
  then show ?thesis
    using ok True top_block_hash_fits [OF ids_identifyD(1) [OF H]] by (simp add: get_difficulty_for_next_block_def)
next
  case False
  let ?n = "difficulty_blocks_count (ver ch)" and ?w = "difficulty_window (difficulty_blocks_count (ver ch)) ch"
  obtain hit where hit: "window_hit c ch (info_height ch) ?n = Some hit" "window_read c ch (info_height ch) ?n hit = Some (map bi_timestamp ?w, map bi_diff ?w)"
    using window_computed [OF H ok(2) difficulty_blocks_count_bound] by blast
  define c1 where "c1 = c\<lparr>m_timestamps_and_difficulties_height := info_height ch, m_timestamps_and_difficulties_top_hash := bi_hash (last ch),
      m_timestamps := map bi_timestamp ?w, m_difficulties := map bi_diff ?w\<rparr>"
  have "get_difficulty_for_next_block v6 ver 0 c ch = do { diff \<leftarrow> fresh_difficulty v6 ver ch;
      Some (diff, c1\<lparr>m_difficulty_for_next_block_top_hash := bi_hash (last ch), m_difficulty_for_next_block := diff\<rparr>) }"
    using False top_block_hash_fits [OF ids_identifyD(1) [OF H]] hit
    by (simp add: get_difficulty_for_next_block_def fresh_difficulty_def c1_def Let_def)
  moreover have "window_ok H (c1\<lparr>m_difficulty_for_next_block_top_hash := bi_hash (last ch), m_difficulty_for_next_block := d\<rparr>)" for d
    using H(2) by (auto simp: window_ok_def c1_def)
  moreover have "fresh_difficulty v6 ver ch = Some d \<Longrightarrow>
      answer_ok v6 ver H (c1\<lparr>m_difficulty_for_next_block_top_hash := bi_hash (last ch), m_difficulty_for_next_block := d\<rparr>)" for d
    using H(2) by (auto simp: answer_ok_def)
  ultimately show ?thesis by (simp split: option.split)
qed

section \<open>Sequences of calls\<close>

datatype difficulty_call = Next_Difficulty chain | Reset_Window

text \<open>The answers of a sequence of calls: \<open>None\<close> as soon as one of them throws.\<close>

fun run_difficulty_calls :: "(u64 list \<Rightarrow> u128 list \<Rightarrow> u64 \<Rightarrow> u64) \<Rightarrow> (chain \<Rightarrow> u8) \<Rightarrow> difficulty_cache
    \<Rightarrow> difficulty_call list \<Rightarrow> u64 list option" where
  "run_difficulty_calls v6 ver c [] = Some []"
| "run_difficulty_calls v6 ver c (Reset_Window # calls) = run_difficulty_calls v6 ver (reset_difficulty_window c) calls"
| "run_difficulty_calls v6 ver c (Next_Difficulty ch # calls) =
    do { (d, c) \<leftarrow> get_difficulty_for_next_block v6 ver 0 c ch; ds \<leftarrow> run_difficulty_calls v6 ver c calls; Some (d # ds) }"

fun fresh_difficulties :: "(u64 list \<Rightarrow> u128 list \<Rightarrow> u64 \<Rightarrow> u64) \<Rightarrow> (chain \<Rightarrow> u8) \<Rightarrow> difficulty_call list \<Rightarrow> u64 list option" where
  "fresh_difficulties v6 ver [] = Some []"
| "fresh_difficulties v6 ver (Reset_Window # calls) = fresh_difficulties v6 ver calls"
| "fresh_difficulties v6 ver (Next_Difficulty ch # calls) =
    do { d \<leftarrow> fresh_difficulty v6 ver ch; ds \<leftarrow> fresh_difficulties v6 ver calls; Some (d # ds) }"

lemma run_difficulty_calls_fresh:
  assumes "ids_identify H" "\<And>ch. Next_Difficulty ch \<in> set calls \<Longrightarrow> ch \<in> H" "answer_ok v6 ver H c" "window_ok H c"
  shows "run_difficulty_calls v6 ver c calls = fresh_difficulties v6 ver calls"
  using assms(2-)
proof (induction calls arbitrary: c)
  case (Cons a calls)
  show ?case
  proof (cases a)
    case (Next_Difficulty ch)
    then show ?thesis
      using Cons difficulty_step [OF assms(1), of ch v6 ver c] by (auto split: option.splits)
  next
    case Reset_Window
    then show ?thesis using Cons by (simp add: answer_ok_def window_ok_def reset_difficulty_window_def)
  qed
qed simp

text \<open>
  C0: the two caches of \<open>get_difficulty_for_next_block\<close> are invisible. Whatever chains the node is on at the
  successive calls, grown, shrunk or reorganised in between, with or without a reset of the window, every answer
  is the difficulty computed from the last blocks of the chain at that call, and a call throws exactly when that
  computation does; provided that a block hash identifies the chain up to that block.
\<close>

theorem difficulty_cache_transparent:
  assumes "ids_identify H" "\<And>ch. Next_Difficulty ch \<in> set calls \<Longrightarrow> ch \<in> H"
  shows "run_difficulty_calls v6 ver new_difficulty_cache calls = fresh_difficulties v6 ver calls"
  by (rule run_difficulty_calls_fresh [OF assms])
    (simp_all add: answer_ok_def window_ok_def new_difficulty_cache_def)

definition sample_calls :: "difficulty_call list" where
  "sample_calls = [Next_Difficulty (take 2 sample_chain), Next_Difficulty sample_chain, Next_Difficulty forked_chain,
     Reset_Window, Next_Difficulty sample_chain]"

text \<open>The difficulty of version 6 is instantiated here by the difference of the last two cumulative difficulties.\<close>

definition sample_v6 :: "u64 list \<Rightarrow> u128 list \<Rightarrow> u64 \<Rightarrow> u64" where
  "sample_v6 ts ds target = (case rev ds of x # y # r \<Rightarrow> ucast (x - y) + last ts | _ \<Rightarrow> 1)"

theorem difficulty_cache_transparent_witness:
  "run_difficulty_calls sample_v6 (\<lambda>_. 7) new_difficulty_cache sample_calls = Some [1, 220, 350, 220]"
proof -
  have "run_difficulty_calls sample_v6 (\<lambda>_. 7) new_difficulty_cache sample_calls = fresh_difficulties sample_v6 (\<lambda>_. 7) sample_calls"
    by (rule difficulty_cache_transparent [OF sample_ids_identify]) (auto simp: sample_calls_def)
  also have "\<dots> = Some [1, 220, 350, 220]" by code_simp
  finally show ?thesis .
qed

end
