(* ===== verification/Chain_Sync.thy ===== *)
theory Chain_Sync
  imports Block_Info Pruning "HOL-Library.Sublist"
begin

text \<open>
  How two nodes find where their chains part (\<open>src/cryptonote_core/blockchain.cpp\<close>): the list of block hashes a node
  sends (\<open>get_short_chain_history\<close>), the split point the other node finds with it, and the chain entry it answers
  with (\<open>find_blockchain_supplement\<close>). The outer \<open>None\<close> is an exception of the database or a loop that does not
  end; the inner one is a returned \<open>false\<close>.
\<close>

section \<open>Definitions\<close>

definition BLOCKS_IDS_SYNCHRONIZING_DEFAULT_COUNT :: nat where "BLOCKS_IDS_SYNCHRONIZING_DEFAULT_COUNT = 10000"

partial_function (option) history_loop :: "chain \<Rightarrow> u64 \<Rightarrow> u64 \<Rightarrow> u64 \<Rightarrow> u64 \<Rightarrow> bool \<Rightarrow> hash list \<Rightarrow> (bool \<times> hash list) option" where
  "history_loop ch sz i current_multiplier current_back_offset genesis_included ids =
    (if current_back_offset < sz
     then do {
       h \<leftarrow> get_block_hash_from_height ch (sz - current_back_offset);
       let genesis_included = (if sz - current_back_offset = 0 then True else genesis_included);
       if i < 10
       then history_loop ch sz (i + 1) current_multiplier (current_back_offset + 1) genesis_included (ids @ [h])
       else history_loop ch sz (i + 1) (current_multiplier * 2) (current_back_offset + current_multiplier * 2) genesis_included (ids @ [h]) }
     else Some (genesis_included, ids))"

definition get_short_chain_history :: "chain \<Rightarrow> hash list option" where
  "get_short_chain_history ch =
    (let sz = info_height ch
     in if sz = 0 then Some []
        else do {
          (genesis_included, ids) \<leftarrow> history_loop ch sz 0 1 1 False [];
          if \<not> genesis_included then do { h \<leftarrow> get_block_hash_from_height ch 0; Some (ids @ [h]) }
          else Some ids })"

text \<open>The first of the hashes that is on the chain.\<close>

fun split_loop :: "chain \<Rightarrow> hash list \<Rightarrow> u64 option" where
  "split_loop ch [] = None"
| "split_loop ch (h # ids) = (case block_exists ch h of Some split_height \<Rightarrow> Some split_height | None \<Rightarrow> split_loop ch ids)"

definition find_split :: "chain \<Rightarrow> hash list \<Rightarrow> u64 option option" where
  "find_split ch qblock_ids =
    (if qblock_ids = [] then Some None
     else do {
       gen_hash \<leftarrow> get_block_hash_from_height ch 0;
       if last qblock_ids \<noteq> gen_hash then Some None
       else Some (split_loop ch qblock_ids) })"

record chain_entry =
  start_height :: u64
  total_height :: u64
  cumulative_difficulty :: u64
  cumulative_difficulty_top64 :: u64
  m_block_ids :: "hash list"
  m_block_weights :: "u64 list"

function supplement_loop :: "chain \<Rightarrow> u64 \<Rightarrow> u64 \<Rightarrow> nat \<Rightarrow> hash list \<Rightarrow> u64 list \<Rightarrow> (hash list \<times> u64 list) option" where
  "supplement_loop ch i stop_height cnt hashes weights =
    (if i < stop_height \<and> cnt < BLOCKS_IDS_SYNCHRONIZING_DEFAULT_COUNT
     then do {
       h \<leftarrow> get_block_hash_from_height ch i;
       w \<leftarrow> get_block_weight ch i;
       supplement_loop ch (i + 1) stop_height (cnt + 1) (hashes @ [h]) (weights @ [w]) }
     else Some (hashes, weights))"
  by pat_completeness auto
termination
  by (relation "measure (\<lambda>(ch, i, s, cnt, hs, ws). BLOCKS_IDS_SYNCHRONIZING_DEFAULT_COUNT - cnt)") auto

definition find_supplement_hashes :: "u32 \<Rightarrow> chain \<Rightarrow> hash list \<Rightarrow> bool \<Rightarrow> (u64 \<times> u64 \<times> hash list \<times> u64 list) option option" where
  "find_supplement_hashes pruning_seed ch qblock_ids clip_pruned = do {
     split \<leftarrow> find_split ch qblock_ids;
     case split of None \<Rightarrow> Some None
     | Some start \<Rightarrow>
       let current_height = info_height ch
       in if clip_pruned \<and> start < get_next_unpruned_block_height start current_height pruning_seed then Some None
          else do {
            stop_height \<leftarrow> (if clip_pruned then get_next_pruned_block_height start current_height pruning_seed
                             else Some current_height);
            (hashes, weights) \<leftarrow> supplement_loop ch start stop_height 0 [] [];
            Some (Some (start, current_height, hashes, weights)) } }"

definition find_blockchain_supplement :: "u32 \<Rightarrow> chain \<Rightarrow> hash list \<Rightarrow> bool \<Rightarrow> chain_entry option option" where
  "find_blockchain_supplement pruning_seed ch qblock_ids clip_pruned = do {
     result \<leftarrow> find_supplement_hashes pruning_seed ch qblock_ids clip_pruned;
     case result of None \<Rightarrow> Some None
     | Some (start, current_height, hashes, weights) \<Rightarrow> do {
         wide \<leftarrow> get_block_cumulative_difficulty ch (current_height - 1);
         Some (Some \<lparr>start_height = start, total_height = current_height,
           cumulative_difficulty = ucast (wide AND 0xffffffffffffffff),
           cumulative_difficulty_top64 = ucast (drop_bit 64 wide AND 0xffffffffffffffff),
           m_block_ids = hashes, m_block_weights = weights\<rparr>) } }"

section \<open>The offsets of the history\<close>

text \<open>The offsets from the top at which the history has a hash: one by one at first, then at distances that double.\<close>

function history_offsets :: "nat \<Rightarrow> nat \<Rightarrow> nat \<Rightarrow> nat \<Rightarrow> nat list" where
  "history_offsets n i k off =
    (if off < n then off # (if i < 10 then history_offsets n (i + 1) k (off + 1)
                            else history_offsets n (i + 1) (k + 1) (off + 2 ^ (k + 1)))
     else [])"
  by pat_completeness auto
termination
  by (relation "measure (\<lambda>(n, i, k, off). n - off)") (auto intro: diff_less_mono2)

declare history_offsets.simps [simp del] supplement_loop.simps [simp del]

definition on_schedule :: "nat \<Rightarrow> nat \<Rightarrow> nat \<Rightarrow> bool" where
  "on_schedule i k off \<longleftrightarrow> (if i < 10 then k = 0 \<and> off = i + 1 else i < off \<and> off = 9 + 2 ^ (k + 1))"

lemma on_schedule_step:
  assumes "on_schedule i k off"
  shows "i < 10 \<Longrightarrow> on_schedule (i + 1) k (off + 1)" "\<not> i < 10 \<Longrightarrow> on_schedule (i + 1) (k + 1) (off + 2 ^ (k + 1))"
  using assms by (auto simp: on_schedule_def split: if_splits)

text \<open>The word loop follows the schedule as long as the chain is shorter than \<open>2 ^ 63\<close> blocks.\<close>

lemma history_loop_offsets:
  assumes "chain_fits ch" "on_schedule i k off" "off < 2 ^ 64"
  shows "history_loop ch (info_height ch) (of_nat i) (2 ^ k) (of_nat off) False ids
    = Some (False, ids @ map (\<lambda>x. bi_hash (ch ! (length ch - x))) (history_offsets (length ch) i k off))"
  using assms(2,3)
proof (induction "length ch" i k off arbitrary: ids rule: history_offsets.induct)
  case (1 i k off)
  have n: "unat (info_height ch) = length ch" "length ch < 2 ^ 63"
    using assms(1) by (auto simp: chain_fits_def unat_info_height)
  have off: "unat (of_nat off :: u64) = off" using "1.prems"(2) by (simp add: unat_of_nat_u64)
  show ?case
  proof (cases "off < length ch")
    case False
    then show ?thesis using n off by (simp add: history_loop.simps history_offsets.simps word_less_nat_alt)
  next
    case True
    have pos: "0 < off" "i < off" "i < 2 ^ 64" using "1.prems" True n by (auto simp: on_schedule_def split: if_splits)
    have sub: "unat (info_height ch - of_nat off) = length ch - off"
      using True off n by (simp add: unat_sub_u64 word_le_nat_alt)
    then have hash: "get_block_hash_from_height ch (info_height ch - of_nat off) = Some (bi_hash (ch ! (length ch - off)))"
      using True pos by (simp add: get_block_hash_from_height_def info_at_def)
    have nz: "info_height ch - of_nat off \<noteq> 0" using sub True by auto
    have lt: "(of_nat off :: u64) < info_height ch" using True off n by (simp add: word_less_nat_alt)
    have i: "(of_nat i :: u64) < 10 \<longleftrightarrow> i < 10" using pos(3) by (simp add: word_less_nat_alt unat_of_nat_u64)
    show ?thesis
    proof (cases "i < 10")
      case small: True
      then show ?thesis
        using "1.hyps"(1) [OF True small on_schedule_step(1) [OF "1.prems"(1) small]] True n hash nz lt i
        by (subst history_loop.simps, subst history_offsets.simps) (simp add: add.commute)
    next
      case large: False
      have "off + 2 ^ (k + 1) < 2 ^ 64" using "1.prems"(1) large True n by (simp add: on_schedule_def)
      then show ?thesis
        using "1.hyps"(2) [OF True large on_schedule_step(2) [OF "1.prems"(1) large]] large True hash nz lt i
        by (subst history_loop.simps, subst history_offsets.simps) (simp add: ac_simps)
    qed
  qed
qed

definition history_heights :: "nat \<Rightarrow> nat list" where
  "history_heights n = map (\<lambda>x. n - x) (history_offsets n 0 0 1) @ [0]"

lemma get_short_chain_history_fits:
  assumes "chain_fits ch"
  shows "get_short_chain_history ch = Some (map (\<lambda>h. bi_hash (ch ! h)) (history_heights (length ch)))"
proof -
  have "unat (info_height ch) = length ch" "ch \<noteq> []" using assms by (auto simp: chain_fits_def unat_info_height)
  then have "info_height ch \<noteq> 0" "get_block_hash_from_height ch 0 = Some (bi_hash (ch ! 0))"
    by (auto simp: get_block_hash_from_height_def info_at_def)
  then show ?thesis
    using history_loop_offsets [OF assms, of 0 0 1 "[]"]
    by (simp add: get_short_chain_history_def history_heights_def on_schedule_def Let_def)
qed

lemma history_offsets_range: "x \<in> set (history_offsets n i k off) \<Longrightarrow> off \<le> x \<and> x < n"
proof (induction n i k off rule: history_offsets.induct)
  case (1 n i k off)
  then show ?case by (subst (asm) (3) history_offsets.simps) (auto split: if_splits dest: add_leD1)
qed

lemma history_offsets_sorted: "sorted_wrt (<) (history_offsets n i k off)"
proof (induction n i k off rule: history_offsets.induct)
  case (1 n i k off)
  moreover have "off < x" if "off + 2 ^ Suc k \<le> x" for x
    using that zero_less_power [of "2 :: nat" "Suc k"] by linarith
  ultimately show ?case
    by (subst history_offsets.simps) (auto dest!: history_offsets_range simp: Suc_le_eq simp del: power_Suc)
qed

text \<open>Every offset has an offset of the history, or the genesis block, less than as far again from the top; up to 11 it is there itself.\<close>

lemma history_offsets_near:
  assumes "on_schedule i k off" "off \<le> q" "q \<le> n"
  shows "\<exists>x \<in> set (history_offsets n i k off) \<union> {n}. q \<le> x \<and> x < 2 * q \<and> (q \<le> 11 \<longrightarrow> x = q)"
  using assms
proof (induction n i k off rule: history_offsets.induct)
  case (1 n i k off)
  show ?case
  proof (cases "q = n \<or> q = off")
    case True
    then show ?thesis using "1.prems" by (subst history_offsets.simps) (auto simp: on_schedule_def split: if_splits)
  next
    case False
    then have lt: "off < n" "off < q" using "1.prems" by auto
    let ?next = "if i < 10 then off + 1 else off + 2 ^ (k + 1)"
    show ?thesis
    proof (cases "?next \<le> q")
      case True
      then have "\<exists>x \<in> set (if i < 10 then history_offsets n (i + 1) k (off + 1) else history_offsets n (i + 1) (k + 1) (off + 2 ^ (k + 1))) \<union> {n}.
          q \<le> x \<and> x < 2 * q \<and> (q \<le> 11 \<longrightarrow> x = q)"
        using "1.IH" "1.prems" lt on_schedule_step [OF "1.prems"(1)] by (simp split: if_splits)
      then show ?thesis using lt(1) by (subst history_offsets.simps) auto
    next
      case skip: False
      then have big: "\<not> i < 10" "off = 9 + 2 ^ (k + 1)" "11 < q" using lt "1.prems"(1)
        by (auto simp: on_schedule_def split: if_splits)
      show ?thesis
      proof (cases "off + 2 ^ (k + 1) < n")
        case True
        then have "off + 2 ^ (k + 1) \<in> set (history_offsets n i k off)"
          using big(1) lt(1) by (subst history_offsets.simps, subst history_offsets.simps) simp
        then show ?thesis using skip big lt by (intro bexI [of _ "off + 2 ^ (k + 1)"]) auto
      next
        case False
        then show ?thesis using skip big lt "1.prems"(3) by (intro bexI [of _ n]) auto
      qed
    qed
  qed
qed

lemma history_heights_sorted:
  assumes "0 < n"
  shows "sorted_wrt (>) (history_heights n)" "set (history_heights n) \<subseteq> {..<n}"
proof -
  have "sorted_wrt (\<lambda>x y. n - x > n - y) (history_offsets n 0 0 1)"
    using history_offsets_sorted by (rule sorted_wrt_mono_rel [rotated]) (auto dest!: history_offsets_range)
  then show "sorted_wrt (>) (history_heights n)"
    by (auto simp: history_heights_def sorted_wrt_append sorted_wrt_map dest!: history_offsets_range)
  show "set (history_heights n) \<subseteq> {..<n}"
    using assms by (auto simp: history_heights_def dest!: history_offsets_range)
qed

lemma history_heights_near:
  assumes "h < n"
  shows "\<exists>x \<in> set (history_heights n). x \<le> h \<and> n - x < 2 * (n - h) \<and> (n - h \<le> 11 \<longrightarrow> x = h)"
proof -
  obtain y where y: "y \<in> set (history_offsets n 0 0 1) \<union> {n}" "n - h \<le> y" "y < 2 * (n - h)" "n - h \<le> 11 \<longrightarrow> y = n - h"
    using history_offsets_near [of 0 0 1 "n - h" n] assms by (fastforce simp: on_schedule_def)
  moreover have "y \<le> n" using y(1) by (auto dest: history_offsets_range)
  ultimately show ?thesis using assms by (intro bexI [of _ "n - y"]) (auto simp: history_heights_def)
qed

lemma history_offsets_length:
  "on_schedule i k off \<Longrightarrow> n < 2 ^ 63 \<Longrightarrow> length (history_offsets n i k off) \<le> (10 - i) + (62 - k)"
proof (induction n i k off rule: history_offsets.induct)
  case (1 n i k off)
  have k: "k + 1 < 63" if "off < n" "\<not> i < 10"
  proof -
    have "(2 :: nat) ^ (k + 1) < 2 ^ 63" using that "1.prems" by (simp add: on_schedule_def)
    then show ?thesis using power_less_imp_less_exp by (metis one_less_numeral_iff semiring_norm(76))
  qed
  show ?case
  proof (cases "off < n")
    case True
    have "i < 10 \<Longrightarrow> length (history_offsets n (i + 1) k (off + 1)) \<le> 10 - (i + 1) + (62 - k)"
      by (rule "1.IH"(1) [OF True _ on_schedule_step(1) [OF "1.prems"(1)] "1.prems"(2)])
    moreover have "\<not> i < 10 \<Longrightarrow> length (history_offsets n (i + 1) (k + 1) (off + 2 ^ (k + 1))) \<le> 10 - (i + 1) + (62 - (k + 1))"
      by (rule "1.IH"(2) [OF True _ on_schedule_step(2) [OF "1.prems"(1)] "1.prems"(2)])
    ultimately show ?thesis using True k by (subst history_offsets.simps) (cases "i < 10"; simp; arith)
  qed (simp add: history_offsets.simps)
qed

section \<open>The split point\<close>

definition shared :: "chain \<Rightarrow> chain \<Rightarrow> nat" where
  "shared ours theirs = length (longest_common_prefix ours theirs)"

lemma shared_prefix:
  shows "take (shared ours theirs) ours = take (shared ours theirs) theirs"
    and "shared ours theirs \<le> length ours" "shared ours theirs \<le> length theirs"
    and "take (Suc i) ours = take (Suc i) theirs \<Longrightarrow> i < length ours \<Longrightarrow> i < shared ours theirs"
proof -
  have p: "prefix (longest_common_prefix ours theirs) ours" "prefix (longest_common_prefix ours theirs) theirs"
    by (rule longest_common_prefix_prefix1 longest_common_prefix_prefix2)+
  then show "take (shared ours theirs) ours = take (shared ours theirs) theirs"
    unfolding shared_def by (metis append_eq_conv_conj prefix_def)
  show "shared ours theirs \<le> length ours" "shared ours theirs \<le> length theirs"
    using p by (auto simp: shared_def prefix_length_le)
  assume "take (Suc i) ours = take (Suc i) theirs" "i < length ours"
  then have "prefix (take (Suc i) ours) (longest_common_prefix ours theirs)"
    by (intro longest_common_prefix_max_prefix) (auto simp: take_is_prefix, metis take_is_prefix)
  then show "i < shared ours theirs"
    using \<open>i < length ours\<close> by (auto simp: shared_def dest: prefix_length_le)
qed

lemma block_exists_shared:
  assumes H: "ids_identify {ours, theirs}" and h: "h < length theirs"
  shows "block_exists ours (bi_hash (theirs ! h)) = (if h < shared ours theirs then Some (of_nat h) else None)"
proof -
  have same: "i = h \<and> i < shared ours theirs" if "i < length ours" "bi_hash (ours ! i) = bi_hash (theirs ! h)" for i
  proof -
    have "take (Suc i) ours = take (Suc h) theirs"
      using that h by (intro ids_identifyD(3) [OF H]) simp_all
    moreover from this have "i = h" using that(1) h by (metis Suc_leI diff_Suc_1 length_take min_absorb2)
    ultimately show ?thesis using shared_prefix(4) that(1) by blast
  qed
  show ?thesis
  proof (cases "h < shared ours theirs")
    case True
    then have h: "ours ! h = theirs ! h" "h < length ours"
      using shared_prefix(1-3) [of ours theirs] by (metis nth_take, simp)
    have "bi_hash (ours ! j) \<noteq> bi_hash (theirs ! h)" if "j < h" for j
      using same [of j] that h(2) by auto
    then have "find (\<lambda>i. bi_hash (ours ! i) = bi_hash (theirs ! h)) [0..<length ours] = Some h"
      using h by (auto simp: find_Some_iff intro!: exI [of _ h])
    then show ?thesis using True by (simp add: block_exists_def)
  next
    case False
    then show ?thesis using same by (auto simp: block_exists_def find_None_iff)
  qed
qed

lemma split_loop_shared:
  assumes H: "ids_identify {ours, theirs}" and g: "0 < shared ours theirs"
  shows "sorted_wrt (>) hs \<Longrightarrow> set hs \<subseteq> {..<length theirs} \<Longrightarrow> 0 \<in> set hs \<Longrightarrow>
    \<exists>k \<in> set hs. split_loop ours (map (\<lambda>h. bi_hash (theirs ! h)) hs) = Some (of_nat k) \<and> k < shared ours theirs
      \<and> (\<forall>h \<in> set hs. h < shared ours theirs \<longrightarrow> h \<le> k)"
proof (induction hs)
  case (Cons h hs)
  then show ?case
    using block_exists_shared [OF H, of h] g by (cases "h < shared ours theirs") (auto simp: less_imp_le)
qed simp

lemma find_split_shared:
  assumes H: "ids_identify {ours, theirs}" and g: "0 < shared ours theirs"
  obtains k where "find_split ours (map (\<lambda>h. bi_hash (theirs ! h)) (history_heights (length theirs))) = Some (Some (of_nat k))"
    "k < shared ours theirs" "length theirs - k < 2 * (length theirs - (shared ours theirs - 1))"
    "length theirs - (shared ours theirs - 1) \<le> 11 \<Longrightarrow> k = shared ours theirs - 1"
proof -
  let ?hs = "history_heights (length theirs)" and ?p = "shared ours theirs"
  have ne: "0 < length theirs" "0 < length ours" using shared_prefix(2,3) [of ours theirs] g by auto
  have zero: "0 \<in> set ?hs" by (simp add: history_heights_def)
  obtain k where k: "k \<in> set ?hs" "split_loop ours (map (\<lambda>h. bi_hash (theirs ! h)) ?hs) = Some (of_nat k)" "k < ?p"
    "\<And>h. h \<in> set ?hs \<Longrightarrow> h < ?p \<Longrightarrow> h \<le> k"
    using split_loop_shared [OF H g history_heights_sorted [OF ne(1)] zero] by blast
  have "?p - 1 < length theirs" using g shared_prefix(3) [of ours theirs] by linarith
  then obtain x where x: "x \<in> set ?hs" "x \<le> ?p - 1" "length theirs - x < 2 * (length theirs - (?p - 1))"
    "length theirs - (?p - 1) \<le> 11 \<longrightarrow> x = ?p - 1"
    using history_heights_near by blast
  have "x \<le> k" using k(4) x(1,2) g by simp
  have "ours ! 0 = theirs ! 0" using shared_prefix(1) g by (metis nth_take)
  then have "find_split ours (map (\<lambda>h. bi_hash (theirs ! h)) ?hs) = Some (Some (of_nat k))"
    using k(2) ne by (simp add: find_split_def history_heights_def get_block_hash_from_height_def info_at_def)
  then show thesis using that k(3) x \<open>x \<le> k\<close> by fastforce
qed

section \<open>The answer\<close>

lemma block_exists_Some:
  assumes "block_exists ch h = Some w"
  obtains k where "w = of_nat k" "k < length ch" "bi_hash (ch ! k) = h"
  using assms by (auto simp: block_exists_def find_Some_iff)

lemma block_exists_None: "block_exists ch h = None \<longleftrightarrow> h \<notin> bi_hash ` set ch"
  by (fastforce simp: block_exists_def find_None_iff in_set_conv_nth)

lemma split_loop_genesis:
  assumes "qids \<noteq> []" "last qids = bi_hash (ch ! 0)" "ch \<noteq> []"
  obtains k i where "split_loop ch qids = Some (of_nat k)" "k < length ch" "i < length qids" "qids ! i = bi_hash (ch ! k)"
    "\<And>j. j < i \<Longrightarrow> qids ! j \<notin> bi_hash ` set ch"
proof -
  have "\<exists>k i. split_loop ch qids = Some (of_nat k) \<and> k < length ch \<and> i < length qids \<and> qids ! i = bi_hash (ch ! k)
      \<and> (\<forall>j<i. qids ! j \<notin> bi_hash ` set ch)"
    using assms(1,2)
  proof (induction qids)
    case (Cons h qids)
    show ?case
    proof (cases "block_exists ch h")
      case None
      then have h: "h \<notin> bi_hash ` set ch" by (simp add: block_exists_None)
      then have "qids \<noteq> []" using Cons.prems(2) assms(3) by auto
      then obtain k i where "split_loop ch qids = Some (of_nat k)" "k < length ch" "i < length qids" "qids ! i = bi_hash (ch ! k)"
        "\<forall>j<i. qids ! j \<notin> bi_hash ` set ch"
        using Cons by auto
      then show ?thesis using None h by (intro exI [of _ k] exI [of _ "Suc i"]) (auto simp: less_Suc_eq_0_disj)
    next
      case (Some w)
      then obtain k where "w = of_nat k" "k < length ch" "bi_hash (ch ! k) = h" by (rule block_exists_Some)
      then show ?thesis using Some by (intro exI [of _ k] exI [of _ 0]) auto
    qed
  qed simp
  then show thesis using that by blast
qed

lemma supplement_loop_take:
  assumes "stop \<le> length ch" "length ch < 2 ^ 63" "i \<le> length ch"
  shows "supplement_loop ch (of_nat i) (of_nat stop) cnt hashes weights
    = Some (hashes @ map bi_hash (take (BLOCKS_IDS_SYNCHRONIZING_DEFAULT_COUNT - cnt) (drop i (take stop ch))),
            weights @ map bi_weight (take (BLOCKS_IDS_SYNCHRONIZING_DEFAULT_COUNT - cnt) (drop i (take stop ch))))"
  using assms(3)
proof (induction "BLOCKS_IDS_SYNCHRONIZING_DEFAULT_COUNT - cnt" arbitrary: cnt i hashes weights)
  case 0
  then show ?case by (subst supplement_loop.simps) simp
next
  case (Suc m)
  have lt: "(of_nat i :: u64) < of_nat stop \<longleftrightarrow> i < stop"
    using assms Suc.prems by (simp add: word_less_nat_alt unat_of_nat_u64)
  have cnt: "cnt < BLOCKS_IDS_SYNCHRONIZING_DEFAULT_COUNT" using Suc.hyps(2) by linarith
  show ?case
  proof (cases "i < stop")
    case False
    then show ?thesis using lt by (subst supplement_loop.simps) simp
  next
    case True
    then have at: "info_at ch (of_nat i) = Some (ch ! i)" using assms by (intro info_at_of_nat) auto
    have "drop i (take stop ch) = ch ! i # drop (Suc i) (take stop ch)"
      using True assms by (subst Cons_nth_drop_Suc [symmetric]) auto
    moreover have "BLOCKS_IDS_SYNCHRONIZING_DEFAULT_COUNT - cnt = Suc (BLOCKS_IDS_SYNCHRONIZING_DEFAULT_COUNT - Suc cnt)"
      using cnt by linarith
    moreover have "supplement_loop ch (of_nat (Suc i)) (of_nat stop) (cnt + 1) (hashes @ [bi_hash (ch ! i)]) (weights @ [bi_weight (ch ! i)]) =
        Some ((hashes @ [bi_hash (ch ! i)]) @ map bi_hash (take (BLOCKS_IDS_SYNCHRONIZING_DEFAULT_COUNT - (cnt + 1)) (drop (Suc i) (take stop ch))),
          (weights @ [bi_weight (ch ! i)]) @ map bi_weight (take (BLOCKS_IDS_SYNCHRONIZING_DEFAULT_COUNT - (cnt + 1)) (drop (Suc i) (take stop ch))))"
      using Suc.hyps True assms by (intro Suc.hyps(1)) auto
    ultimately show ?thesis
      using True lt cnt at
      by (subst supplement_loop.simps) (simp add: get_block_hash_from_height_def get_block_weight_def add.commute)
  qed
qed

text \<open>The entry for a split at height \<open>k\<close>, with the blocks below \<open>stop\<close>.\<close>

definition entry_of :: "chain \<Rightarrow> nat \<Rightarrow> nat \<Rightarrow> chain_entry" where
  "entry_of ch k stop =
    (let sent = take 10000 (drop k (take stop ch))
     in \<lparr>start_height = of_nat k, total_height = of_nat (length ch),
         cumulative_difficulty = ucast (bi_diff (last ch)), cumulative_difficulty_top64 = ucast (drop_bit 64 (bi_diff (last ch))),
         m_block_ids = map bi_hash sent, m_block_weights = map bi_weight sent\<rparr>)"

lemma get_top_difficulty: "chain_fits ch \<Longrightarrow> get_block_cumulative_difficulty ch (info_height ch - 1) = Some (bi_diff (last ch))"
  using top_block_hash_fits(2) [of ch]
  by (simp add: get_block_cumulative_difficulty_def info_at_def last_conv_nth chain_fits_def)

lemma supplement_stop:
  assumes "pruning_seed_of seed stripe lg" "length ch \<le> 500000001" "k < length ch"
  obtains stop where "(if clip then get_next_pruned_block_height (of_nat k) (info_height ch) seed else Some (info_height ch)) = Some (of_nat stop)"
    "stop \<le> length ch" "if clip then \<forall>h. k \<le> h \<and> h < stop \<longrightarrow> has_unpruned_block (of_nat h) (info_height ch) seed else stop = length ch"
proof (cases clip)
  case True
  have u: "unat (of_nat k :: u64) = k" "unat (info_height ch) = length ch"
    using assms by (simp_all add: unat_of_nat_u64 unat_info_height)
  have small: "of_nat k \<le> CRYPTONOTE_MAX_BLOCK_NUMBER + 1" "info_height ch \<le> CRYPTONOTE_MAX_BLOCK_NUMBER + 1"
    using u assms by (simp_all add: max_block_bound)
  obtain r where r: "get_next_pruned_block_height (of_nat k) (info_height ch) seed = Some r" "r \<le> info_height ch"
    "\<And>c. of_nat k \<le> c \<Longrightarrow> c < r \<Longrightarrow> has_unpruned_block c (info_height ch) seed"
    using next_pruned_correct [OF assms(1) small] u assms(3) by (auto simp: word_le_nat_alt)
  have "k \<le> h \<Longrightarrow> h < unat r \<Longrightarrow> has_unpruned_block (of_nat h) (info_height ch) seed" for h
    using r(2) u assms by (intro r(3)) (auto simp: word_le_nat_alt word_less_nat_alt unat_of_nat_u64)
  then show thesis using True r(1,2) u by (intro that [of "unat r"]) (auto simp: word_le_nat_alt)
qed (use that [of "length ch"] in \<open>simp add: info_height_def\<close>)

lemma clipped_iff:
  assumes "pruning_seed_of seed stripe lg" "length ch \<le> 500000001" "k < length ch"
  shows "of_nat k < get_next_unpruned_block_height (of_nat k) (info_height ch) seed
    \<longleftrightarrow> \<not> has_unpruned_block (of_nat k) (info_height ch) seed"
proof -
  have "unat (of_nat k :: u64) = k" "unat (info_height ch) = length ch"
    using assms by (simp_all add: unat_of_nat_u64 unat_info_height)
  then have "of_nat k \<le> CRYPTONOTE_MAX_BLOCK_NUMBER + 1" "info_height ch \<le> CRYPTONOTE_MAX_BLOCK_NUMBER + 1"
    using assms by (simp_all add: max_block_bound)
  from next_unpruned_least [OF assms(1) this] show ?thesis by (metis le_less order_refl)
qed

lemma find_blockchain_supplement_entry:
  assumes "pruning_seed_of seed stripe lg" "chain_fits ch" "length ch \<le> 500000001" "k < length ch"
    and split: "find_split ch qids = Some (Some (of_nat k))"
  obtains stop where "find_blockchain_supplement seed ch qids clip
      = Some (if clip \<and> \<not> has_unpruned_block (of_nat k) (info_height ch) seed then None else Some (entry_of ch k stop))"
    "stop \<le> length ch" "if clip then \<forall>h. k \<le> h \<and> h < stop \<longrightarrow> has_unpruned_block (of_nat h) (info_height ch) seed else stop = length ch"
proof -
  obtain stop where stop: "(if clip then get_next_pruned_block_height (of_nat k) (info_height ch) seed else Some (info_height ch)) = Some (of_nat stop)"
    "stop \<le> length ch" "if clip then \<forall>h. k \<le> h \<and> h < stop \<longrightarrow> has_unpruned_block (of_nat h) (info_height ch) seed else stop = length ch"
    by (rule supplement_stop [OF assms(1,3,4)])
  have loop: "supplement_loop ch (of_nat k) (of_nat stop) 0 [] [] =
      Some (m_block_ids (entry_of ch k stop), m_block_weights (entry_of ch k stop))"
    using supplement_loop_take [of stop ch k 0 "[]" "[]"] stop(2) assms(2,4)
    by (simp add: entry_of_def BLOCKS_IDS_SYNCHRONIZING_DEFAULT_COUNT_def Let_def chain_fits_def)
  have "find_supplement_hashes seed ch qids clip = Some
      (if clip \<and> \<not> has_unpruned_block (of_nat k) (info_height ch) seed then None
       else Some (of_nat k, info_height ch, m_block_ids (entry_of ch k stop), m_block_weights (entry_of ch k stop)))"
    using split stop(1) loop clipped_iff [OF assms(1,3,4)]
    by (cases clip) (simp_all add: find_supplement_hashes_def Let_def)
  then have "find_blockchain_supplement seed ch qids clip
      = Some (if clip \<and> \<not> has_unpruned_block (of_nat k) (info_height ch) seed then None else Some (entry_of ch k stop))"
    using get_top_difficulty [OF assms(2)]
    by (simp add: find_blockchain_supplement_def low_half high_half)
      (simp add: entry_of_def Let_def info_height_def)
  then show thesis using that stop(2,3) by blast
qed

section \<open>Properties\<close>

text \<open>
  C0: \<open>get_short_chain_history\<close> ends on every chain of fewer than \<open>2 ^ 63\<close> blocks, although its loop doubles a
  64-bit distance without a check for overflow. The history has at most 73 hashes, all of the chain and in strictly
  descending order of height, the first is that of the top block and the last that of the genesis block.
\<close>

theorem short_chain_history_terminates:
  assumes "chain_fits ch"
  shows "\<exists>hs. get_short_chain_history ch = Some (map (\<lambda>h. bi_hash (ch ! h)) hs) \<and> length hs \<le> 73
    \<and> sorted_wrt (>) hs \<and> hd hs = length ch - 1 \<and> last hs = 0"
proof -
  have n: "0 < length ch" "length ch < 2 ^ 63" using assms by (auto simp: chain_fits_def)
  have "length (history_offsets (length ch) 0 0 1) \<le> 72"
    using history_offsets_length [of 0 0 1 "length ch"] n by (simp add: on_schedule_def)
  moreover have "hd (history_heights (length ch)) = length ch - 1"
    using n by (simp add: history_heights_def hd_append) (subst history_offsets.simps, auto simp: history_offsets.simps)
  ultimately show ?thesis
    using get_short_chain_history_fits [OF assms] history_heights_sorted(1) [OF n(1)]
    by (intro exI [of _ "history_heights (length ch)"]) (simp add: history_heights_def)
qed

theorem short_chain_history_terminates_witness:
  "\<exists>hs. get_short_chain_history sample_chain = Some (map (\<lambda>h. bi_hash (sample_chain ! h)) hs) \<and> last hs = 0"
proof -
  have "chain_fits sample_chain" by (simp add: chain_fits_def sample_chain_def)
  from short_chain_history_terminates [OF this] show ?thesis by blast
qed

text \<open>
  C0: two nodes on chains with the same genesis block find where they part. From the history a node sends, the other
  one takes a block that both have at the same height, and the distance of that block from the top is less than twice
  the distance of their last common block; it is the last common block itself when that is among the last eleven.
\<close>

theorem sync_split_point:
  assumes "ids_identify {ours, theirs}" "hd ours = hd theirs"
  shows "\<exists>ids k. get_short_chain_history theirs = Some ids \<and> find_split ours ids = Some (Some (of_nat k))
    \<and> k < shared ours theirs \<and> length theirs - k < 2 * (length theirs - (shared ours theirs - 1))
    \<and> (length theirs - (shared ours theirs - 1) \<le> 11 \<longrightarrow> k = shared ours theirs - 1)"
proof -
  have fits: "chain_fits ours" "chain_fits theirs" using assms(1) by (auto intro: ids_identifyD(1))
  then have "take (Suc 0) ours = take (Suc 0) theirs" "0 < length ours"
    using assms(2) by (auto simp: chain_fits_def neq_Nil_conv)
  then have "0 < shared ours theirs" by (rule shared_prefix(4))
  from find_split_shared [OF assms(1) this] show ?thesis
    using get_short_chain_history_fits [OF fits(2)] by metis
qed

theorem sync_split_point_witness:
  "\<exists>ids. get_short_chain_history forked_chain = Some ids \<and> find_split sample_chain ids = Some (Some 1)"
proof -
  have sub: "ids_identify {sample_chain, forked_chain}"
    using sample_ids_identify unfolding ids_identify_def by blast
  have "sample_block 3 120 \<noteq> sample_block 4 150" by (simp add: sample_block_def)
  then have "shared sample_chain forked_chain = 2" "length forked_chain = 3" "hd sample_chain = hd forked_chain"
    by (simp_all add: shared_def sample_chain_def forked_chain_def)
  with sync_split_point [OF sub] show ?thesis by force
qed



end
