(* ===== verification/Hc128.thy ===== *)
theory Hc128
  imports Prelude "HOL-Library.Monad_Syntax"
begin

text \<open>
  The stream cipher HC-128 (\<open>src/crypto/hc128.c\<close>, \<open>hc128.h\<close>), from which the proof of work draws its random numbers:
  the unrolled generation of 16 key words, the in-place expansion of key and initialisation vector, the encryption of
  a message and the bounded random number. Arrays are lists; a 32-bit access to a byte buffer reads little-endian words,
  as on the platforms the code is built for.
\<close>

section \<open>Definitions\<close>

record HC128_State =
  hc_P :: "u32 list"
  hc_Q :: "u32 list"
  keystream :: "u32 list"
  counter1024 :: u32

definition ROTR32 :: "u32 \<Rightarrow> nat \<Rightarrow> u32" where
  "ROTR32 x n = drop_bit n x OR push_bit (32 - n) x"

definition ROTL32 :: "u32 \<Rightarrow> nat \<Rightarrow> u32" where
  "ROTL32 x n = push_bit n x OR drop_bit (32 - n) x"

text \<open>The two lookups, in the other table.\<close>

definition hc_h1 :: "u32 list \<Rightarrow> u32 \<Rightarrow> u32" where
  "hc_h1 Q x = (let a = (ucast x :: u8); c = (ucast (drop_bit 16 x) :: u8) in Q ! unat a + Q ! (256 + unat c))"

definition hc_h2 :: "u32 list \<Rightarrow> u32 \<Rightarrow> u32" where
  "hc_h2 P x = (let a = (ucast x :: u8); c = (ucast (drop_bit 16 x) :: u8) in P ! unat a + P ! (256 + unat c))"

type_synonym hc_row = "u32 \<times> u32 \<times> u32 \<times> u32 \<times> u32"

text \<open>The macros take the array elements \<open>m0\<close>, \<open>m511\<close>, \<open>m3\<close>, \<open>m10\<close>, \<open>m12\<close>, here by their indices, and the index \<open>s\<close> of a key word.\<close>

definition step_P :: "hc_row \<Rightarrow> nat \<Rightarrow> HC128_State \<Rightarrow> HC128_State" where
  "step_P r s st = (case r of (m0, m511, m3, m10, m12) \<Rightarrow>
     let P = hc_P st;
         tem0 = ROTR32 (P ! unat m511) 23;
         tem1 = ROTR32 (P ! unat m3) 10;
         tem2 = ROTR32 (P ! unat m10) 8;
         P = P[unat m0 := P ! unat m0 + (tem2 + (tem0 XOR tem1))];
         tem3 = hc_h1 (hc_Q st) (P ! unat m12)
     in st\<lparr>hc_P := P, keystream := (keystream st)[s := tem3 XOR P ! unat m0]\<rparr>)"

definition step_Q :: "hc_row \<Rightarrow> nat \<Rightarrow> HC128_State \<Rightarrow> HC128_State" where
  "step_Q r s st = (case r of (m0, m511, m3, m10, m12) \<Rightarrow>
     let Q = hc_Q st;
         tem0 = ROTL32 (Q ! unat m511) 23;
         tem1 = ROTL32 (Q ! unat m3) 10;
         tem2 = ROTL32 (Q ! unat m10) 8;
         Q = Q[unat m0 := Q ! unat m0 + (tem2 + (tem0 XOR tem1))];
         tem3 = hc_h2 (hc_P st) (Q ! unat m12)
     in st\<lparr>hc_Q := Q, keystream := (keystream st)[s := tem3 XOR Q ! unat m0]\<rparr>)"

text \<open>The indices of the 16 unrolled steps, the same for both tables.\<close>

definition unrolled :: "u32 \<Rightarrow> u32 \<Rightarrow> u32 \<Rightarrow> hc_row list" where
  "unrolled cc dd ee =
    [(cc + 0, cc + 1, ee + 13, ee + 6, ee + 4),
     (cc + 1, cc + 2, ee + 14, ee + 7, ee + 5),
     (cc + 2, cc + 3, ee + 15, ee + 8, ee + 6),
     (cc + 3, cc + 4, cc + 0, ee + 9, ee + 7),
     (cc + 4, cc + 5, cc + 1, ee + 10, ee + 8),
     (cc + 5, cc + 6, cc + 2, ee + 11, ee + 9),
     (cc + 6, cc + 7, cc + 3, ee + 12, ee + 10),
     (cc + 7, cc + 8, cc + 4, ee + 13, ee + 11),
     (cc + 8, cc + 9, cc + 5, ee + 14, ee + 12),
     (cc + 9, cc + 10, cc + 6, ee + 15, ee + 13),
     (cc + 10, cc + 11, cc + 7, cc + 0, ee + 14),
     (cc + 11, cc + 12, cc + 8, cc + 1, ee + 15),
     (cc + 12, cc + 13, cc + 9, cc + 2, cc + 0),
     (cc + 13, cc + 14, cc + 10, cc + 3, cc + 1),
     (cc + 14, cc + 15, cc + 11, cc + 4, cc + 2),
     (cc + 15, dd + 0, cc + 12, cc + 5, cc + 3)]"

definition HC128_NextKeys :: "HC128_State \<Rightarrow> HC128_State" where
  "HC128_NextKeys st =
    (let cc = counter1024 st AND 0x1ff;
         dd = (cc + 16) AND 0x1ff;
         ee = (cc - 16) AND 0x1ff;
         st = (if counter1024 st < 512
               then fold (\<lambda>(s, r). step_P r s) (enumerate 0 (unrolled cc dd ee)) st
               else fold (\<lambda>(s, r). step_Q r s) (enumerate 0 (unrolled cc dd ee)) st)
     in st\<lparr>counter1024 := (counter1024 st + 16) AND 0x3ff\<rparr>)"

definition hc_f1 :: "u32 \<Rightarrow> u32" where
  "hc_f1 x = ROTR32 x 7 XOR ROTR32 x 18 XOR drop_bit 3 x"

definition hc_f2 :: "u32 \<Rightarrow> u32" where
  "hc_f2 x = ROTR32 x 17 XOR ROTR32 x 19 XOR drop_bit 10 x"

definition hc_f :: "u32 \<Rightarrow> u32 \<Rightarrow> u32 \<Rightarrow> u32 \<Rightarrow> u32" where
  "hc_f a b c d = hc_f2 a + b + hc_f1 c + d"

definition update_P :: "hc_row \<Rightarrow> HC128_State \<Rightarrow> HC128_State" where
  "update_P r st = (case r of (m0, m511, m3, m10, m12) \<Rightarrow>
     let P = hc_P st;
         tem0 = ROTR32 (P ! unat m511) 23;
         tem1 = ROTR32 (P ! unat m3) 10;
         tem2 = ROTR32 (P ! unat m10) 8;
         P = P[unat m0 := P ! unat m0 + (tem2 + (tem0 XOR tem1))];
         tem3 = hc_h1 (hc_Q st) (P ! unat m12)
     in st\<lparr>hc_P := P[unat m0 := tem3 XOR P ! unat m0]\<rparr>)"

definition update_Q :: "hc_row \<Rightarrow> HC128_State \<Rightarrow> HC128_State" where
  "update_Q r st = (case r of (m0, m511, m3, m10, m12) \<Rightarrow>
     let Q = hc_Q st;
         tem0 = ROTL32 (Q ! unat m511) 23;
         tem1 = ROTL32 (Q ! unat m3) 10;
         tem2 = ROTL32 (Q ! unat m10) 8;
         Q = Q[unat m0 := Q ! unat m0 + (tem2 + (tem0 XOR tem1))];
         tem3 = hc_h2 (hc_P st) (Q ! unat m12)
     in st\<lparr>hc_Q := Q[unat m0 := tem3 XOR Q ! unat m0]\<rparr>)"

definition UpdateSixteenSteps :: "HC128_State \<Rightarrow> HC128_State" where
  "UpdateSixteenSteps st =
    (let cc = counter1024 st AND 0x1ff;
         dd = (cc + 16) AND 0x1ff;
         ee = (cc - 16) AND 0x1ff;
         st = (if counter1024 st < 512 then fold update_P (unrolled cc dd ee) st else fold update_Q (unrolled cc dd ee) st)
     in st\<lparr>counter1024 := (counter1024 st + 16) AND 0x3ff\<rparr>)"

text \<open>The loops of the initialisation.\<close>

definition u32_at :: "bytes \<Rightarrow> nat \<Rightarrow> u32" where
  "u32_at bs i = le_word (take 4 (drop (4 * i) bs))"

definition expand_loop :: "nat \<Rightarrow> nat \<Rightarrow> u32 \<Rightarrow> u32 list \<Rightarrow> u32 list" where
  "expand_loop from until off xs =
    fold (\<lambda>i xs. xs[i := hc_f (xs ! (i - 2)) (xs ! (i - 7)) (xs ! (i - 15)) (xs ! (i - 16)) + off + of_nat i]) [from..<until] xs"

definition copy_loop :: "nat \<Rightarrow> u32 list \<Rightarrow> u32 list \<Rightarrow> u32 list" where
  "copy_loop from src dst = fold (\<lambda>i dst. dst[i := src ! (from + i)]) [0..<16] dst"

definition expand_key :: "HC128_State \<Rightarrow> bytes \<Rightarrow> bytes \<Rightarrow> HC128_State" where
  "expand_key st key iv =
    (let P = fold (\<lambda>i P. P[i := u32_at key i, i + 4 := u32_at key i]) [0..<4] (hc_P st);
         P = fold (\<lambda>i P. P[i + 8 := u32_at iv i, i + 12 := u32_at iv i]) [0..<4] P;
         P = expand_loop 16 (256 + 16) 0 P;
         P = copy_loop 256 P P;
         P = expand_loop 16 512 256 P;
         Q = copy_loop (512 - 16) P (hc_Q st);
         Q = expand_loop 16 32 (256 + 512 - 16) Q;
         Q = copy_loop 16 Q Q;
         Q = expand_loop 16 512 768 Q
     in st\<lparr>hc_P := P, hc_Q := Q, counter1024 := 0\<rparr>)"

definition HC128_Init :: "HC128_State \<Rightarrow> bytes \<Rightarrow> bytes \<Rightarrow> HC128_State" where
  "HC128_Init st key iv = (UpdateSixteenSteps ^^ 64) (expand_key st key iv)"

text \<open>The encryption returns the ciphertext; \<open>message\<close> has \<open>msglength\<close> bytes.\<close>

function HC128_EncryptMessage :: "HC128_State \<Rightarrow> bytes \<Rightarrow> HC128_State \<times> bytes" where
  "HC128_EncryptMessage st message =
    (if length message \<ge> 64
     then let st = HC128_NextKeys st;
              block = concat (map (\<lambda>j. le_split 4 (u32_at message j XOR keystream st ! j)) [0..<16]);
              (st, ciphertext) = HC128_EncryptMessage st (drop 64 message)
          in (st, block @ ciphertext)
     else if length message \<noteq> 0
     then let st = HC128_NextKeys st
          in (st, map2 (XOR) message (concat (map (le_split 4) (keystream st))))
     else (st, []))"
  by pat_completeness auto
termination
  by (relation "measure (\<lambda>(st, m). length m)") auto

definition HC128 :: "HC128_State \<Rightarrow> bytes \<Rightarrow> bytes \<Rightarrow> bytes \<Rightarrow> bytes" where
  "HC128 st key iv message = snd (HC128_EncryptMessage (HC128_Init st key iv) message)"

text \<open>The number of leading zeros, and the loop that draws until a word is in range: \<open>None\<close> when it does not end.\<close>

definition clz32 :: "u32 \<Rightarrow> nat" where
  "clz32 x = length (takeWhile (\<lambda>i. \<not> bit x i) (rev [0..<32]))"

partial_function (option) U32_loop :: "u32 \<Rightarrow> u32 \<Rightarrow> HC128_State \<Rightarrow> nat \<Rightarrow> (u32 \<times> HC128_State \<times> nat) option" where
  "U32_loop mx msk st key_idx =
    (let (st, key_idx) = (if key_idx > 15 then (HC128_NextKeys st, 0) else (st, key_idx));
         r = keystream st ! key_idx AND msk;
         key_idx = key_idx + 1
     in if r > mx then U32_loop mx msk st key_idx else Some (r, st, key_idx))"

definition HC128_U32 :: "HC128_State \<Rightarrow> nat \<Rightarrow> u32 \<Rightarrow> (u32 \<times> HC128_State \<times> nat) option" where
  "HC128_U32 st key_idx mx =
    (let mx = mx - 1;
         msk = drop_bit (clz32 (mx OR 1)) 0xFFFFFFFF
     in U32_loop mx msk st key_idx)"

declare HC128_EncryptMessage.simps [simp del]

section \<open>The cipher of the paper\<close>

text \<open>
  Wu's description: the indices of step \<open>i\<close> are \<open>j = i mod 512\<close> and \<open>j \<boxminus> 3\<close>, \<open>j \<boxminus> 10\<close>, \<open>j \<boxminus> 12\<close>, \<open>j \<boxminus> 511\<close> modulo 512;
  the tables come from the words \<open>W\<close>; 1024 steps without output precede the key words.
\<close>

definition hc_back :: "nat \<Rightarrow> nat \<Rightarrow> nat" where
  "hc_back j d = (j + 512 - d) mod 512"

definition hc_g1 :: "u32 list \<Rightarrow> nat \<Rightarrow> u32" where
  "hc_g1 P j = ROTR32 (P ! hc_back j 10) 8 + (ROTR32 (P ! hc_back j 511) 23 XOR ROTR32 (P ! hc_back j 3) 10)"

definition hc_g2 :: "u32 list \<Rightarrow> nat \<Rightarrow> u32" where
  "hc_g2 Q j = ROTL32 (Q ! hc_back j 10) 8 + (ROTL32 (Q ! hc_back j 511) 23 XOR ROTL32 (Q ! hc_back j 3) 10)"

type_synonym hc_tables = "u32 list \<times> u32 list"

definition hc_step :: "nat \<Rightarrow> hc_tables \<Rightarrow> hc_tables \<times> u32" where
  "hc_step i = (\<lambda>(P, Q). let j = i mod 512 in
     if i mod 1024 < 512
     then let P' = P[j := P ! j + hc_g1 P j] in ((P', Q), hc_h1 Q (P' ! hc_back j 12) XOR P' ! j)
     else let Q' = Q[j := Q ! j + hc_g2 Q j] in ((P, Q'), hc_h2 P (Q' ! hc_back j 12) XOR Q' ! j))"

text \<open>In the initialisation the output goes into the table instead.\<close>

definition hc_init_step :: "nat \<Rightarrow> hc_tables \<Rightarrow> hc_tables" where
  "hc_init_step i = (\<lambda>(P, Q). let j = i mod 512; s = snd (hc_step i (P, Q)) in
     if i mod 1024 < 512 then (P[j := s], Q) else (P, Q[j := s]))"

fun hc_words :: "nat list \<Rightarrow> hc_tables \<Rightarrow> hc_tables \<times> u32 list" where
  "hc_words [] t = (t, [])"
| "hc_words (i # ns) t = (let (t, s) = hc_step i t; (t, ss) = hc_words ns t in (t, s # ss))"

function hc_W :: "bytes \<Rightarrow> bytes \<Rightarrow> nat \<Rightarrow> u32" where
  "hc_W key iv i =
    (if i < 8 then u32_at key (i mod 4)
     else if i < 16 then u32_at iv (i mod 4)
     else hc_f2 (hc_W key iv (i - 2)) + hc_W key iv (i - 7) + hc_f1 (hc_W key iv (i - 15)) + hc_W key iv (i - 16) + of_nat i)"
  by pat_completeness auto
termination
  by (relation "measure (\<lambda>(k, v, i). i)") auto

declare hc_W.simps [simp del]

definition hc_tables_of :: "bytes \<Rightarrow> bytes \<Rightarrow> hc_tables" where
  "hc_tables_of key iv = fold hc_init_step [0..<1024]
    (map (\<lambda>i. hc_W key iv (i + 256)) [0..<512], map (\<lambda>i. hc_W key iv (i + 768)) [0..<512])"

definition hc_stream :: "bytes \<Rightarrow> bytes \<Rightarrow> nat \<Rightarrow> u32 list" where
  "hc_stream key iv n = snd (hc_words [0..<n] (hc_tables_of key iv))"

section \<open>The unrolled steps\<close>

definition hc_ok :: "HC128_State \<Rightarrow> bool" where
  "hc_ok st \<longleftrightarrow> length (hc_P st) = 512 \<and> length (hc_Q st) = 512 \<and> length (keystream st) = 16
    \<and> unat (counter1024 st) < 1024 \<and> unat (counter1024 st) mod 16 = 0"

definition nat_row :: "hc_row \<Rightarrow> nat \<times> nat \<times> nat \<times> nat \<times> nat" where
  "nat_row = (\<lambda>(a, b, c, d, e). (unat a, unat b, unat c, unat d, unat e))"

definition paper_row :: "nat \<Rightarrow> nat \<times> nat \<times> nat \<times> nat \<times> nat" where
  "paper_row i = (let j = i mod 512 in (j, hc_back j 511, hc_back j 3, hc_back j 10, hc_back j 12))"

lemma hc_back_low: "d \<le> s \<Longrightarrow> s < 16 \<Longrightarrow> q < 32 \<Longrightarrow> hc_back (16 * q + s) d = 16 * q + (s - d)"
proof -
  assume a: "d \<le> s" "s < 16" "q < 32"
  then have "16 * q + s + 512 - d = 16 * q + (s - d) + 512" by linarith
  moreover have "16 * q + (s - d) < 512" using a by linarith
  ultimately show ?thesis unfolding hc_back_def by (simp only: mod_add_self2 mod_less)
qed

lemma hc_back_high: "s < d \<Longrightarrow> d \<le> 16 \<Longrightarrow> q < 32 \<Longrightarrow> hc_back (16 * q + s) d = (16 * q + 496) mod 512 + (16 + s - d)"
proof -
  assume a: "s < d" "d \<le> 16" "q < 32"
  show ?thesis
  proof (cases q)
    case 0
    then show ?thesis using a unfolding hc_back_def by simp
  next
    case (Suc q')
    then have "16 * q + s + 512 - d = 16 * q' + (16 + s - d) + 512" "16 * q + 496 = 16 * q' + 512" using a by linarith+
    moreover have "16 * q' + (16 + s - d) < 512" "16 * q' < 512" using a Suc by linarith+
    ultimately show ?thesis unfolding hc_back_def by (simp only: mod_add_self2 mod_less)
  qed
qed

lemma hc_back_511:
  assumes "s < 16" "q < 32"
  shows "hc_back (16 * q + s) 511 = (if s < 15 then 16 * q + (s + 1) else (16 * q + 16) mod 512)"
proof (cases "s < 15")
  case True
  then have "16 * q + s + 512 - 511 = 16 * q + (s + 1)" "16 * q + (s + 1) < 512" using assms by linarith+
  then show ?thesis unfolding hc_back_def using True by (simp only: mod_less if_True)
next
  case False
  then have "s = 15" using assms by linarith
  then have "16 * q + s + 512 - 511 = 16 * q + 16" by linarith
  then show ?thesis unfolding hc_back_def using False by (simp only: if_False)
qed

lemma unat_and_0x1ff: "unat (x AND 0x1ff :: u32) = unat x mod 512"
proof -
  have "(0x1ff :: u32) = mask 9" by (simp add: mask_eq_exp_minus_1)
  then show ?thesis by (simp only: unsigned_take_bit_eq flip: take_bit_eq_mask) (simp add: take_bit_eq_mod)
qed

lemma unat_neighbours:
  assumes "unat (cc :: u32) = 16 * q" "q < 32"
  shows "unat (cc + 16 AND 0x1ff) = (16 * q + 16) mod 512" "unat (cc - 16 AND 0x1ff) = (16 * q + 496) mod 512"
    and "n \<le> 16 \<Longrightarrow> unat (cc + of_nat n) = 16 * q + n"
    and "unat (ee :: u32) = (16 * q + 496) mod 512 \<Longrightarrow> n \<le> 16 \<Longrightarrow> unat (ee + of_nat n) = (16 * q + 496) mod 512 + n"
proof -
  show "unat (cc + 16 AND 0x1ff) = (16 * q + 16) mod 512"
    using assms by (simp add: unat_and_0x1ff unat_word_ariths)
  show "unat (cc - 16 AND 0x1ff) = (16 * q + 496) mod 512"
    using assms by (cases q) (simp_all add: unat_and_0x1ff unat_sub_if_size word_size)
  show "n \<le> 16 \<Longrightarrow> unat (cc + of_nat n) = 16 * q + n"
    using assms by (simp add: unat_word_ariths unat_of_nat)
  have "(16 * q + 496) mod 512 < 512" by simp
  then show "unat (ee :: u32) = (16 * q + 496) mod 512 \<Longrightarrow> n \<le> 16 \<Longrightarrow> unat (ee + of_nat n) = (16 * q + 496) mod 512 + n"
    by (simp add: unat_word_ariths unat_of_nat)
qed

definition block_row :: "nat \<Rightarrow> nat \<Rightarrow> nat \<Rightarrow> nat \<times> nat \<times> nat \<times> nat \<times> nat" where
  "block_row q e s = (16 * q + s, if s < 15 then 16 * q + (s + 1) else (16 * q + 16) mod 512,
     if 3 \<le> s then 16 * q + (s - 3) else e + (13 + s), if 10 \<le> s then 16 * q + (s - 10) else e + (6 + s),
     if 12 \<le> s then 16 * q + (s - 12) else e + (4 + s))"

lemma paper_row_block:
  fixes k :: nat
  assumes "s < 16"
  shows "paper_row (16 * k + s) = block_row (k mod 32) ((16 * (k mod 32) + 496) mod 512) s"
proof -
  define q where "q = k mod 32"
  have q: "q < 32" by (simp add: q_def)
  have "k = 32 * (k div 32) + q" unfolding q_def by simp
  then have "16 * k + s = (16 * q + s) + k div 32 * 512" by linarith
  moreover have "16 * q + s < 512" using q assms(1) by linarith
  ultimately have j: "(16 * k + s) mod 512 = 16 * q + s" by (simp only: mod_mult_self1 mod_less)
  show ?thesis
    unfolding paper_row_def j Let_def block_row_def q_def [symmetric]
    using hc_back_511 [OF assms(1) q] hc_back_low [OF _ assms(1) q] hc_back_high [OF _ _ q, of s] by simp
qed

lemma upt_16: "[0..<16] = [0, 1, 2, 3, 4, 5, 6, 7, 8, 9, 10, 11, 12, 13, 14, 15 :: nat]"
  by (simp add: upt_conv_Cons)

lemma unat_plus_numeral:
  assumes "\<And>n. n \<le> 16 \<Longrightarrow> unat (x + of_nat n :: u32) = b + n" "numeral k \<le> (16 :: nat)"
  shows "unat (x + numeral k) = b + numeral k"
  using assms(1) [OF assms(2)] by simp

lemma unrolled_paper:
  assumes "unat c = 16 * k"
  shows "map nat_row (unrolled (c AND 0x1ff) ((c AND 0x1ff) + 16 AND 0x1ff) ((c AND 0x1ff) - 16 AND 0x1ff))
    = map paper_row [16 * k..<16 * k + 16]"
proof -
  let ?q = "k mod 32" and ?e = "(16 * (k mod 32) + 496) mod 512"
  have cc: "unat (c AND 0x1ff) = 16 * ?q" using assms by (simp add: unat_and_0x1ff mult_mod_right)
  have q: "?q < 32" by simp
  note n = unat_neighbours [OF cc q]
  have c: "\<And>m. m \<le> 16 \<Longrightarrow> unat ((c AND 0x1ff) + of_nat m) = 16 * ?q + m" by (rule n(3))
  have e: "\<And>m. m \<le> 16 \<Longrightarrow> unat (((c AND 0x1ff) - 16 AND 0x1ff) + of_nat m) = ?e + m" by (rule n(4) [OF n(2)])
  have c1: "unat ((c AND 0x1ff) + 1) = 16 * ?q + 1" using c [of 1] by simp
  have "map nat_row (unrolled (c AND 0x1ff) ((c AND 0x1ff) + 16 AND 0x1ff) ((c AND 0x1ff) - 16 AND 0x1ff))
      = map (block_row ?q ?e) [0..<16]"
    unfolding unrolled_def nat_row_def upt_16 list.map block_row_def
    by (simp add: unat_plus_numeral [OF c] unat_plus_numeral [OF e] cc c1 n(1))
  also have "\<dots> = map paper_row (map (\<lambda>s. 16 * k + s) [0..<16])"
    by (simp add: paper_row_block)
  also have "map (\<lambda>s. 16 * k + s) [0..<16] = [16 * k..<16 * k + 16]"
    using map_add_upt [of "16 * k" 16] by (simp add: add.commute)
  finally show ?thesis .
qed

definition hc_tables_in :: "HC128_State \<Rightarrow> hc_tables" where
  "hc_tables_in st = (hc_P st, hc_Q st)"

lemma step_paper:
  assumes "nat_row r = paper_row i"
  shows "i mod 1024 < 512 \<Longrightarrow> step_P r s st = st\<lparr>hc_P := fst (fst (hc_step i (hc_tables_in st))), hc_Q := snd (fst (hc_step i (hc_tables_in st))),
      keystream := (keystream st)[s := snd (hc_step i (hc_tables_in st))]\<rparr>"
    and "\<not> i mod 1024 < 512 \<Longrightarrow> step_Q r s st = st\<lparr>hc_P := fst (fst (hc_step i (hc_tables_in st))), hc_Q := snd (fst (hc_step i (hc_tables_in st))),
      keystream := (keystream st)[s := snd (hc_step i (hc_tables_in st))]\<rparr>"
proof -
  obtain a b c d e where r: "r = (a, b, c, d, e)" by (cases r)
  then have "unat a = i mod 512" "unat b = hc_back (i mod 512) 511" "unat c = hc_back (i mod 512) 3"
    "unat d = hc_back (i mod 512) 10" "unat e = hc_back (i mod 512) 12"
    using assms by (simp_all add: nat_row_def paper_row_def Let_def)
  then show "i mod 1024 < 512 \<Longrightarrow> step_P r s st = st\<lparr>hc_P := fst (fst (hc_step i (hc_tables_in st))), hc_Q := snd (fst (hc_step i (hc_tables_in st))),
      keystream := (keystream st)[s := snd (hc_step i (hc_tables_in st))]\<rparr>"
    "\<not> i mod 1024 < 512 \<Longrightarrow> step_Q r s st = st\<lparr>hc_P := fst (fst (hc_step i (hc_tables_in st))), hc_Q := snd (fst (hc_step i (hc_tables_in st))),
      keystream := (keystream st)[s := snd (hc_step i (hc_tables_in st))]\<rparr>"
    by (simp_all add: r step_P_def step_Q_def hc_step_def hc_tables_in_def hc_g1_def hc_g2_def Let_def)
qed

lemma memcpy_at_Cons: "a < length xs \<Longrightarrow> memcpy_at (xs[a := y]) (Suc a) ys = memcpy_at xs a (y # ys)"
  by (simp add: memcpy_at_def take_Suc_conv_app_nth drop_update_cancel)

lemma fold_steps_paper:
  assumes "\<And>r i s st. nat_row r = paper_row i \<Longrightarrow> i \<in> ph \<Longrightarrow> step r s st = st\<lparr>hc_P := fst (fst (hc_step i (hc_tables_in st))),
      hc_Q := snd (fst (hc_step i (hc_tables_in st))), keystream := (keystream st)[s := snd (hc_step i (hc_tables_in st))]\<rparr>"
  shows "map nat_row rows = map paper_row is' \<Longrightarrow> set is' \<subseteq> ph \<Longrightarrow> a + length is' \<le> length (keystream st) \<Longrightarrow>
    fold (\<lambda>(s, r). step r s) (enumerate a rows) st
      = st\<lparr>hc_P := fst (fst (hc_words is' (hc_tables_in st))), hc_Q := snd (fst (hc_words is' (hc_tables_in st))),
           keystream := memcpy_at (keystream st) a (snd (hc_words is' (hc_tables_in st)))\<rparr>"
proof (induction is' arbitrary: rows a st)
  case Nil
  then show ?case by (simp add: hc_tables_in_def memcpy_at_def)
next
  case (Cons i ns)
  then obtain r rs where rows: "rows = r # rs" "nat_row r = paper_row i" "map nat_row rs = map paper_row ns"
    by (cases rows) auto
  have i: "i \<in> ph" "set ns \<subseteq> ph" using Cons.prems by auto
  obtain P Q x where st1: "hc_step i (hc_tables_in st) = ((P, Q), x)" by (metis surj_pair)
  let ?st = "st\<lparr>hc_P := P, hc_Q := Q, keystream := (keystream st)[a := x]\<rparr>"
  have "step r a st = ?st" using assms [OF rows(2) i(1), of a st] st1 by simp
  moreover have "fold (\<lambda>(s, r). step r s) (enumerate (Suc a) rs) ?st
      = ?st\<lparr>hc_P := fst (fst (hc_words ns (hc_tables_in ?st))), hc_Q := snd (fst (hc_words ns (hc_tables_in ?st))),
           keystream := memcpy_at (keystream ?st) (Suc a) (snd (hc_words ns (hc_tables_in ?st)))\<rparr>"
    using Cons.prems(3) by (intro Cons.IH [OF rows(3) i(2)]) simp
  moreover have "a < length (keystream st)" using Cons.prems(3) by simp
  moreover obtain P' Q' xs where "hc_words ns (P, Q) = ((P', Q'), xs)" by (metis surj_pair)
  ultimately show ?case
    using st1 by (simp add: rows hc_tables_in_def memcpy_at_Cons)
qed

lemma length_hc_words: "length (snd (hc_words is' t)) = length is'"
  by (induction is' arbitrary: t) (simp_all add: case_prod_beta Let_def)

lemma NextKeys_paper:
  assumes "hc_ok st"
  defines "ws \<equiv> hc_words [unat (counter1024 st)..<unat (counter1024 st) + 16] (hc_tables_in st)"
  shows "HC128_NextKeys st = \<lparr>hc_P = fst (fst ws), hc_Q = snd (fst ws), keystream = snd ws,
    counter1024 = (counter1024 st + 16) AND 0x3ff\<rparr>"
proof -
  let ?c = "counter1024 st"
  define k where "k = unat ?c div 16"
  have k: "unat ?c = 16 * k" "k < 64" using assms(1) by (auto simp: hc_ok_def k_def)
  have full: "memcpy_at (keystream st) 0 (snd ws) = snd ws"
    using assms(1) by (simp add: memcpy_at_def hc_ok_def ws_def length_hc_words)
  note rows = unrolled_paper [OF k(1), folded k(1)]
  have ks: "0 + length [unat ?c..<unat ?c + 16] \<le> length (keystream st)" using assms(1) by (simp add: hc_ok_def)
  show ?thesis
  proof (cases "?c < 512")
    case True
    then have "unat ?c + 15 < 512" using k by (simp add: word_less_nat_alt)
    then have ph: "set [unat ?c..<unat ?c + 16] \<subseteq> {i. i mod 1024 < 512}" by auto
    have "fold (\<lambda>(s, r). step_P r s) (enumerate 0 (unrolled (?c AND 0x1ff) ((?c AND 0x1ff) + 16 AND 0x1ff) ((?c AND 0x1ff) - 16 AND 0x1ff))) st
        = st\<lparr>hc_P := fst (fst ws), hc_Q := snd (fst ws), keystream := memcpy_at (keystream st) 0 (snd ws)\<rparr>"
      unfolding ws_def by (rule fold_steps_paper [OF _ rows ph ks]) (simp add: step_paper(1))
    then show ?thesis using True full by (simp add: HC128_NextKeys_def Let_def)
  next
    case False
    then have "512 \<le> unat ?c" "unat ?c + 15 < 1024" using k by (auto simp: word_less_nat_alt)
    then have ph: "set [unat ?c..<unat ?c + 16] \<subseteq> {i. \<not> i mod 1024 < 512}" by auto
    have "fold (\<lambda>(s, r). step_Q r s) (enumerate 0 (unrolled (?c AND 0x1ff) ((?c AND 0x1ff) + 16 AND 0x1ff) ((?c AND 0x1ff) - 16 AND 0x1ff))) st
        = st\<lparr>hc_P := fst (fst ws), hc_Q := snd (fst ws), keystream := memcpy_at (keystream st) 0 (snd ws)\<rparr>"
      unfolding ws_def by (rule fold_steps_paper [OF _ rows ph ks]) (simp add: step_paper(2))
    then show ?thesis using False full by (simp add: HC128_NextKeys_def Let_def)
  qed
qed

lemma update_paper:
  assumes "nat_row r = paper_row i"
  shows "i mod 1024 < 512 \<Longrightarrow> update_P r st = st\<lparr>hc_P := fst (hc_init_step i (hc_tables_in st)), hc_Q := snd (hc_init_step i (hc_tables_in st))\<rparr>"
    and "\<not> i mod 1024 < 512 \<Longrightarrow> update_Q r st = st\<lparr>hc_P := fst (hc_init_step i (hc_tables_in st)), hc_Q := snd (hc_init_step i (hc_tables_in st))\<rparr>"
proof -
  obtain a b c d e where r: "r = (a, b, c, d, e)" by (cases r)
  then have "unat a = i mod 512" "unat b = hc_back (i mod 512) 511" "unat c = hc_back (i mod 512) 3"
    "unat d = hc_back (i mod 512) 10" "unat e = hc_back (i mod 512) 12"
    using assms by (simp_all add: nat_row_def paper_row_def Let_def)
  then show "i mod 1024 < 512 \<Longrightarrow> update_P r st = st\<lparr>hc_P := fst (hc_init_step i (hc_tables_in st)), hc_Q := snd (hc_init_step i (hc_tables_in st))\<rparr>"
    "\<not> i mod 1024 < 512 \<Longrightarrow> update_Q r st = st\<lparr>hc_P := fst (hc_init_step i (hc_tables_in st)), hc_Q := snd (hc_init_step i (hc_tables_in st))\<rparr>"
    by (simp_all add: r update_P_def update_Q_def hc_init_step_def hc_step_def hc_tables_in_def hc_g1_def hc_g2_def Let_def)
qed

lemma fold_updates_paper:
  assumes "\<And>r i st. nat_row r = paper_row i \<Longrightarrow> i \<in> ph \<Longrightarrow>
      update r st = st\<lparr>hc_P := fst (hc_init_step i (hc_tables_in st)), hc_Q := snd (hc_init_step i (hc_tables_in st))\<rparr>"
  shows "map nat_row rows = map paper_row is' \<Longrightarrow> set is' \<subseteq> ph \<Longrightarrow>
    fold update rows st = st\<lparr>hc_P := fst (fold hc_init_step is' (hc_tables_in st)), hc_Q := snd (fold hc_init_step is' (hc_tables_in st))\<rparr>"
proof (induction is' arbitrary: rows st)
  case (Cons i ns)
  then obtain r rs where "rows = r # rs" "nat_row r = paper_row i" "map nat_row rs = map paper_row ns"
    by (cases rows) auto
  then show ?case using Cons assms [of r i st] by (simp add: hc_tables_in_def)
qed (simp add: hc_tables_in_def)

lemma UpdateSixteenSteps_paper:
  assumes "hc_ok st"
  defines "t \<equiv> fold hc_init_step [unat (counter1024 st)..<unat (counter1024 st) + 16] (hc_tables_in st)"
  shows "UpdateSixteenSteps st = st\<lparr>hc_P := fst t, hc_Q := snd t, counter1024 := (counter1024 st + 16) AND 0x3ff\<rparr>"
proof -
  let ?c = "counter1024 st"
  define k where "k = unat ?c div 16"
  have k: "unat ?c = 16 * k" "k < 64" using assms(1) by (auto simp: hc_ok_def k_def)
  note rows = unrolled_paper [OF k(1), folded k(1)]
  show ?thesis
  proof (cases "?c < 512")
    case True
    then have "unat ?c + 15 < 512" using k by (simp add: word_less_nat_alt)
    then have ph: "set [unat ?c..<unat ?c + 16] \<subseteq> {i. i mod 1024 < 512}" by auto
    have "fold update_P (unrolled (?c AND 0x1ff) ((?c AND 0x1ff) + 16 AND 0x1ff) ((?c AND 0x1ff) - 16 AND 0x1ff)) st
        = st\<lparr>hc_P := fst t, hc_Q := snd t\<rparr>"
      unfolding t_def by (rule fold_updates_paper [OF _ rows ph]) (simp add: update_paper(1))
    then show ?thesis using True by (simp add: UpdateSixteenSteps_def Let_def)
  next
    case False
    then have "512 \<le> unat ?c" "unat ?c + 15 < 1024" using k by (auto simp: word_less_nat_alt)
    then have ph: "set [unat ?c..<unat ?c + 16] \<subseteq> {i. \<not> i mod 1024 < 512}" by auto
    have "fold update_Q (unrolled (?c AND 0x1ff) ((?c AND 0x1ff) + 16 AND 0x1ff) ((?c AND 0x1ff) - 16 AND 0x1ff)) st
        = st\<lparr>hc_P := fst t, hc_Q := snd t\<rparr>"
      unfolding t_def by (rule fold_updates_paper [OF _ rows ph]) (simp add: update_paper(2))
    then show ?thesis using False by (simp add: UpdateSixteenSteps_def Let_def)
  qed
qed

section \<open>The state over many steps\<close>

definition tables_fit :: "hc_tables \<Rightarrow> bool" where
  "tables_fit t \<longleftrightarrow> length (fst t) = 512 \<and> length (snd t) = 512"

lemma tables_fit_hc_words: "tables_fit t \<Longrightarrow> tables_fit (fst (hc_words is' t))"
  by (induction is' arbitrary: t) (simp_all add: case_prod_beta Let_def tables_fit_def hc_step_def)

lemma tables_fit_fold_init: "tables_fit t \<Longrightarrow> tables_fit (fold hc_init_step is' t)"
  by (induction is' arbitrary: t) (simp_all add: case_prod_beta Let_def tables_fit_def hc_init_step_def)

lemma unat_next_counter: "unat ((c + 16 :: u32) AND 0x3ff) = (unat c + 16) mod 1024"
proof -
  have "(0x3ff :: u32) = mask 10" by (simp add: mask_eq_exp_minus_1)
  then have "unat (x AND 0x3ff :: u32) = unat x mod 1024" for x
    by (simp only: unsigned_take_bit_eq flip: take_bit_eq_mask) (simp add: take_bit_eq_mod)
  then show ?thesis by (simp add: unat_word_ariths mod_mod_cancel)
qed

lemma next_counter_ok: "n mod 16 = 0 \<Longrightarrow> (n + 16) mod 1024 mod 16 = (0 :: nat)"
  by (simp add: mod_mod_cancel)

lemma hc_ok_NextKeys:
  assumes "hc_ok st"
  shows "hc_ok (HC128_NextKeys st)"
  using assms tables_fit_hc_words [of "hc_tables_in st"]
  by (simp add: NextKeys_paper hc_ok_def tables_fit_def hc_tables_in_def unat_next_counter next_counter_ok length_hc_words)

lemma hc_ok_UpdateSixteenSteps:
  assumes "hc_ok st"
  shows "hc_ok (UpdateSixteenSteps st)"
  using assms tables_fit_fold_init [of "hc_tables_in st"]
  by (simp add: UpdateSixteenSteps_paper hc_ok_def tables_fit_def hc_tables_in_def unat_next_counter next_counter_ok)

lemma UpdateSixteenSteps_iterated:
  assumes "hc_ok st" "counter1024 st = 0" "n \<le> 64"
  shows "hc_ok ((UpdateSixteenSteps ^^ n) st) \<and> hc_tables_in ((UpdateSixteenSteps ^^ n) st) = fold hc_init_step [0..<16 * n] (hc_tables_in st)
    \<and> unat (counter1024 ((UpdateSixteenSteps ^^ n) st)) = 16 * n mod 1024"
  using assms(3)
proof (induction n)
  case 0
  then show ?case using assms by simp
next
  case (Suc n)
  let ?st = "(UpdateSixteenSteps ^^ n) st"
  have IH: "hc_ok ?st" "hc_tables_in ?st = fold hc_init_step [0..<16 * n] (hc_tables_in st)" "unat (counter1024 ?st) = 16 * n"
    using Suc by simp_all
  have "[0..<16 * Suc n] = [0..<16 * n] @ [16 * n..<16 * n + 16]"
    using upt_add_eq_append [of 0 "16 * n" 16] by (simp add: add.commute)
  then show ?case
    using IH hc_ok_UpdateSixteenSteps [OF IH(1)]
    by (simp add: UpdateSixteenSteps_paper hc_tables_in_def unat_next_counter) (simp add: add.commute)
qed

section \<open>The expansion of key and initialisation vector\<close>

lemma expand_loop_W:
  assumes "\<And>j. j < 16 \<Longrightarrow> xs ! j = hc_W key iv (b + j)" "16 \<le> n" "n \<le> length xs"
  shows "length (expand_loop 16 n (of_nat b) xs) = length xs
    \<and> (\<forall>j<n. expand_loop 16 n (of_nat b) xs ! j = hc_W key iv (b + j))"
  using assms(2,3)
proof (induction n rule: dec_induct)
  case base
  then show ?case using assms(1) by (simp add: expand_loop_def)
next
  case (step n)
  let ?xs = "expand_loop 16 n (of_nat b) xs"
  have IH: "length ?xs = length xs" "\<And>j. j < n \<Longrightarrow> ?xs ! j = hc_W key iv (b + j)" using step by auto
  have "expand_loop 16 (Suc n) (of_nat b) xs = ?xs[n := hc_f (?xs ! (n - 2)) (?xs ! (n - 7)) (?xs ! (n - 15)) (?xs ! (n - 16)) + of_nat b + of_nat n]"
    using step.hyps by (simp add: expand_loop_def)
  moreover have "hc_f (?xs ! (n - 2)) (?xs ! (n - 7)) (?xs ! (n - 15)) (?xs ! (n - 16)) + of_nat b + of_nat n = hc_W key iv (b + n)"
    using step.hyps IH(2) by (subst hc_W.simps) (simp add: hc_f_def)
  ultimately show ?case using IH step.prems by (auto simp: nth_list_update less_Suc_eq)
qed

lemma copy_loop_nth:
  assumes "16 \<le> length dst"
  shows "length (copy_loop from src dst) = length dst" "j < 16 \<Longrightarrow> copy_loop from src dst ! j = src ! (from + j)"
proof -
  have "length (fold (\<lambda>i dst. dst[i := src ! (from + i)]) [0..<n] dst) = length dst
      \<and> (\<forall>j<n. fold (\<lambda>i dst. dst[i := src ! (from + i)]) [0..<n] dst ! j = src ! (from + j))" if "n \<le> 16" for n
    using that assms by (induction n) (auto simp: nth_list_update less_Suc_eq)
  from this [of 16] show "length (copy_loop from src dst) = length dst" "j < 16 \<Longrightarrow> copy_loop from src dst ! j = src ! (from + j)"
    by (simp_all add: copy_loop_def)
qed

lemma hc_W_key: "i < 8 \<Longrightarrow> hc_W key iv i = u32_at key (i mod 4)" "8 \<le> i \<Longrightarrow> i < 16 \<Longrightarrow> hc_W key iv i = u32_at iv (i mod 4)"
  by (subst hc_W.simps, simp)+

lemma key_words_W:
  assumes "16 \<le> length P" "j < 16"
  shows "fold (\<lambda>i P. P[i + 8 := u32_at iv i, i + 12 := u32_at iv i]) [0..<4]
      (fold (\<lambda>i P. P[i := u32_at key i, i + 4 := u32_at key i]) [0..<4] P) ! j = hc_W key iv j"
proof -
  have upt: "[0..<4] = [0, 1, 2, 3 :: nat]" by (simp add: upt_conv_Cons)
  have "j \<in> set [0..<16]" "0 < length P" using assms by auto
  then show ?thesis
    using assms(1) unfolding upt_16 upt by (auto simp: hc_W_key simp del: length_greater_0_conv)
qed

lemma expand_key_W:
  assumes "length (hc_P st) = 512" "length (hc_Q st) = 512"
  shows "hc_tables_in (expand_key st key iv) = (map (\<lambda>i. hc_W key iv (i + 256)) [0..<512], map (\<lambda>i. hc_W key iv (i + 768)) [0..<512])"
proof -
  define P0 where "P0 = fold (\<lambda>i P. P[i + 8 := u32_at iv i, i + 12 := u32_at iv i]) [0..<4]
      (fold (\<lambda>i P. P[i := u32_at key i, i + 4 := u32_at key i]) [0..<4] (hc_P st))"
  define P1 where "P1 = expand_loop 16 (256 + 16) 0 P0"
  define P2 where "P2 = copy_loop 256 P1 P1"
  define P3 where "P3 = expand_loop 16 512 256 P2"
  define Q0 where "Q0 = copy_loop (512 - 16) P3 (hc_Q st)"
  define Q1 where "Q1 = expand_loop 16 32 (256 + 512 - 16) Q0"
  define Q2 where "Q2 = copy_loop 16 Q1 Q1"
  define Q3 where "Q3 = expand_loop 16 512 768 Q2"
  have len: "length (fold (\<lambda>i P. P[f i := u i, g i := u i]) ns P) = length P" for f g u ns and P :: "u32 list"
    by (induction ns arbitrary: P) simp_all
  have P0: "length P0 = 512" "\<And>j. j < 16 \<Longrightarrow> P0 ! j = hc_W key iv (0 + j)"
    using assms key_words_W by (simp_all add: P0_def len)
  have P1: "length P1 = 512" "\<And>j. j < 272 \<Longrightarrow> P1 ! j = hc_W key iv j"
    using expand_loop_W [OF P0(2), of 272] P0(1) by (simp_all add: P1_def)
  have P2: "length P2 = 512" "\<And>j. j < 16 \<Longrightarrow> P2 ! j = hc_W key iv (256 + j)"
    using copy_loop_nth [of P1] P1 by (simp_all add: P2_def)
  have P3: "length P3 = 512" "\<And>j. j < 512 \<Longrightarrow> P3 ! j = hc_W key iv (256 + j)"
    using expand_loop_W [OF P2(2), of 512] P2(1) by (simp_all add: P3_def)
  have Q0: "length Q0 = 512" "\<And>j. j < 16 \<Longrightarrow> Q0 ! j = hc_W key iv (752 + j)"
    using copy_loop_nth [of "hc_Q st"] assms P3 by (simp_all add: Q0_def add.assoc [symmetric])
  have Q1: "length Q1 = 512" "\<And>j. j < 32 \<Longrightarrow> Q1 ! j = hc_W key iv (752 + j)"
    using expand_loop_W [OF Q0(2), of 32] Q0(1) by (simp_all add: Q1_def)
  have Q2: "length Q2 = 512" "\<And>j. j < 16 \<Longrightarrow> Q2 ! j = hc_W key iv (768 + j)"
    using copy_loop_nth [of Q1] Q1 by (simp_all add: Q2_def add.assoc [symmetric])
  have Q3: "length Q3 = 512" "\<And>j. j < 512 \<Longrightarrow> Q3 ! j = hc_W key iv (768 + j)"
    using expand_loop_W [OF Q2(2), of 512] Q2(1) by (simp_all add: Q3_def)
  have "hc_tables_in (expand_key st key iv) = (P3, Q3)"
    by (simp add: hc_tables_in_def expand_key_def P0_def P1_def P2_def P3_def Q0_def Q1_def Q2_def Q3_def Let_def)
  then show ?thesis
    using P3 Q3 by (simp add: list_eq_iff_nth_eq add.commute)
qed

lemma HC128_Init_paper:
  assumes "length (hc_P st) = 512" "length (hc_Q st) = 512" "length (keystream st) = 16"
  shows "hc_ok (HC128_Init st key iv) \<and> hc_tables_in (HC128_Init st key iv) = hc_tables_of key iv \<and> counter1024 (HC128_Init st key iv) = 0"
proof -
  let ?st = "expand_key st key iv"
  have t: "hc_tables_in ?st = (map (\<lambda>i. hc_W key iv (i + 256)) [0..<512], map (\<lambda>i. hc_W key iv (i + 768)) [0..<512])"
    by (rule expand_key_W [OF assms(1,2)])
  have c: "counter1024 ?st = 0" "keystream ?st = keystream st" by (simp_all add: expand_key_def Let_def)
  then have ok: "hc_ok ?st" using t assms(3) by (simp add: hc_ok_def hc_tables_in_def)
  from UpdateSixteenSteps_iterated [OF ok c(1), of 64] show ?thesis
    unfolding HC128_Init_def hc_tables_of_def t [symmetric] by (simp add: unat_eq_zero)
qed

section \<open>The key stream\<close>

lemma hc_words_append:
  "hc_words (is' @ js) t = (fst (hc_words js (fst (hc_words is' t))), snd (hc_words is' t) @ snd (hc_words js (fst (hc_words is' t))))"
  by (induction is' arbitrary: t) (simp_all add: case_prod_beta Let_def)

lemma hc_words_mod: "map (\<lambda>i. i mod 1024) is' = map (\<lambda>i. i mod 1024) js \<Longrightarrow> hc_words is' t = hc_words js t"
proof (induction is' arbitrary: js t)
  case (Cons i ns)
  then obtain j ms where js: "js = j # ms" "i mod 1024 = j mod 1024" "map (\<lambda>i. i mod 1024) ns = map (\<lambda>i. i mod 1024) ms"
    by (cases js) auto
  have "i mod 512 = j mod 512" using arg_cong [OF js(2), of "\<lambda>n. n mod 512"] by (simp add: mod_mod_cancel)
  then have "hc_step i = hc_step j" using js(2) by (simp add: hc_step_def)
  then show ?case using Cons.IH [OF js(3)] js(1) by simp
qed simp

text \<open>The tables before and the words of the \<open>n\<close>-th block of 16 steps.\<close>

definition stream_tables :: "hc_tables \<Rightarrow> nat \<Rightarrow> hc_tables" where
  "stream_tables t n = fst (hc_words [0..<16 * n] t)"

definition stream_words :: "hc_tables \<Rightarrow> nat \<Rightarrow> u32 list" where
  "stream_words t n = snd (hc_words [16 * n..<16 * n + 16] (stream_tables t n))"

definition hc_at :: "hc_tables \<Rightarrow> nat \<Rightarrow> HC128_State \<Rightarrow> bool" where
  "hc_at t n st \<longleftrightarrow> hc_ok st \<and> hc_tables_in st = stream_tables t n \<and> unat (counter1024 st) = 16 * n mod 1024"

lemma upt_16_Suc: "[0..<16 * Suc n] = [0..<16 * n] @ [16 * n..<16 * n + 16]"
  using upt_add_eq_append [of 0 "16 * n" 16] by (simp add: add.commute)

lemma stream_words_all: "snd (hc_words [0..<16 * n] t) = concat (map (stream_words t) [0..<n])"
proof (induction n)
  case (Suc n)
  then show ?case unfolding upt_16_Suc hc_words_append by (simp add: stream_words_def stream_tables_def)
qed simp

lemma stream_tables_Suc: "stream_tables t (Suc n) = fst (hc_words [16 * n..<16 * n + 16] (stream_tables t n))"
  unfolding stream_tables_def upt_16_Suc hc_words_append by simp

lemma NextKeys_block:
  assumes "hc_at t n st"
  shows "hc_at t (Suc n) (HC128_NextKeys st) \<and> keystream (HC128_NextKeys st) = stream_words t n"
proof -
  have ok: "hc_ok st" and c: "unat (counter1024 st) = 16 * n mod 1024" and st: "hc_tables_in st = stream_tables t n"
    using assms by (simp_all add: hc_at_def)
  have shift: "[b..<b + 16] = map (\<lambda>s. b + s) [0..<16]" for b :: nat
    using map_add_upt [of b 16] by (simp add: add.commute)
  have ws: "hc_words [unat (counter1024 st)..<unat (counter1024 st) + 16] (hc_tables_in st) = hc_words [16 * n..<16 * n + 16] (stream_tables t n)"
    unfolding c st by (rule hc_words_mod) (simp add: shift mod_add_left_eq)
  have "unat (counter1024 (HC128_NextKeys st)) = 16 * Suc n mod 1024"
    using NextKeys_paper [OF ok] c mod_add_left_eq [of "16 * n" 1024 16] by (simp add: unat_next_counter add.commute)
  then show ?thesis
    using NextKeys_paper [OF ok] hc_ok_NextKeys [OF ok] unfolding ws
    by (simp add: hc_at_def stream_words_def hc_tables_in_def stream_tables_Suc)
qed

lemma length_stream_words: "length (stream_words t n) = 16"
  by (simp add: stream_words_def length_hc_words)

lemma le_split_xor: "le_split n (a XOR b) = map2 (XOR) (le_split n a) (le_split n b)"
  by (simp add: le_split_def map2_map_map drop_bit_xor unsigned_xor_eq)

lemma xor_words:
  assumes "4 * n \<le> length m" "n \<le> length ks"
  shows "concat (map (\<lambda>j. le_split 4 (u32_at m j XOR ks ! j)) [0..<n]) = map2 (XOR) (take (4 * n) m) (concat (map (le_split 4) (take n ks)))"
  using assms
proof (induction n)
  case (Suc n)
  have len: "length (concat (map (le_split 4) (take n ks))) = 4 * n"
    using Suc.prems(2) by (simp add: length_concat comp_def sum_list_triv)
  have "le_split 4 (u32_at m n) = take 4 (drop (4 * n) m)"
    using le_split_le_word [of "take 4 (drop (4 * n) m)", where 'a = 32] Suc.prems(1) by (simp add: u32_at_def)
  moreover have "take (4 * Suc n) m = take (4 * n) m @ take 4 (drop (4 * n) m)"
    by (simp add: take_add [symmetric] add.commute)
  ultimately show ?case
    using Suc len by (simp add: le_split_xor take_Suc_conv_app_nth)
qed simp

lemma EncryptMessage_stream:
  "hc_at t n st \<Longrightarrow> hc_at t (n + (length m + 63) div 64) (fst (HC128_EncryptMessage st m))
    \<and> snd (HC128_EncryptMessage st m)
      = map2 (XOR) m (concat (map (le_split 4) (concat (map (stream_words t) [n..<n + (length m + 63) div 64]))))"
proof (induction st m arbitrary: n rule: HC128_EncryptMessage.induct)
  case (1 st m)
  let ?st = "HC128_NextKeys st"
  have next_ok: "hc_at t (Suc n) ?st" "keystream ?st = stream_words t n" using NextKeys_block [OF "1.prems"] by auto
  have len: "length (concat (map (le_split 4) (stream_words t n))) = 64"
    by (simp add: length_concat comp_def sum_list_triv length_stream_words)
  consider (long) "64 \<le> length m" | (tail) "0 < length m" "length m < 64" | (empty) "m = []" by fastforce
  then show ?case
  proof cases
    case long
    have blocks: "(length m + 63) div 64 = Suc ((length (drop 64 m) + 63) div 64)"
      using long div_add_self2 [of 64 "length m - 64 + 63"] by (simp add: add.commute)
    have IH: "hc_at t (Suc n + (length (drop 64 m) + 63) div 64) (fst (HC128_EncryptMessage ?st (drop 64 m)))"
      "snd (HC128_EncryptMessage ?st (drop 64 m))
        = map2 (XOR) (drop 64 m) (concat (map (le_split 4) (concat (map (stream_words t) [Suc n..<Suc n + (length (drop 64 m) + 63) div 64]))))"
      using "1.IH" [OF long refl _ next_ok(1)] by blast+
    have "map2 (XOR) m (concat (map (le_split 4) (stream_words t n)) @ rest)
        = map2 (XOR) (take 64 m) (concat (map (le_split 4) (stream_words t n))) @ map2 (XOR) (drop 64 m) rest" for rest
      using zip_append [of "take 64 m" "concat (map (le_split 4) (stream_words t n))" "drop 64 m" rest] long len by simp
    moreover have "concat (map (\<lambda>j. le_split 4 (u32_at m j XOR keystream ?st ! j)) [0..<16])
        = map2 (XOR) (take 64 m) (concat (map (le_split 4) (stream_words t n)))"
      using xor_words [of 16 m "keystream ?st"] long next_ok(2) by (simp add: length_stream_words)
    moreover have "[n..<n + (length m + 63) div 64] = n # [Suc n..<Suc n + (length (drop 64 m) + 63) div 64]"
      using blocks by (simp add: upt_conv_Cons)
    ultimately show ?thesis
      using long IH blocks by (subst (1 2) HC128_EncryptMessage.simps) (simp add: case_prod_beta Let_def)
  next
    case tail
    then have "(length m + 63) div 64 = 1" by (simp add: div_if)
    then show ?thesis
      using tail next_ok by (subst (1 2) HC128_EncryptMessage.simps) simp
  qed (use "1.prems" in \<open>simp add: HC128_EncryptMessage.simps\<close>)
qed

lemma hc_at_init:
  assumes "length (hc_P st) = 512" "length (hc_Q st) = 512" "length (keystream st) = 16"
  shows "hc_at (hc_tables_of key iv) 0 (HC128_Init st key iv)"
  using HC128_Init_paper [OF assms, of key iv] by (simp add: hc_at_def stream_tables_def)

lemma HC128_stream:
  assumes "length (hc_P st) = 512" "length (hc_Q st) = 512" "length (keystream st) = 16"
  shows "HC128 st key iv message
    = map2 (XOR) message (concat (map (le_split 4) (hc_stream key iv (16 * ((length message + 63) div 64)))))"
  using EncryptMessage_stream [OF hc_at_init [OF assms], of key iv message]
  by (simp add: HC128_def hc_stream_def stream_words_all)

lemma map2_xor_twice: "length xs \<le> length ys \<Longrightarrow> map2 (XOR) (map2 (XOR) xs ys) ys = (xs :: u8 list)"
  by (induction xs ys rule: list_induct2') (simp_all add: xor.assoc)

lemma length_hc_stream: "length (hc_stream key iv n) = n"
  by (simp add: hc_stream_def length_hc_words)

section \<open>Properties\<close>

text \<open>
  C0: the implementation, with its 16 unrolled steps, its wrapped indices and its expansion of key and initialisation
  vector inside the tables, encrypts with the key stream of the cipher's definition: the words \<open>W\<close>, 1024 silent
  steps, then one key word per step, little-endian. Encrypting twice gives the message back.
\<close>

theorem hc128_correct:
  assumes "length (hc_P st) = 512" "length (hc_Q st) = 512" "length (keystream st) = 16"
  shows "HC128 st key iv message
      = map2 (XOR) message (concat (map (le_split 4) (hc_stream key iv (16 * ((length message + 63) div 64)))))
    \<and> HC128 st key iv (HC128 st key iv message) = message"
proof -
  let ?ks = "\<lambda>n. concat (map (le_split 4) (hc_stream key iv (16 * ((n + 63) div 64))))"
  have "n \<le> length (?ks n)" for n
    by (simp add: length_concat comp_def sum_list_triv length_hc_stream)
  then show ?thesis
    by (simp add: HC128_stream [OF assms] map2_xor_twice)
qed

definition blank_state :: HC128_State where
  "blank_state = \<lparr>hc_P = replicate 512 0, hc_Q = replicate 512 0, keystream = replicate 16 0, counter1024 = 0\<rparr>"

theorem hc128_correct_witness:
  "HC128 blank_state (replicate 16 1) (replicate 16 2) (HC128 blank_state (replicate 16 1) (replicate 16 2) [1, 2, 3]) = [1, 2, 3]"
proof -
  have "length (hc_P blank_state) = 512" "length (hc_Q blank_state) = 512" "length (keystream blank_state) = 16"
    by (simp_all add: blank_state_def)
  from hc128_correct [OF this] show ?thesis by blast
qed

end
