(* ===== verification/Chain_Fill.thy ===== *)
theory Chain_Fill
  imports Hc128
begin

text \<open>
  The salt of the proof of work from hard fork 13 on (\<open>src/blockchain_db/lmdb/db_lmdb.cpp\<close>): 4096 messages of 64 bytes, each
  made of fields of pseudo-randomly picked blocks and encrypted with HC-128, which is keyed again from the bytes
  written so far. \<open>cna_v6_data_reference\<close> makes one message after the other; \<open>cna_v6_data_run_ahead\<close>, which consensus
  runs, first draws the picks and key words of 16 messages. \<open>None\<close> stands for a draw that never ends, for an access
  outside of the cached blocks and for a remainder by zero.
\<close>

section \<open>Definitions\<close>

definition CN_SALT_MEMORY :: nat where "CN_SALT_MEMORY = 262144"

record block_cache_fields =
  timestamp :: u64
  diff_lo :: u64
  coins :: u64

record fill_params =
  fp_hashes :: "hash list"
  fp_fields :: "block_cache_fields list"
  fp_height :: u64
  fp_window_size :: u64
  fp_window_base :: u64
  fp_odds :: u32
  fp_reseed_blocks :: u32
  fp_hash_words :: u32

text \<open>The variables of the two loops: the cipher, \<open>rng_key_idx\<close>, \<open>msg\<close>, the buffer, \<open>optr\<close> as an offset into it and \<open>count\<close>.\<close>

record fill_state =
  fs_rng :: HC128_State
  fs_idx :: nat
  fs_msg :: bytes
  fs_out :: bytes
  fs_optr :: nat
  fs_count :: u64

definition hash_of_block :: "fill_params \<Rightarrow> u64 \<Rightarrow> bytes option" where
  "hash_of_block p i = (if unat i < length (fp_hashes p) then Some (fp_hashes p ! unat i) else None)"

definition cna_v6_field :: "fill_params \<Rightarrow> u64 \<Rightarrow> nat \<Rightarrow> u64 \<Rightarrow> bytes option" where
  "cna_v6_field p i j count =
    (if fp_hash_words p \<noteq> 0
     then map_option (\<lambda>h. take 8 (drop (8 * unat (of_nat j + count AND 3)) h)) (hash_of_block p i)
     else if unat i < length (fp_fields p)
     then let f = fp_fields p ! unat i
          in Some (le_split 8 (if j = 1 then timestamp f else if j = 2 then diff_lo f else coins f))
     else None)"

definition pick_index :: "fill_params \<Rightarrow> HC128_State \<Rightarrow> nat \<Rightarrow> (u64 \<times> HC128_State \<times> nat) option" where
  "pick_index p st idx = do {
     (sel, st, idx) \<leftarrow> HC128_U32 st idx 256;
     if sel < fp_odds p
     then do { (r, st, idx) \<leftarrow> HC128_U32 st idx (ucast (fp_height p)); Some (ucast r, st, idx) }
     else do { (r, st, idx) \<leftarrow> HC128_U32 st idx (ucast (fp_window_size p)); Some (fp_window_base p + ucast r, st, idx) } }"

subsection \<open>The reference loop\<close>

fun ref_fields :: "fill_params \<Rightarrow> u64 \<Rightarrow> nat list \<Rightarrow> HC128_State \<Rightarrow> nat \<Rightarrow> bytes \<Rightarrow> nat
    \<Rightarrow> (HC128_State \<times> nat \<times> bytes \<times> nat) option" where
  "ref_fields p count [] st idx msg msgpos = Some (st, idx, msg, msgpos)"
| "ref_fields p count (j # js) st idx msg msgpos = do {
     (i, st, idx) \<leftarrow> pick_index p st idx;
     f \<leftarrow> cna_v6_field p i j count;
     ref_fields p count js st idx (memcpy_at msg msgpos f) (msgpos + 8) }"

definition ref_body :: "fill_params \<Rightarrow> fill_state \<Rightarrow> fill_state option" where
  "ref_body p s = do {
     (i, st, idx) \<leftarrow> pick_index p (fs_rng s) (fs_idx s);
     h \<leftarrow> hash_of_block p i;
     (st, idx, msg, msgpos) \<leftarrow> ref_fields p (fs_count s) [1, 2, 3] st idx (memcpy_at (fs_msg s) 0 h) 32;
     let msg = memcpy_at msg msgpos (le_split 8 (fs_count s));
     let (st, ciphertext) = HC128_EncryptMessage st msg;
     Some \<lparr>fs_rng = st, fs_idx = idx, fs_msg = msg, fs_out = memcpy_at (fs_out s) (fs_optr s) ciphertext,
           fs_optr = fs_optr s + 64, fs_count = fs_count s + 1\<rparr> }"

definition reseed :: "fill_state \<Rightarrow> fill_state option" where
  "reseed s = do {
     (r, st, idx) \<leftarrow> HC128_U32 (fs_rng s) (fs_idx s) (8 * 16 * 4 - 16);
     let iv = take 16 (drop (fs_optr s - 8 * 16 * 4 + unat r) (fs_out s));
     (r, st, idx) \<leftarrow> HC128_U32 st idx (8 * 16 * 4 - 16);
     let key = take 16 (drop (fs_optr s - 16 * 16 * 4 + unat r) (fs_out s));
     Some (s\<lparr>fs_rng := HC128_Init st key iv, fs_idx := idx\<rparr>) }"

fun repeat_body :: "(fill_state \<Rightarrow> fill_state option) \<Rightarrow> nat \<Rightarrow> fill_state \<Rightarrow> fill_state option" where
  "repeat_body body 0 s = Some s"
| "repeat_body body (Suc n) s = do { s \<leftarrow> body s; repeat_body body n s }"

definition due_reseed :: "fill_params \<Rightarrow> fill_state \<Rightarrow> fill_state option" where
  "due_reseed p s =
    (if fp_reseed_blocks p = 0 then None
     else if (fs_count s div 16) mod ucast (fp_reseed_blocks p) = 0 then reseed s else Some s)"

partial_function (option) ref_loop :: "fill_params \<Rightarrow> u64 \<Rightarrow> fill_state \<Rightarrow> fill_state option" where
  "ref_loop p limit s =
    (if fs_count s < limit
     then do {
       s \<leftarrow> repeat_body (ref_body p) 16 (s\<lparr>fs_rng := HC128_NextKeys (fs_rng s)\<rparr>);
       s \<leftarrow> due_reseed p s;
       ref_loop p limit s }
     else Some s)"

text \<open>All four copies go to the start of the message.\<close>

definition mid_copy :: "fill_state \<Rightarrow> fill_state option" where
  "mid_copy s = do {
     (r, st, idx) \<leftarrow> HC128_U32 (fs_rng s) (fs_idx s) (131072 - 16);
     Some (s\<lparr>fs_rng := st, fs_idx := idx,
       fs_msg := memcpy_at (fs_msg s) 0 (take 16 (drop (fs_optr s - 131072 + unat r) (fs_out s)))\<rparr>) }"

definition midpoint :: "fill_state \<Rightarrow> fill_state option" where
  "midpoint s = do {
     s \<leftarrow> mid_copy s; s \<leftarrow> mid_copy s; s \<leftarrow> mid_copy s; s \<leftarrow> mid_copy s;
     let (st, ciphertext) = HC128_EncryptMessage (fs_rng s) (fs_msg s);
     let out = memcpy_at (fs_out s) (fs_optr s) ciphertext;
     Some (s\<lparr>fs_out := out, fs_rng := HC128_Init st (take 16 (drop (fs_optr s) out)) (take 16 (drop (fs_optr s + 16) out))\<rparr>) }"

text \<open>Both functions start with a message of undefined content, here a parameter, and leave the cipher and the buffer.\<close>

definition fill_start :: "bytes \<Rightarrow> HC128_State \<Rightarrow> bytes \<Rightarrow> fill_state" where
  "fill_start msg st out = \<lparr>fs_rng = st, fs_idx = 0, fs_msg = msg, fs_out = out, fs_optr = 0, fs_count = 0\<rparr>"

definition cna_v6_data_reference :: "fill_params \<Rightarrow> bytes \<Rightarrow> HC128_State \<Rightarrow> bytes \<Rightarrow> (HC128_State \<times> bytes) option" where
  "cna_v6_data_reference p msg st out = do {
     s \<leftarrow> ref_loop p 2048 (fill_start msg st out);
     s \<leftarrow> midpoint s;
     s \<leftarrow> ref_loop p 4096 s;
     Some (fs_rng s, fs_out s) }"

subsection \<open>The run-ahead loop\<close>

definition cna_v6_pick :: "fill_params \<Rightarrow> HC128_State \<Rightarrow> nat \<Rightarrow> (u64 \<times> HC128_State \<times> nat) option" where
  "cna_v6_pick p st idx = do {
     (sel, st, idx) \<leftarrow> HC128_U32 st idx 256;
     if sel < fp_odds p
     then do { (r, st, idx) \<leftarrow> HC128_U32 st idx (ucast (fp_height p)); Some (ucast r, st, idx) }
     else do { (r, st, idx) \<leftarrow> HC128_U32 st idx (ucast (fp_window_size p)); Some (fp_window_base p + ucast r, st, idx) } }"

fun draw_picks :: "fill_params \<Rightarrow> nat \<Rightarrow> HC128_State \<Rightarrow> nat \<Rightarrow> (u64 list \<times> HC128_State \<times> nat) option" where
  "draw_picks p 0 st idx = Some ([], st, idx)"
| "draw_picks p (Suc n) st idx = do {
     (i, st, idx) \<leftarrow> cna_v6_pick p st idx;
     (is', st, idx) \<leftarrow> draw_picks p n st idx;
     Some (i # is', st, idx) }"

text \<open>The picks \<open>idx[k]\<close> and the key words \<open>ks[k]\<close> of the next \<open>n\<close> messages.\<close>

fun run_ahead :: "fill_params \<Rightarrow> nat \<Rightarrow> HC128_State \<Rightarrow> nat \<Rightarrow> ((u64 list \<times> u32 list) list \<times> HC128_State \<times> nat) option" where
  "run_ahead p 0 st idx = Some ([], st, idx)"
| "run_ahead p (Suc n) st idx = do {
     (is', st, idx) \<leftarrow> draw_picks p 4 st idx;
     let st = HC128_NextKeys st;
     (ds, st', idx) \<leftarrow> run_ahead p n st idx;
     Some ((is', keystream st) # ds, st', idx) }"

fun put_fields :: "fill_params \<Rightarrow> u64 \<Rightarrow> u64 list \<Rightarrow> nat list \<Rightarrow> bytes \<Rightarrow> bytes option" where
  "put_fields p count is' [] msg = Some msg"
| "put_fields p count is' (j # js) msg = do {
     f \<leftarrow> cna_v6_field p (is' ! j) j count;
     put_fields p count is' js (memcpy_at msg (24 + 8 * j) f) }"

definition put_message :: "fill_params \<Rightarrow> u64 list \<times> u32 list \<Rightarrow> fill_state \<Rightarrow> fill_state option" where
  "put_message p d s = do {
     h \<leftarrow> hash_of_block p (fst d ! 0);
     msg \<leftarrow> put_fields p (fs_count s) (fst d) [1, 2, 3] (memcpy_at (fs_msg s) 0 h);
     let msg = memcpy_at msg 56 (le_split 8 (fs_count s));
     let out = fold (\<lambda>j out. memcpy_at out (fs_optr s + 4 * j) (le_split 4 (u32_at msg j XOR snd d ! j))) [0..<16] (fs_out s);
     Some (s\<lparr>fs_msg := msg, fs_out := out, fs_optr := fs_optr s + 64, fs_count := fs_count s + 1\<rparr>) }"

fun put_messages :: "fill_params \<Rightarrow> (u64 list \<times> u32 list) list \<Rightarrow> fill_state \<Rightarrow> fill_state option" where
  "put_messages p [] s = Some s"
| "put_messages p (d # ds) s = do { s \<leftarrow> put_message p d s; put_messages p ds s }"

partial_function (option) run_ahead_loop :: "fill_params \<Rightarrow> fill_state \<Rightarrow> fill_state option" where
  "run_ahead_loop p s =
    (if fs_count s < 4096
     then do {
       (ds, st, idx) \<leftarrow> run_ahead p 16 (HC128_NextKeys (fs_rng s)) (fs_idx s);
       s \<leftarrow> put_messages p ds (s\<lparr>fs_rng := st, fs_idx := idx\<rparr>);
       s \<leftarrow> due_reseed p s;
       s \<leftarrow> (if fs_count s = 2048 then midpoint s else Some s);
       run_ahead_loop p s }
     else Some s)"

definition cna_v6_data_run_ahead :: "fill_params \<Rightarrow> bytes \<Rightarrow> HC128_State \<Rightarrow> bytes \<Rightarrow> (HC128_State \<times> bytes) option" where
  "cna_v6_data_run_ahead p msg st out = do {
     s \<leftarrow> run_ahead_loop p (fill_start msg st out);
     Some (fs_rng s, fs_out s) }"

subsection \<open>The salt\<close>

definition CNA_V6_WINDOW_BLOCKS_V13 :: u64 where "CNA_V6_WINDOW_BLOCKS_V13 = 100000"

definition fill_params_at :: "hash list \<Rightarrow> block_cache_fields list \<Rightarrow> u64 \<Rightarrow> u32 \<Rightarrow> u32 \<Rightarrow> u32 \<Rightarrow> fill_params" where
  "fill_params_at block_hashes block_fields height odds reseed_blocks hash_words =
    (let window_size = (if height > CNA_V6_WINDOW_BLOCKS_V13 then CNA_V6_WINDOW_BLOCKS_V13 else height)
     in \<lparr>fp_hashes = block_hashes, fp_fields = block_fields, fp_height = height, fp_window_size = window_size,
         fp_window_base = height - window_size, fp_odds = odds, fp_reseed_blocks = reseed_blocks, fp_hash_words = hash_words\<rparr>)"

text \<open>
  \<open>do_check\<close> is the decision to run the self-check on this call; \<open>msg\<close> and \<open>msg'\<close> are the undefined buffers of the two
  loops. The blocks of the cache are arguments.
\<close>

definition get_cna_v6_data :: "bool \<Rightarrow> bytes \<Rightarrow> bytes \<Rightarrow> hash list \<Rightarrow> block_cache_fields list \<Rightarrow> bytes \<Rightarrow> HC128_State
    \<Rightarrow> u64 \<Rightarrow> u32 \<Rightarrow> u32 \<Rightarrow> u32 \<Rightarrow> (HC128_State \<times> bytes) option" where
  "get_cna_v6_data do_check msg msg' block_hashes block_fields out st height odds reseed_blocks hash_words =
    (if height = 0 then Some (st, out)
     else if reseed_blocks = 0 \<or> 256 mod reseed_blocks \<noteq> 0 then None
     else let p = fill_params_at block_hashes block_fields height odds reseed_blocks hash_words in
       if do_check
       then do {
         (st_ref, ref_out) \<leftarrow> cna_v6_data_reference p msg st (replicate CN_SALT_MEMORY 0);
         (st, out) \<leftarrow> cna_v6_data_run_ahead p msg' st out;
         if ref_out \<noteq> take CN_SALT_MEMORY out then None
         else if st_ref \<noteq> st then None
         else Some (st, out) }
       else cna_v6_data_run_ahead p msg' st out)"

section \<open>One message\<close>

lemma bind_commute: "do { x \<leftarrow> (a :: 'a option); y \<leftarrow> (b :: 'b option); f x y } = do { y \<leftarrow> b; x \<leftarrow> a; f x y }"
  by (cases a; cases b) simp_all

lemma cna_v6_pick_index: "cna_v6_pick p st idx = pick_index p st idx"
  by (simp add: cna_v6_pick_def pick_index_def)

definition hashes_fit :: "fill_params \<Rightarrow> bool" where
  "hashes_fit p \<longleftrightarrow> (\<forall>h \<in> set (fp_hashes p). length h = 32)"

lemma length_hash_of_block: "hashes_fit p \<Longrightarrow> hash_of_block p i = Some h \<Longrightarrow> length h = 32"
  by (auto simp: hash_of_block_def hashes_fit_def split: if_splits)

lemma length_cna_v6_field:
  assumes "hashes_fit p" "cna_v6_field p i j count = Some f"
  shows "length f = 8"
proof -
  have "unat (x AND 3 :: u64) \<le> 3" for x
    using word_and_le1 [of x 3] by (simp add: word_le_nat_alt)
  from this [of "of_nat j + count"] have "8 + 8 * unat (of_nat j + count AND 3 :: u64) \<le> 32" by linarith
  then show ?thesis
    using assms length_hash_of_block [OF assms(1), of i] by (auto simp: cna_v6_field_def Let_def split: if_splits)
qed

text \<open>What a message is made of, given the picks, and what is written, given the key words.\<close>

definition message_of :: "fill_params \<Rightarrow> u64 list \<Rightarrow> u64 \<Rightarrow> bytes option" where
  "message_of p is' count = do {
     h \<leftarrow> hash_of_block p (is' ! 0);
     f1 \<leftarrow> cna_v6_field p (is' ! 1) 1 count;
     f2 \<leftarrow> cna_v6_field p (is' ! 2) 2 count;
     f3 \<leftarrow> cna_v6_field p (is' ! 3) 3 count;
     Some (h @ f1 @ f2 @ f3 @ le_split 8 count) }"

definition write_message :: "u32 list \<Rightarrow> bytes \<Rightarrow> fill_state \<Rightarrow> fill_state" where
  "write_message ks msg s = s\<lparr>fs_msg := msg,
     fs_out := memcpy_at (fs_out s) (fs_optr s) (concat (map (\<lambda>j. le_split 4 (u32_at msg j XOR ks ! j)) [0..<16])),
     fs_optr := fs_optr s + 64, fs_count := fs_count s + 1\<rparr>"

lemma length_message_of: "hashes_fit p \<Longrightarrow> message_of p is' count = Some msg \<Longrightarrow> length msg = 64"
  using length_hash_of_block length_cna_v6_field by (fastforce simp: message_of_def bind_eq_Some_conv)

text \<open>Copying the parts one after the other gives the whole message, whatever the buffer held before.\<close>

lemma memcpy_parts:
  assumes "length m = 64" "length h = 32" "length f1 = 8" "length f2 = 8" "length f3 = 8" "length c = 8"
  shows "memcpy_at (memcpy_at (memcpy_at (memcpy_at (memcpy_at m 0 h) 32 f1) 40 f2) 48 f3) 56 c = h @ f1 @ f2 @ f3 @ c"
  using assms by (simp add: memcpy_at_def)

lemma put_fields_message:
  assumes "hashes_fit p" "length m = 64"
  shows "do { h \<leftarrow> hash_of_block p (is' ! 0); msg \<leftarrow> put_fields p count is' [1, 2, 3] (memcpy_at m 0 h);
      Some (memcpy_at msg 56 (le_split 8 count)) } = message_of p is' count"
  using memcpy_parts [OF assms(2)] length_hash_of_block [OF assms(1)] length_cna_v6_field [OF assms(1)]
  by (auto simp: message_of_def split: bind_splits)

lemma draw_4: "draw_picks p 4 st idx = do {
    (i0, st, idx) \<leftarrow> pick_index p st idx; (i1, st, idx) \<leftarrow> pick_index p st idx;
    (i2, st, idx) \<leftarrow> pick_index p st idx; (i3, st, idx) \<leftarrow> pick_index p st idx; Some ([i0, i1, i2, i3], st, idx) }"
  by (auto simp: numeral_eq_Suc cna_v6_pick_index split: bind_splits)

lemma EncryptMessage_64:
  assumes "length msg = 64"
  shows "HC128_EncryptMessage st msg = (HC128_NextKeys st,
    concat (map (\<lambda>j. le_split 4 (u32_at msg j XOR keystream (HC128_NextKeys st) ! j)) [0..<16]))"
  using assms by (subst HC128_EncryptMessage.simps, subst HC128_EncryptMessage.simps) (simp add: Let_def)

lemma memcpy_at_append: "memcpy_at (memcpy_at out a xs) (a + length xs) ys = memcpy_at out a (xs @ ys)"
  by (cases "a \<le> length out") (simp_all add: memcpy_at_def ac_simps)

lemma put_words: "fold (\<lambda>j out. memcpy_at out (a + 4 * j) (le_split 4 (w j))) [0..<n] out
    = memcpy_at out a (concat (map (\<lambda>j. le_split 4 (w j)) [0..<n]))"
proof (induction n)
  case (Suc n)
  have "length (concat (map (\<lambda>j. le_split 4 (w j)) [0..<n])) = 4 * n"
    by (simp add: length_concat comp_def sum_list_triv)
  then show ?case
    using Suc memcpy_at_append [of out a "concat (map (\<lambda>j. le_split 4 (w j)) [0..<n])" "le_split 4 (w n)"] by simp
qed (simp add: memcpy_at_def)

lemma put_message_parts:
  assumes "hashes_fit p" "length (fs_msg s) = 64"
  shows "put_message p d s = do { msg \<leftarrow> message_of p (fst d) (fs_count s); Some (write_message (snd d) msg s) }"
  unfolding put_fields_message [OF assms, symmetric]
  by (simp add: put_message_def write_message_def put_words Let_def)

definition draw :: "fill_params \<Rightarrow> HC128_State \<Rightarrow> nat \<Rightarrow> ((u64 list \<times> u32 list) \<times> HC128_State \<times> nat) option" where
  "draw p st idx = do {
     (is', st, idx) \<leftarrow> draw_picks p 4 st idx;
     Some ((is', keystream (HC128_NextKeys st)), HC128_NextKeys st, idx) }"

lemma ref_body_parts:
  assumes "hashes_fit p" "length (fs_msg s) = 64"
  shows "ref_body p s = do {
    (d, st, idx) \<leftarrow> draw p (fs_rng s) (fs_idx s);
    s \<leftarrow> put_message p d s;
    Some (s\<lparr>fs_rng := st, fs_idx := idx\<rparr>) }"
proof -
  note parts = memcpy_parts [OF assms(2)]
  note len = length_hash_of_block [OF assms(1)] length_cna_v6_field [OF assms(1)]
  show ?thesis
    unfolding put_message_parts [OF assms] draw_def draw_4 ref_body_def message_of_def
    by (auto simp: parts len EncryptMessage_64 write_message_def Let_def split: bind_splits)
qed

lemma put_message_frame:
  "put_message p d (s\<lparr>fs_rng := st, fs_idx := idx\<rparr>) = map_option (\<lambda>s. s\<lparr>fs_rng := st, fs_idx := idx\<rparr>) (put_message p d s)"
  by (auto simp: put_message_def Let_def split: bind_splits)

lemma put_messages_frame:
  "put_messages p ds (s\<lparr>fs_rng := st, fs_idx := idx\<rparr>) = map_option (\<lambda>s. s\<lparr>fs_rng := st, fs_idx := idx\<rparr>) (put_messages p ds s)"
proof (induction ds arbitrary: s)
  case (Cons d ds)
  then show ?case by (cases "put_message p d s") (simp_all add: put_message_frame)
qed simp

lemma put_message_keeps:
  assumes "hashes_fit p" "length (fs_msg s) = 64" "put_message p d s = Some s'"
  shows "length (fs_msg s') = 64" "fs_count s' = fs_count s + 1"
  using assms length_message_of [OF assms(1)]
  by (auto simp: put_message_parts write_message_def bind_eq_Some_conv)

text \<open>What the message buffer held before does not matter.\<close>

lemma put_message_any:
  assumes "hashes_fit p" "length (fs_msg s) = 64" "length m = 64"
  shows "put_message p d (s\<lparr>fs_msg := m\<rparr>) = put_message p d s"
  using assms by (simp add: put_message_parts write_message_def)

section \<open>One block of sixteen messages\<close>

lemma run_ahead_draw: "run_ahead p (Suc n) st idx = do {
    (d, st, idx) \<leftarrow> draw p st idx; (ds, st, idx) \<leftarrow> run_ahead p n st idx; Some (d # ds, st, idx) }"
  by (auto simp: draw_def Let_def split: bind_splits)

lemma repeat_run_ahead:
  assumes "hashes_fit p" "length (fs_msg s) = 64"
  shows "repeat_body (ref_body p) n s = do {
    (ds, st, idx) \<leftarrow> run_ahead p n (fs_rng s) (fs_idx s);
    put_messages p ds (s\<lparr>fs_rng := st, fs_idx := idx\<rparr>) }"
  using assms(2)
proof (induction n arbitrary: s)
  case (Suc n)
  show ?case
  proof (cases "draw p (fs_rng s) (fs_idx s)")
    case None
    then show ?thesis using Suc.prems by (simp add: ref_body_parts assms run_ahead_draw del: run_ahead.simps)
  next
    case (Some r)
    then obtain d st idx where r: "draw p (fs_rng s) (fs_idx s) = Some (d, st, idx)" by (cases r) auto
    show ?thesis
    proof (cases "put_message p d s")
      case None
      then show ?thesis using Suc.prems r
        by (auto simp: ref_body_parts assms run_ahead_draw put_message_frame simp del: run_ahead.simps split: bind_splits)
    next
      case (Some s')
      then show ?thesis using Suc.prems r put_message_keeps(1) [OF assms(1) _ Some]
        by (auto simp: ref_body_parts assms run_ahead_draw put_message_frame Suc.IH simp del: run_ahead.simps split: bind_splits)
    qed
  qed
qed simp

lemma repeat_body_keeps:
  assumes "hashes_fit p" "length (fs_msg s) = 64" "repeat_body (ref_body p) n s = Some s'"
  shows "length (fs_msg s') = 64 \<and> fs_count s' = fs_count s + of_nat n"
  using assms(2, 3)
proof (induction n arbitrary: s)
  case (Suc n)
  from Suc.prems obtain d st idx t where
    "put_message p d s = Some t" "repeat_body (ref_body p) n (t\<lparr>fs_rng := st, fs_idx := idx\<rparr>) = Some s'"
    by (auto simp: ref_body_parts assms bind_eq_Some_conv)
  with Suc.IH [OF _ this(2)] put_message_keeps [OF assms(1) Suc.prems(1)] show ?case by simp
qed simp

lemma reseed_keeps: "reseed s = Some s' \<Longrightarrow> fs_msg s' = fs_msg s \<and> fs_count s' = fs_count s"
  by (auto simp: reseed_def bind_eq_Some_conv)

text \<open>A block as both loops make it.\<close>

definition ref_block :: "fill_params \<Rightarrow> fill_state \<Rightarrow> fill_state option" where
  "ref_block p s = do { s \<leftarrow> repeat_body (ref_body p) 16 (s\<lparr>fs_rng := HC128_NextKeys (fs_rng s)\<rparr>); due_reseed p s }"

lemma ref_block_keeps:
  assumes "hashes_fit p" "length (fs_msg s) = 64" "ref_block p s = Some s'"
  shows "length (fs_msg s') = 64" "fs_count s' = fs_count s + 16"
  using assms repeat_body_keeps [OF assms(1), of "s\<lparr>fs_rng := HC128_NextKeys (fs_rng s)\<rparr>" 16]
  by (auto simp: ref_block_def due_reseed_def bind_eq_Some_conv dest!: reseed_keeps split: if_splits)

lemma ref_loop_block:
  "ref_loop p limit s = (if fs_count s < limit then do { s \<leftarrow> ref_block p s; ref_loop p limit s } else Some s)"
  by (subst ref_loop.simps) (simp add: ref_block_def)

lemma run_ahead_loop_block:
  assumes "hashes_fit p" "length (fs_msg s) = 64"
  shows "run_ahead_loop p s = (if fs_count s < 4096
    then do { s \<leftarrow> ref_block p s; s \<leftarrow> (if fs_count s = 2048 then midpoint s else Some s); run_ahead_loop p s } else Some s)"
  using assms by (subst run_ahead_loop.simps) (auto simp: ref_block_def repeat_run_ahead split: bind_splits)

section \<open>The two loops\<close>

lemma mid_copy_keeps: "length (fs_msg s) = 64 \<Longrightarrow> mid_copy s = Some s' \<Longrightarrow> length (fs_msg s') = 64 \<and> fs_count s' = fs_count s"
  by (auto simp: mid_copy_def memcpy_at_def bind_eq_Some_conv)

lemma midpoint_keeps: "length (fs_msg s) = 64 \<Longrightarrow> midpoint s = Some s' \<Longrightarrow> length (fs_msg s') = 64 \<and> fs_count s' = fs_count s"
  by (force simp: midpoint_def Let_def bind_eq_Some_conv split_beta dest: mid_copy_keeps)

lemma count_step: "unat c + 16 \<le> 4096 \<Longrightarrow> unat (c + 16 :: u64) = unat c + 16"
  by (simp add: unat_add_u64)

lemma second_half:
  assumes "hashes_fit p" "length (fs_msg s) = 64" "unat (fs_count s) + 16 * n = 4096" "2048 \<le> unat (fs_count s)"
  shows "run_ahead_loop p s = ref_loop p 4096 s"
  using assms(2-)
proof (induction n arbitrary: s)
  case 0
  then show ?case using assms(1) by (simp add: run_ahead_loop_block ref_loop_block word_less_nat_alt)
next
  case (Suc n)
  then have less: "fs_count s < 4096" by (simp add: word_less_nat_alt)
  show ?case
  proof (cases "ref_block p s")
    case None
    then show ?thesis using assms(1) Suc.prems less by (simp add: run_ahead_loop_block ref_loop_block [of p _ s])
  next
    case (Some t)
    note keeps = ref_block_keeps [OF assms(1) Suc.prems(1) Some]
    have c: "unat (fs_count t) = unat (fs_count s) + 16" using keeps Suc.prems by (simp add: count_step)
    then have "fs_count t \<noteq> 2048" using Suc.prems by (auto simp: word_unat_eq_iff)
    moreover have "run_ahead_loop p t = ref_loop p 4096 t" using Suc.IH [OF keeps(1)] Suc.prems c by simp
    ultimately show ?thesis
      using assms(1) Suc.prems less Some by (simp add: run_ahead_loop_block [OF assms(1) Suc.prems(1)] ref_loop_block [of p _ s])
  qed
qed

lemma first_half:
  assumes "hashes_fit p" "length (fs_msg s) = 64" "unat (fs_count s) + 16 * Suc n = 2048"
  shows "run_ahead_loop p s = do { s \<leftarrow> ref_loop p 2048 s; s \<leftarrow> midpoint s; ref_loop p 4096 s }"
  using assms(2-)
proof (induction n arbitrary: s)
  case 0
  then have less: "fs_count s < 2048" "fs_count s < 4096" by (simp_all add: word_less_nat_alt)
  show ?case
  proof (cases "ref_block p s")
    case (Some t)
    note keeps = ref_block_keeps [OF assms(1) 0(1) Some]
    have "fs_count t = 2048" using keeps 0(2) by (simp add: word_unat_eq_iff count_step)
    moreover from this have "ref_loop p 2048 t = Some t" by (simp add: ref_loop_block)
    moreover have "run_ahead_loop p u = ref_loop p 4096 u" if "midpoint t = Some u" for u
      using midpoint_keeps [OF keeps(1) that] second_half [OF assms(1), of u 128] \<open>fs_count t = 2048\<close> by simp
    ultimately show ?thesis
      using less Some by (auto simp: run_ahead_loop_block [OF assms(1) 0(1)] ref_loop_block [of p _ s] split: bind_splits)
  qed (use less in \<open>simp add: run_ahead_loop_block [OF assms(1) 0(1)] ref_loop_block [of p _ s]\<close>)
next
  case (Suc n)
  then have less: "fs_count s < 2048" "fs_count s < 4096" by (simp_all add: word_less_nat_alt)
  show ?case
  proof (cases "ref_block p s")
    case (Some t)
    note keeps = ref_block_keeps [OF assms(1) Suc.prems(1) Some]
    have c: "unat (fs_count t) = unat (fs_count s) + 16" using keeps Suc.prems by (simp add: count_step)
    then have "fs_count t \<noteq> 2048" using Suc.prems by (auto simp: word_unat_eq_iff)
    moreover have "run_ahead_loop p t = do { s \<leftarrow> ref_loop p 2048 t; s \<leftarrow> midpoint s; ref_loop p 4096 s }"
      using Suc.IH [OF keeps(1)] Suc.prems c by simp
    ultimately show ?thesis
      using less Some by (simp add: run_ahead_loop_block [OF assms(1) Suc.prems(1)] ref_loop_block [of p _ s])
  qed (use less in \<open>simp add: run_ahead_loop_block [OF assms(1) Suc.prems(1)] ref_loop_block [of p _ s]\<close>)
qed

lemma run_ahead_reference:
  assumes "hashes_fit p" "length m = 64" "length m' = 64"
  shows "cna_v6_data_run_ahead p m st out = cna_v6_data_reference p m' st out"
proof -
  let ?s = "fill_start m st out" and ?s' = "fill_start m' st out"
  have "ref_body p (?s\<lparr>fs_rng := r\<rparr>) = ref_body p (?s'\<lparr>fs_rng := r\<rparr>)" for r
    using put_message_any [OF assms(1), of "?s\<lparr>fs_rng := r\<rparr>" m'] assms by (simp add: ref_body_parts fill_start_def)
  then have "ref_block p ?s = ref_block p ?s'"
    by (simp add: ref_block_def numeral_eq_Suc fill_start_def)
  then have "ref_loop p 2048 ?s = ref_loop p 2048 ?s'"
    by (simp add: ref_loop_block [of p 2048 ?s] ref_loop_block [of p 2048 ?s']) (simp add: fill_start_def)
  moreover have "run_ahead_loop p ?s = do { s \<leftarrow> ref_loop p 2048 ?s; s \<leftarrow> midpoint s; ref_loop p 4096 s }"
    using first_half [OF assms(1), of ?s 127] assms(2) by (simp add: fill_start_def)
  ultimately show ?thesis
    by (simp add: cna_v6_data_run_ahead_def cna_v6_data_reference_def)
qed

section \<open>Bounded random numbers\<close>

lemma U32_loop_bound:
  assumes "U32_loop mx msk st idx = Some res"
  shows "fst res \<le> mx"
proof (rule U32_loop.raw_induct [OF _ assms, where P = "\<lambda>mx msk st idx res. fst res \<le> mx"])
  fix loop mx msk st idx res
  assume "\<And>mx msk st idx res. loop mx msk st idx = Some res \<Longrightarrow> fst res \<le> mx"
    and "(let (st, key_idx) = (if idx > 15 then (HC128_NextKeys st, 0) else (st, idx)); r = keystream st ! key_idx AND msk; key_idx = key_idx + 1
          in if r > mx then loop mx msk st key_idx else Some (r, st, key_idx)) = Some res"
  then show "fst res \<le> mx" by (auto simp: Let_def split: if_splits prod.splits)
qed

lemma U32_bound:
  assumes "HC128_U32 st idx mx = Some (r, st', idx')" "mx \<noteq> 0"
  shows "r < mx"
proof -
  have "r \<le> mx - 1" using U32_loop_bound assms(1) unfolding HC128_U32_def Let_def by fastforce
  then show ?thesis using assms(2) by (simp add: word_le_nat_alt word_less_nat_alt unat_minus_one) (metis One_nat_def Suc_pred le_imp_less_Suc unat_gt_0)
qed

section \<open>What the buffer held before\<close>

text \<open>
  Two runs that differ only in the part of the buffer not yet written stay so: what is read back lies in the part
  written.
\<close>

definition agree :: "fill_state \<Rightarrow> fill_state \<Rightarrow> bool" where
  "agree s t \<longleftrightarrow> fs_rng t = fs_rng s \<and> fs_idx t = fs_idx s \<and> fs_msg t = fs_msg s \<and> fs_optr t = fs_optr s \<and> fs_count t = fs_count s
     \<and> length (fs_msg s) = 64 \<and> fs_optr s = 64 * unat (fs_count s)
     \<and> length (fs_out s) = CN_SALT_MEMORY \<and> length (fs_out t) = CN_SALT_MEMORY
     \<and> take (64 * unat (fs_count s)) (fs_out s) = take (64 * unat (fs_count s)) (fs_out t)"

lemma rel_bind:
  assumes "rel_option R a b" "\<And>x y. a = Some x \<Longrightarrow> b = Some y \<Longrightarrow> R x y \<Longrightarrow> rel_option S (f x) (g y)"
  shows "rel_option S (a \<bind> f) (b \<bind> g)"
  using assms by (cases a; cases b) auto

lemma take_drop_agree: "take n xs = take n ys \<Longrightarrow> a + k \<le> n \<Longrightarrow> take k (drop a xs) = take k (drop a ys)"
  by (metis (no_types) add.commute min.absorb1 take_drop take_take)

lemma agree_write:
  assumes "agree s t" "length m = 64" "unat (fs_count s) < 4096"
  shows "agree (write_message ks m s) (write_message ks m t)"
proof -
  let ?c = "concat (map (\<lambda>j. le_split 4 (u32_at m j XOR ks ! j)) [0..<16])"
  have "length ?c = 64" by (simp add: length_concat comp_def sum_list_triv)
  moreover have "unat (fs_count s + 1) = unat (fs_count s) + 1" using assms by (simp add: unat_add_u64)
  ultimately show ?thesis
    using assms by (simp add: agree_def write_message_def memcpy_at_def CN_SALT_MEMORY_def)
qed

lemma agree_put:
  assumes "hashes_fit p" "agree s t" "unat (fs_count s) < 4096"
  shows "rel_option agree (put_message p d s) (put_message p d t)"
proof -
  have "put_message p d t = do { m \<leftarrow> message_of p (fst d) (fs_count s); Some (write_message (snd d) m t) }"
    "put_message p d s = do { m \<leftarrow> message_of p (fst d) (fs_count s); Some (write_message (snd d) m s) }"
    using assms by (simp_all add: put_message_parts agree_def)
  then show ?thesis
    using agree_write [OF assms(2) _ assms(3)] length_message_of [OF assms(1)] by (auto split: bind_splits)
qed

lemma agree_body:
  assumes "hashes_fit p" "agree s t" "unat (fs_count s) < 4096"
  shows "rel_option agree (ref_body p s) (ref_body p t)"
proof -
  have "ref_body p u = do {
      (d, st, idx) \<leftarrow> draw p (fs_rng s) (fs_idx s); u \<leftarrow> put_message p d u; Some (u\<lparr>fs_rng := st, fs_idx := idx\<rparr>) }"
    if "u = s \<or> u = t" for u
    using that assms by (auto simp: ref_body_parts agree_def)
  note body = this [of s, simplified] this [of t, simplified]
  have "agree (u\<lparr>fs_rng := st, fs_idx := idx\<rparr>) (v\<lparr>fs_rng := st, fs_idx := idx\<rparr>)" if "agree u v" for u v st idx
    using that by (simp add: agree_def)
  then show ?thesis
    unfolding body by (cases "draw p (fs_rng s) (fs_idx s)") (auto intro!: rel_bind [OF agree_put [OF assms]])
qed

lemma agree_repeat:
  assumes "hashes_fit p" "agree s t" "unat (fs_count s) + n \<le> 4096"
  shows "rel_option agree (repeat_body (ref_body p) n s) (repeat_body (ref_body p) n t)"
  using assms(2, 3)
proof (induction n arbitrary: s t)
  case (Suc n)
  have "unat (fs_count u) = unat (fs_count s) + 1" if "ref_body p s = Some u" for u
    using repeat_body_keeps [OF assms(1), of s 1 u] Suc.prems that by (simp add: agree_def unat_add_u64)
  then show ?case
    using Suc by (auto intro!: rel_bind [where R = agree] agree_body assms)
qed simp

lemma agree_read:
  assumes "agree s t" "a + k \<le> fs_optr s"
  shows "take k (drop a (fs_out s)) = take k (drop a (fs_out t))"
  using assms by (intro take_drop_agree [where n = "fs_optr s"]) (simp_all add: agree_def)

lemma agree_reseed:
  assumes "agree s t" "16 \<le> unat (fs_count s)"
  shows "rel_option agree (reseed s) (reseed t)"
proof -
  have "1024 \<le> fs_optr s" using assms by (simp add: agree_def)
  moreover have "unat r < 496" if "HC128_U32 st idx 496 = Some (r, st', idx')" for r st idx st' idx'
    using U32_bound [OF that] by (simp add: word_less_nat_alt)
  ultimately have read: "take 16 (drop (fs_optr s - 512 + unat r) (fs_out s)) = take 16 (drop (fs_optr s - 512 + unat r) (fs_out t))"
      "take 16 (drop (fs_optr s - 1024 + unat r) (fs_out s)) = take 16 (drop (fs_optr s - 1024 + unat r) (fs_out t))"
    if "HC128_U32 st idx 496 = Some (r, st', idx')" for r st idx st' idx'
    using that by (fastforce intro: agree_read [OF assms(1)])+
  have "fs_optr s = 64 * unat (fs_count s)" using assms by (simp add: agree_def)
  then show ?thesis
    using assms(1) read by (auto simp: reseed_def agree_def split: bind_splits)
qed

lemma agree_block:
  assumes "hashes_fit p" "agree s t" "unat (fs_count s) + 16 \<le> 4096"
  shows "rel_option agree (ref_block p s) (ref_block p t)"
  unfolding ref_block_def
proof (rule rel_bind [where R = agree])
  let ?s = "\<lambda>s. s\<lparr>fs_rng := HC128_NextKeys (fs_rng s)\<rparr>"
  show "rel_option agree (repeat_body (ref_body p) 16 (?s s)) (repeat_body (ref_body p) 16 (?s t))"
    using assms by (intro agree_repeat) (simp_all add: agree_def)
  fix u v assume u: "repeat_body (ref_body p) 16 (?s s) = Some u" and uv: "agree u v"
  have "unat (fs_count u) = unat (fs_count s) + 16"
    using repeat_body_keeps [OF assms(1) _ u] assms by (simp add: agree_def count_step)
  moreover have "fs_count v = fs_count u" using uv by (simp add: agree_def)
  ultimately show "rel_option agree (due_reseed p u) (due_reseed p v)"
    using uv agree_reseed [OF uv] by (simp add: due_reseed_def)
qed

lemma agree_loop:
  assumes "hashes_fit p" "agree s t" "unat (fs_count s) + 16 * n = unat limit" "limit \<le> 4096"
  shows "rel_option agree (ref_loop p limit s) (ref_loop p limit t)"
  using assms(2, 3)
proof (induction n arbitrary: s t)
  case 0
  then have "\<not> fs_count s < limit" "fs_count t = fs_count s" by (simp_all add: word_less_nat_alt agree_def)
  then show ?case using 0 by (simp add: ref_loop_block)
next
  case (Suc n)
  then have less: "fs_count s < limit" "fs_count t = fs_count s" "unat (fs_count s) + 16 \<le> 4096" "length (fs_msg s) = 64"
    using assms(4) by (simp_all add: word_less_nat_alt word_le_nat_alt agree_def)
  have "unat (fs_count u) + 16 * n = unat limit" if "ref_block p s = Some u" for u
    using ref_block_keeps(2) [OF assms(1) less(4) that] less Suc.prems by (simp add: count_step)
  then have "rel_option agree (ref_block p s \<bind> ref_loop p limit) (ref_block p t \<bind> ref_loop p limit)"
    using Suc.IH by (intro rel_bind [OF agree_block [OF assms(1) Suc.prems(1) less(3)]]) simp
  then show ?case using less by (simp add: ref_loop_block [of p limit s] ref_loop_block [of p limit t])
qed

lemma agree_mid_copy:
  assumes "agree s t" "fs_count s = 2048"
  shows "rel_option agree (mid_copy s) (mid_copy t)"
proof -
  have "unat r < 131056" if "HC128_U32 st idx 131056 = Some (r, st', idx')" for r st idx st' idx'
    using U32_bound [OF that] by (simp add: word_less_nat_alt)
  moreover have "fs_optr s = 131072" using assms by (simp add: agree_def)
  ultimately have read: "take 16 (drop (unat r) (fs_out s)) = take 16 (drop (unat r) (fs_out t))"
    if "HC128_U32 st idx 131056 = Some (r, st', idx')" for r st idx st' idx'
    using that by (fastforce intro: agree_read [OF assms(1)])
  have "fs_rng t = fs_rng s" "fs_idx t = fs_idx s" "fs_optr t = fs_optr s" "fs_optr s = 131072" using assms by (simp_all add: agree_def)
  then show ?thesis
    using assms(1) by (auto simp: mid_copy_def read agree_def memcpy_at_def split: bind_splits)
qed

lemma agree_midpoint:
  assumes "agree s t" "fs_count s = 2048"
  shows "rel_option agree (midpoint s) (midpoint t)"
proof -
  have last: "rel_option agree
      (let (st, c) = HC128_EncryptMessage (fs_rng u) (fs_msg u); out = memcpy_at (fs_out u) (fs_optr u) c
       in Some (u\<lparr>fs_out := out, fs_rng := HC128_Init st (take 16 (drop (fs_optr u) out)) (take 16 (drop (fs_optr u + 16) out))\<rparr>))
      (let (st, c) = HC128_EncryptMessage (fs_rng v) (fs_msg v); out = memcpy_at (fs_out v) (fs_optr v) c
       in Some (v\<lparr>fs_out := out, fs_rng := HC128_Init st (take 16 (drop (fs_optr v) out)) (take 16 (drop (fs_optr v + 16) out))\<rparr>))"
    if uv: "agree u v" "fs_count u = 2048" for u v
  proof -
    let ?c = "concat (map (\<lambda>j. le_split 4 (u32_at (fs_msg u) j XOR keystream (HC128_NextKeys (fs_rng u)) ! j)) [0..<16])"
    have "length ?c = 64" by (simp add: length_concat comp_def sum_list_triv)
    with uv show ?thesis
      by (simp add: agree_def EncryptMessage_64 Let_def memcpy_at_def CN_SALT_MEMORY_def)
  qed
  have copy: "rel_option agree (mid_copy u \<bind> f) (mid_copy v \<bind> g)"
    if "agree u v" "fs_count u = 2048" "\<And>x y. agree x y \<Longrightarrow> fs_count x = 2048 \<Longrightarrow> rel_option agree (f x) (g y)" for u v f g
    using that mid_copy_keeps [of u] by (intro rel_bind [OF agree_mid_copy [OF that(1, 2)]]) (auto simp: agree_def)
  show ?thesis
    unfolding midpoint_def by (rule copy [OF assms] copy last | assumption)+
qed

lemma ref_loop_keeps:
  assumes "hashes_fit p" "length (fs_msg s) = 64" "unat (fs_count s) + 16 * n = unat limit" "limit \<le> 4096" "ref_loop p limit s = Some u"
  shows "fs_count u = limit \<and> length (fs_msg u) = 64"
  using assms(2, 3, 5)
proof (induction n arbitrary: s)
  case 0
  then show ?case by (simp add: ref_loop_block word_less_nat_alt word_unat_eq_iff)
next
  case (Suc n)
  then have "fs_count s < limit" by (simp add: word_less_nat_alt)
  then obtain t where t: "ref_block p s = Some t" "ref_loop p limit t = Some u"
    using Suc.prems(3) by (auto simp: ref_loop_block [of p limit s] bind_eq_Some_conv)
  have "unat (fs_count s) + 16 \<le> 4096" using Suc.prems assms(4) by (simp add: word_le_nat_alt)
  then show ?case
    using Suc.IH [OF _ _ t(2)] ref_block_keeps [OF assms(1) Suc.prems(1) t(1)] Suc.prems(2) by (simp add: count_step)
qed

lemmas ref_loop_count = ref_loop_keeps [THEN conjunct1]
  and ref_loop_msg = ref_loop_keeps [THEN conjunct2]

definition same_salt :: "HC128_State \<times> bytes \<Rightarrow> HC128_State \<times> bytes \<Rightarrow> bool" where
  "same_salt r r' \<longleftrightarrow> r = r' \<and> length (snd r) = CN_SALT_MEMORY"

lemma agree_end:
  assumes "agree s t" "fs_count s = 4096"
  shows "same_salt (fs_rng s, fs_out s) (fs_rng t, fs_out t)"
proof -
  have "take CN_SALT_MEMORY (fs_out s) = take CN_SALT_MEMORY (fs_out t)" using assms by (simp add: agree_def CN_SALT_MEMORY_def)
  then show ?thesis using assms by (simp add: agree_def same_salt_def)
qed

lemma agree_second_half:
  assumes "hashes_fit p" "agree u v" "fs_count u = 2048"
  shows "rel_option same_salt (ref_loop p 4096 u \<bind> (\<lambda>s. Some (fs_rng s, fs_out s))) (ref_loop p 4096 v \<bind> (\<lambda>s. Some (fs_rng s, fs_out s)))"
proof (rule rel_bind [OF agree_loop [OF assms(1, 2), where n = 128]])
  fix x y assume "ref_loop p 4096 u = Some x" "agree x y"
  moreover from this have "fs_count x = 4096"
    using assms by (intro ref_loop_count [OF assms(1), of u 128]) (simp_all add: agree_def)
  ultimately show "rel_option same_salt (Some (fs_rng x, fs_out x)) (Some (fs_rng y, fs_out y))"
    by (simp add: agree_end)
qed (use assms in simp_all)

lemma agree_from_midpoint:
  assumes "hashes_fit p" "agree u v" "fs_count u = 2048"
  shows "rel_option same_salt (midpoint u \<bind> (\<lambda>s. ref_loop p 4096 s \<bind> (\<lambda>s. Some (fs_rng s, fs_out s))))
    (midpoint v \<bind> (\<lambda>s. ref_loop p 4096 s \<bind> (\<lambda>s. Some (fs_rng s, fs_out s))))"
  using assms midpoint_keeps [of u]
  by (intro rel_bind [OF agree_midpoint [OF assms(2, 3)]] agree_second_half) (auto simp: agree_def)

lemma reference_same_salt:
  assumes "hashes_fit p" "length m = 64" "length out = CN_SALT_MEMORY" "length out' = CN_SALT_MEMORY"
  shows "rel_option same_salt (cna_v6_data_reference p m st out) (cna_v6_data_reference p m st out')"
proof -
  let ?s = "fill_start m st out" and ?t = "fill_start m st out'"
  have start: "agree ?s ?t" "unat (fs_count ?s) + 16 * 128 = unat (2048 :: u64)" "length (fs_msg ?s) = 64"
    using assms by (simp_all add: agree_def fill_start_def)
  show ?thesis
    unfolding cna_v6_data_reference_def
    using ref_loop_count [OF assms(1) start(3, 2)]
    by (intro rel_bind [OF agree_loop [OF assms(1) start(1, 2)]] agree_from_midpoint assms) simp_all
qed

lemma reference_any_buffer:
  assumes "hashes_fit p" "length m = 64" "length out = CN_SALT_MEMORY" "length out' = CN_SALT_MEMORY"
  shows "cna_v6_data_reference p m st out = cna_v6_data_reference p m st out'"
  using reference_same_salt [OF assms, of st] by (auto elim!: option.rel_cases simp: same_salt_def)

lemma reference_length:
  assumes "hashes_fit p" "length m = 64" "length out = CN_SALT_MEMORY" "cna_v6_data_reference p m st out = Some (st', out')"
  shows "length out' = CN_SALT_MEMORY"
  using reference_same_salt [OF assms(1-3, 3), of st] assms(4) by (simp add: same_salt_def)

section \<open>Only the blocks below the height are read\<close>

lemma pick_below_height:
  assumes "pick_index (fill_params_at hs fs height odds n w) st idx = Some (i, st', idx')" "height \<noteq> 0" "unat height < 2 ^ 32"
  shows "i < height"
proof -
  let ?p = "fill_params_at hs fs height odds n w"
  have p: "fp_height ?p = height" "fp_window_base ?p = height - fp_window_size ?p" "fp_window_size ?p \<le> height" "fp_window_size ?p \<noteq> 0"
    using assms(2) by (auto simp: fill_params_at_def Let_def CNA_V6_WINDOW_BLOCKS_V13_def)
  have small: "unat (ucast x :: u32) = unat x" if "x \<le> height" for x :: u64
    using that assms(3) by (simp add: unat_ucast_u64_u32 word_le_nat_alt)
  have draw: "unat r < unat x" if "HC128_U32 t j (ucast x) = Some (r, t', j')" "x \<le> height" "x \<noteq> 0" for r x t j t' j'
  proof -
    have "(ucast x :: u32) \<noteq> 0" using small [OF that(2)] that(3) by (metis unat_0 unat_eq_zero)
    from U32_bound [OF that(1) this] show ?thesis using small [OF that(2)] by (simp add: word_less_nat_alt)
  qed
  have up: "unat (ucast r :: u64) = unat r" for r :: u32 by (simp add: unat_ucast_u32_u64)
  consider r t j t' j' where "HC128_U32 t j (ucast height) = Some (r, t', j')" "i = ucast r"
    | r t j t' j' where "HC128_U32 t j (ucast (fp_window_size ?p)) = Some (r, t', j')" "i = height - fp_window_size ?p + ucast r"
    using assms(1) by (auto simp: pick_index_def p bind_eq_Some_conv split: if_splits)
  then show ?thesis
  proof cases
    case 1
    then show ?thesis using draw [OF 1(1)] assms(2) up by (simp add: word_less_nat_alt)
  next
    case 2
    have "unat r < unat (fp_window_size ?p)" using draw [OF 2(1)] p by simp
    then show ?thesis
      using p(3) assms(3) up [of r] by (simp add: 2(2) word_less_nat_alt word_le_nat_alt unat_add_u64 unat_sub_u64)
  qed
qed

lemma reads_below_height:
  assumes "i < height"
  shows "hash_of_block (fill_params_at (take (unat height) hs) (take (unat height) fs) height odds n w) i = hash_of_block (fill_params_at hs fs height odds n w) i"
    "cna_v6_field (fill_params_at (take (unat height) hs) (take (unat height) fs) height odds n w) i j count
     = cna_v6_field (fill_params_at hs fs height odds n w) i j count"
  using assms by (auto simp: hash_of_block_def cna_v6_field_def fill_params_at_def Let_def word_less_nat_alt)

lemma pick_index_arrays: "pick_index (fill_params_at hs fs height odds n w) = pick_index (fill_params_at hs' fs' height odds n w)"
proof -
  let ?p = "fill_params_at hs fs height odds n w" and ?q = "fill_params_at hs' fs' height odds n w"
  have same: "fp_height ?p = fp_height ?q" "fp_window_size ?p = fp_window_size ?q" "fp_window_base ?p = fp_window_base ?q" "fp_odds ?p = fp_odds ?q"
    by (simp_all add: fill_params_at_def Let_def)
  show ?thesis unfolding fun_eq_iff pick_index_def same by simp
qed

lemma ref_fields_below_height:
  assumes "height \<noteq> 0" "unat height < 2 ^ 32"
  shows "ref_fields (fill_params_at (take (unat height) hs) (take (unat height) fs) height odds n w) count js st idx msg msgpos
    = ref_fields (fill_params_at hs fs height odds n w) count js st idx msg msgpos"
proof (induction js arbitrary: st idx msg msgpos)
  case (Cons j js)
  show ?case
    unfolding ref_fields.simps pick_index_arrays [of "take (unat height) hs" "take (unat height) fs" height odds n w hs fs]
    by (rule Option.bind_cong [OF refl]) (auto simp: Cons.IH reads_below_height pick_below_height [OF _ assms])
qed simp

lemma ref_block_below_height:
  assumes "height \<noteq> 0" "unat height < 2 ^ 32"
  shows "ref_block (fill_params_at (take (unat height) hs) (take (unat height) fs) height odds n w) = ref_block (fill_params_at hs fs height odds n w)"
proof -
  let ?p = "fill_params_at (take (unat height) hs) (take (unat height) fs) height odds n w" and ?q = "fill_params_at hs fs height odds n w"
  have "ref_body ?p s = ref_body ?q s" for s
    unfolding ref_body_def pick_index_arrays [of "take (unat height) hs" "take (unat height) fs" height odds n w hs fs] ref_fields_below_height [OF assms]
    by (rule Option.bind_cong [OF refl]) (auto simp: reads_below_height pick_below_height [OF _ assms] simp del: ref_fields.simps)
  then have "ref_body ?p = ref_body ?q" by (rule ext)
  moreover have "due_reseed ?p = due_reseed ?q" by (simp add: fun_eq_iff due_reseed_def fill_params_at_def Let_def)
  ultimately show ?thesis by (intro ext) (simp add: ref_block_def)
qed

lemma ref_loop_cong:
  assumes "hashes_fit p" "ref_block p = ref_block q" "length (fs_msg s) = 64" "unat (fs_count s) + 16 * n = unat limit" "limit \<le> 4096"
  shows "ref_loop p limit s = ref_loop q limit s"
  using assms(3, 4)
proof (induction n arbitrary: s)
  case 0
  then show ?case by (simp add: ref_loop_block word_less_nat_alt)
next
  case (Suc n)
  have "unat (fs_count s) + 16 \<le> 4096" using Suc.prems assms(5) by (simp add: word_le_nat_alt)
  then have "ref_loop p limit t = ref_loop q limit t" if "ref_block q s = Some t" for t
    using ref_block_keeps [OF assms(1) Suc.prems(1)] that assms(2) Suc.IH [of t] Suc.prems by (simp add: count_step)
  then show ?case
    unfolding ref_loop_block [of p limit s] ref_loop_block [of q limit s] assms(2) by (auto intro: Option.bind_cong)
qed

lemma reference_below_height:
  assumes "hashes_fit (fill_params_at hs fs height odds n w)" "height \<noteq> 0" "unat height < 2 ^ 32" "length m = 64"
  shows "cna_v6_data_reference (fill_params_at (take (unat height) hs) (take (unat height) fs) height odds n w) m st out
    = cna_v6_data_reference (fill_params_at hs fs height odds n w) m st out"
proof -
  let ?p = "fill_params_at hs fs height odds n w" and ?q = "fill_params_at (take (unat height) hs) (take (unat height) fs) height odds n w"
  note block = ref_block_below_height [OF assms(2, 3), symmetric, of hs fs odds n w]
  let ?s = "fill_start m st out"
  have start: "length (fs_msg ?s) = 64" "unat (fs_count ?s) + 16 * 128 = unat (2048 :: u64)" using assms(4) by (simp_all add: fill_start_def)
  have first: "ref_loop ?p 2048 ?s = ref_loop ?q 2048 ?s" by (rule ref_loop_cong [OF assms(1) block start]) simp
  have second: "ref_loop ?p 4096 v = ref_loop ?q 4096 v" if "ref_loop ?q 2048 ?s = Some u" "midpoint u = Some v" for u v
  proof -
    have "fs_count u = 2048" using ref_loop_count [OF assms(1) start] that(1) first by simp
    then show ?thesis
      using midpoint_keeps [OF _ that(2)] ref_loop_msg [OF assms(1) start, of u] that(1) first
      by (intro ref_loop_cong [OF assms(1) block, of _ 128]) simp_all
  qed
  show ?thesis
    unfolding cna_v6_data_reference_def first by (auto simp: second cong: Option.bind_cong)
qed

section \<open>The salt of the chain\<close>

text \<open>
  The self-check never refuses what the run-ahead loop computed; the salt and the cipher state it leaves are those of the
  reference loop, whatever the message buffers and the output buffers held before.
\<close>

lemma salt_is_reference:
  assumes "height \<noteq> 0" "reseed_blocks \<noteq> 0" "256 mod reseed_blocks = 0"
    and "\<forall>h \<in> set block_hashes. length h = 32"
    and "length msg = 64" "length msg' = 64" "length m = 64"
    and "length out = CN_SALT_MEMORY" "length out' = CN_SALT_MEMORY"
  shows "get_cna_v6_data do_check msg msg' block_hashes block_fields out st height odds reseed_blocks hash_words
    = cna_v6_data_reference (fill_params_at block_hashes block_fields height odds reseed_blocks hash_words) m st out'"
proof -
  let ?p = "fill_params_at block_hashes block_fields height odds reseed_blocks hash_words"
  have fit: "hashes_fit ?p" using assms(4) by (simp add: hashes_fit_def fill_params_at_def Let_def)
  have run: "cna_v6_data_run_ahead ?p msg' st out = cna_v6_data_reference ?p m st out'"
    using run_ahead_reference [OF fit assms(6, 7)] reference_any_buffer [OF fit assms(7-9)] by simp
  have check: "cna_v6_data_reference ?p msg st (replicate CN_SALT_MEMORY 0) = cna_v6_data_reference ?p m st out'"
    using run_ahead_reference [OF fit assms(7, 5)] run_ahead_reference [OF fit assms(7, 7)]
      reference_any_buffer [OF fit assms(7), of "replicate CN_SALT_MEMORY 0" out'] assms(9) by simp
  show ?thesis
    using assms(1-3) reference_length [OF fit assms(7, 9)]
    by (auto simp: get_cna_v6_data_def Let_def run check split: bind_splits)
qed

end
