(* ===== verification/Spec2Isabelle.thy ===== *)
theory Spec2Isabelle
  imports Prelude Codec Int_Util Varint Keccak Base58 Tree_Hash Pruning Difficulty Chain_Db Hard_Fork Hex
    Std_Map Checkpoints Block_Queue Portable_Storage Block_Info Block_Table
    Difficulty_Cache Chain_Sync Hc128 Chain_Fill
begin

text \<open>
  A verification development of the Nerva daemon.
\<close>

end
